(* ===== verification/Dpdk_Prelude.thy ===== *)
theory Dpdk_Prelude
  imports Main "HOL-Library.Word"
begin

text \<open>
  What the components of the development share: the names of the C integer
  types and errno values, the C loops that walk an index range, and the
  generic facts about lists, function tables and 32-bit words that the
  component proofs use.

  C's \<open>uint8_t\<close>, \<open>uint16_t\<close>, \<open>uint32_t\<close> and \<open>uint64_t\<close> are words of that width,
  so their arithmetic wraps as in C.  A function of the source that returns a
  negative errno returns an \<open>int\<close> here, with the errno values of Linux.
\<close>

unbundle bit_operations_syntax

type_synonym u8 = "8 word"
type_synonym u16 = "16 word"
type_synonym u32 = "32 word"
type_synonym u64 = "64 word"

subsection \<open>Error numbers\<close>

definition ENOENT :: int where [simp]: "ENOENT = 2"
definition ENOMEM :: int where [simp]: "ENOMEM = 12"
definition EEXIST :: int where [simp]: "EEXIST = 17"
definition EINVAL :: int where [simp]: "EINVAL = 22"
definition ENOSPC :: int where [simp]: "ENOSPC = 28"
definition ERANGE :: int where [simp]: "ERANGE = 34"
definition ENOBUFS :: int where [simp]: "ENOBUFS = 105"
definition EDQUOT :: int where [simp]: "EDQUOT = 122"

subsection \<open>Counting loops\<close>

text \<open>
  \<open>for (i = a; i < b; i++) s = f(i, s);\<close> as a fold over the indices; the loops
  of the source that leave early are recursive functions of their own.
\<close>

definition for_range :: "nat \<Rightarrow> nat \<Rightarrow> (nat \<Rightarrow> 's \<Rightarrow> 's) \<Rightarrow> 's \<Rightarrow> 's" where
  "for_range a b f s = fold f [a..<b] s"

lemma for_range_empty [simp]: "b \<le> a \<Longrightarrow> for_range a b f s = s"
  by (simp add: for_range_def)

lemma for_range_last: "a \<le> b \<Longrightarrow> for_range a (Suc b) f s = f b (for_range a b f s)"
  by (simp add: for_range_def)

lemma for_range_first: "a < b \<Longrightarrow> for_range a b f s = for_range (Suc a) b f (f a s)"
  by (simp add: for_range_def upt_conv_Cons)

text \<open>The invariant rule of a counting loop.\<close>

lemma for_range_invariant:
  assumes "P a s" and "a \<le> b"
    and "\<And>i s. a \<le> i \<Longrightarrow> i < b \<Longrightarrow> P i s \<Longrightarrow> P (Suc i) (f i s)"
  shows "P b (for_range a b f s)"
  using assms(2,3)
proof (induction b rule: dec_induct)
  case base
  then show ?case using assms(1) by simp
next
  case (step n)
  then have "P n (for_range a n f s)" by simp
  then show ?case using step by (simp add: for_range_last)
qed

lemma for_range_cong:
  assumes "\<And>i s. a \<le> i \<Longrightarrow> i < b \<Longrightarrow> f i s = g i s"
  shows "for_range a b f s = for_range a b g s"
  unfolding for_range_def by (rule fold_cong) (auto simp: assms)

lemma for_range_shift:
  "for_range (d + a) (d + b) f s = for_range a b (\<lambda>i. f (d + i)) s"
proof (cases "a \<le> b")
  case True
  then show ?thesis by (induction b rule: dec_induct) (auto simp: for_range_last)
qed simp

lemma for_range_split:
  assumes "a \<le> b" and "b \<le> c"
  shows "for_range b c f (for_range a b f s) = for_range a c f s"
  using assms(2,1) by (induction c rule: dec_induct) (auto simp: for_range_last)

text \<open>A loop unrolled by four, followed by a switch on the rest, is the plain loop.\<close>

lemma for_range_4: "for_range 0 (4 * q) f s =
  for_range 0 q (\<lambda>k s. f (4 * k + 3) (f (4 * k + 2) (f (4 * k + 1) (f (4 * k) s)))) s"
proof (induction q)
  case (Suc q)
  have "4 * Suc q = Suc (Suc (Suc (Suc (4 * q))))" by simp
  then show ?case using Suc by (simp only: for_range_last) (simp add: for_range_last numeral_eq_Suc)
qed simp

lemma for_range_unrolled:
  assumes "s' = for_range 0 (n div 4)
    (\<lambda>k s. f (4 * k + 3) (f (4 * k + 2) (f (4 * k + 1) (f (4 * k) s)))) s"
    and "i = 4 * (n div 4)"
  shows "(if n mod 4 = 3 then f (i + 2) (f (i + 1) (f i s'))
          else if n mod 4 = 2 then f (i + 1) (f i s')
          else if n mod 4 = 1 then f i s' else s') = for_range 0 n f s"
proof -
  have s': "s' = for_range 0 i f s" using assms for_range_4 [of "n div 4" f s] by simp
  have n: "n = i + n mod 4" using assms(2) by simp
  have "n mod 4 = 0 \<or> n mod 4 = 1 \<or> n mod 4 = 2 \<or> n mod 4 = 3" by arith
  then consider "n = i" "n mod 4 = 0" | "n = Suc i" "n mod 4 = 1"
    | "n = Suc (Suc i)" "n mod 4 = 2" | "n = Suc (Suc (Suc i))" "n mod 4 = 3"
    using n by fastforce
  then show ?thesis
    by cases (simp_all add: s' for_range_last del: mod_Suc)
qed

subsection \<open>Tables updated by index\<close>

text \<open>
  A loop that rewrites each entry of a table on its own, under a test of that
  entry, is one pointwise change of the table.
\<close>

lemma for_range_pointwise:
  "for_range a b (\<lambda>i t. if P i (t i) then t(i := g i (t i)) else t) t =
   (\<lambda>i. if a \<le> i \<and> i < b \<and> P i (t i) then g i (t i) else t i)"
proof (cases "a \<le> b")
  case True
  then show ?thesis
  proof (induction b rule: dec_induct)
    case base
    then show ?case by (auto simp: fun_eq_iff)
  next
    case (step n)
    then show ?case by (auto simp: for_range_last fun_eq_iff less_Suc_eq)
  qed
next
  case False
  then show ?thesis by (auto simp: fun_eq_iff)
qed

lemma for_range_pointwise_all:
  "for_range a b (\<lambda>i t. t(i := g i (t i))) t =
   (\<lambda>i. if a \<le> i \<and> i < b then g i (t i) else t i)"
  using for_range_pointwise [of a b "\<lambda>_ _. True" g t] by simp

text \<open>Copying a run of values into consecutive positions of a list.\<close>

lemma for_range_list_update_length [simp]:
  "length (for_range a b (\<lambda>i xs. xs[h i := v i]) xs) = length xs"
proof (cases "a \<le> b")
  case True
  then show ?thesis
    by (induction b rule: dec_induct) (auto simp: for_range_last)
qed simp

lemma for_range_list_update_nth:
  assumes "p < length xs"
  shows "for_range a b (\<lambda>i xs. xs[d + (i - a) := v i]) xs ! p =
    (if d \<le> p \<and> p < d + (b - a) then v (a + (p - d)) else xs ! p)"
proof (cases "a \<le> b")
  case True
  then show ?thesis
  proof (induction b rule: dec_induct)
    case base
    then show ?case by auto
  next
    case (step n)
    have "p < length (for_range a n (\<lambda>i xs. xs[d + (i - a) := v i]) xs)"
      using assms by simp
    with step show ?case
      by (cases "p = d + (n - a)") (auto simp: for_range_last nth_list_update simp del: add_diff_assoc)
  qed
qed auto

subsection \<open>Arithmetic modulo a power of two\<close>

lemma mod_eq_sub_once: "a < 2 * m \<Longrightarrow> a mod m = (if a < m then a else a - m)" for a m :: nat
  by (simp add: mod_if not_less)

lemma unat_and_mask: "unat (x AND (2 ^ k - 1) :: u32) = unat x mod 2 ^ k"
proof -
  have "x AND (2 ^ k - 1) = take_bit k x"
    by (simp add: take_bit_eq_mask mask_eq_exp_minus_1)
  then show ?thesis by (simp only: unsigned_take_bit_eq) (simp add: take_bit_eq_mod)
qed

lemma unat_sub_mod: "unat (a - b :: u32) = (unat a + 2 ^ 32 - unat b) mod 2 ^ 32"
proof -
  have "unat b \<le> 2 ^ 32" using unsigned_less [of b, where 'a = nat] by simp
  then have "a - b = word_of_nat (unat a + 2 ^ 32 - unat b)"
    by (simp add: of_nat_diff)
  then show ?thesis by (simp add: unat_of_nat)
qed

lemma unat_add_u32: "unat (a + b :: u32) = (unat a + unat b) mod 2 ^ 32"
  by (simp add: unat_word_ariths)

lemma unat_p2_u32:
  assumes "k < 32" shows "unat (2 ^ k :: u32) = 2 ^ k"
proof -
  have lt: "(2::nat) ^ k < 2 ^ 32" by (rule power_strict_increasing) (use assms in auto)
  have "(2 ^ k :: u32) = word_of_nat (2 ^ k)" by (simp only: of_nat_power of_nat_numeral)
  then have "unat (2 ^ k :: u32) = unat (word_of_nat (2 ^ k) :: u32)" by simp
  also have "\<dots> = 2 ^ k mod 2 ^ 32" by (simp only: unat_of_nat) simp
  also have "\<dots> = 2 ^ k" using lt by (rule mod_less)
  finally show ?thesis .
qed

lemma mod_p2_cancel: "k \<le> 32 \<Longrightarrow> (x mod 2 ^ 32) mod 2 ^ k = x mod (2 ^ k :: nat)"
  by (rule mod_mod_cancel) (rule le_imp_power_dvd)

text \<open>Reading a 32-bit word as a signed C \<open>int\<close>.\<close>

lemma sint_eq: "sint (n :: u32) = (uint n + 2 ^ 31) mod 2 ^ 32 - 2 ^ 31"
proof -
  have "sint n = signed_take_bit 31 (uint n)" using sint_uint [of n] by simp
  also have "\<dots> = take_bit (Suc 31) (uint n + 2 ^ 31) - 2 ^ 31"
    by (rule signed_take_bit_eq_take_bit_shift)
  also have "take_bit (Suc 31) (uint n + 2 ^ 31) = (uint n + 2 ^ 31) mod 2 ^ Suc 31"
    by (rule take_bit_eq_mod)
  finally show ?thesis by simp
qed

lemma sint_small:
  assumes "unat (n :: u32) < 2 ^ 31" shows "sint n = int (unat n)"
proof -
  have u: "uint n = int (unat n)" by simp
  have "int (unat n) < 2 ^ 31" by (metis assms of_nat_less_iff of_nat_numeral of_nat_power)
  then have "(int (unat n) + 2 ^ 31) mod 2 ^ 32 = int (unat n) + 2 ^ 31"
    by (intro mod_pos_pos_trivial) auto
  then show ?thesis by (simp only: sint_eq u)
qed

lemma sint_or_quota:
  assumes "unat (n :: u32) < 2 ^ 31"
  shows "sint (n OR 0x80000000) = int (unat n) - 2 ^ 31"
proof -
  have "\<not> bit (unat n) 31" using assms by (simp add: bit_iff_odd)
  moreover have "bit (unat n) 31 = (possible_bit TYPE(nat) 31 \<and> bit n 31)"
    by (rule bit_unsigned_iff)
  moreover have "possible_bit TYPE(nat) 31" by simp
  ultimately have "\<not> bit n 31" by blast
  then have "n AND 2 ^ 31 = 0" by (simp only: and_exp_eq_0_iff_not_bit simp_thms)
  then have "n OR 2 ^ 31 = n + 2 ^ 31" by (metis disjunctive_add_eq_or)
  then have or: "n OR 0x80000000 = n + 0x80000000" by simp
  have lt: "unat n + 2 ^ 31 < 2 ^ 32" using assms by simp
  have s: "unat (n + 0x80000000) = unat n + 2 ^ 31"
    using lt by (simp add: unat_add_u32)
  have ui: "uint w = int (unat w)" for w :: u32 by simp
  have u: "uint (n + 0x80000000) = int (unat n) + 2 ^ 31"
    by (simp only: ui s of_nat_add of_nat_power of_nat_numeral)
  have shift: "(x + 2 ^ 31 + 2 ^ 31) mod 2 ^ 32 = x mod 2 ^ 32" for x :: int
    using mod_add_self2 [of x "2 ^ 32"] by (simp add: add.assoc)
  have lt': "int (unat n) < 2 ^ 32"
    by (metis add_lessD1 lt of_nat_less_iff of_nat_numeral of_nat_power)
  have "int (unat n) mod 2 ^ 32 = int (unat n)"
    by (rule mod_pos_pos_trivial [OF of_nat_0_le_iff lt'])
  then show ?thesis by (simp only: sint_eq or u shift)
qed
subsection \<open>Powers of two\<close>

lemma and_pred_eq_0_iff: "0 < n \<Longrightarrow> (n - 1) AND n = 0 \<longleftrightarrow> (\<exists>k. n = 2 ^ k)" for n :: nat
proof (induction n rule: less_induct)
  case (less n)
  show ?case
  proof (cases "even n")
    case True
    then obtain m where m: "n = 2 * m" by blast
    then have "0 < m" "m < n" using less.prems by auto
    have "(n - 1) AND n = 2 * ((m - 1) AND m)"
    proof -
      have "(2 * m - Suc 0) div 2 = m - Suc 0" by arith
      then show ?thesis using \<open>0 < m\<close> m by (subst and_rec) auto
    qed
    then have "(n - 1) AND n = 0 \<longleftrightarrow> (\<exists>k. m = 2 ^ k)"
      using less.IH [OF \<open>m < n\<close> \<open>0 < m\<close>] by simp
    also have "\<dots> \<longleftrightarrow> (\<exists>k. n = 2 ^ k)"
    proof
      assume "\<exists>k. n = 2 ^ k"
      then obtain k where k: "2 * m = 2 ^ k" using m by auto
      then show "\<exists>k. m = 2 ^ k" using \<open>0 < m\<close> by (cases k) auto
    qed (auto simp: m intro: exI [of _ "Suc _"])
    finally show ?thesis .
  next
    case False
    then obtain m where m: "n = 2 * m + 1" by (auto elim: oddE)
    have "(n - 1) AND n = 2 * m" by (subst and_rec) (auto simp: m)
    moreover have "(\<exists>k. n = 2 ^ k) \<longleftrightarrow> m = 0"
    proof
      assume "\<exists>k. n = 2 ^ k"
      then obtain k where k: "n = 2 ^ k" ..
      with False have "k = 0" by (cases k) auto
      then show "m = 0" using k m by simp
    qed (use m in \<open>auto intro: exI [of _ 0]\<close>)
    ultimately show ?thesis by simp
  qed
qed

lemma and_pred_word_iff:
  fixes n :: "'a::len word"
  assumes "n \<noteq> 0"
  shows "(n - 1) AND n = 0 \<longleftrightarrow> (\<exists>k. unat n = 2 ^ k)"
proof -
  have pos: "0 < unat n" using assms by (simp add: unat_gt_0)
  have "(n - 1) AND n = 0 \<longleftrightarrow> unat ((n - 1) AND n) = 0" by (simp add: unat_eq_0)
  also have "unat ((n - 1) AND n) = (unat n - 1) AND unat n"
    using assms by (simp add: unsigned_and_eq unat_minus_one)
  also have "\<dots> = 0 \<longleftrightarrow> (\<exists>k. unat n = 2 ^ k)" by (rule and_pred_eq_0_iff [OF pos])
  finally show ?thesis .
qed

section \<open>Checked memory\<close>

definition read_at :: "'a list \<Rightarrow> nat \<Rightarrow> 'a option" where
  "read_at xs i = (if i < length xs then Some (xs ! i) else None)"

definition write_at :: "'a list \<Rightarrow> nat \<Rightarrow> 'a \<Rightarrow> 'a list option" where
  "write_at xs i v = (if i < length xs then Some (xs[i := v]) else None)"

definition memcpy :: "'a list \<Rightarrow> nat \<Rightarrow> 'a list \<Rightarrow> nat \<Rightarrow> nat \<Rightarrow> 'a list option" where
  "memcpy dst d src s n =
    (if d + n \<le> length dst \<and> s + n \<le> length src
     then Some (take d dst @ take n (drop s src) @ drop (d + n) dst) else None)"

lemma memcpy_Some: "memcpy dst d src s n = Some r \<longleftrightarrow>
  d + n \<le> length dst \<and> s + n \<le> length src \<and>
  r = take d dst @ take n (drop s src) @ drop (d + n) dst"
  by (auto simp: memcpy_def)

lemma length_memcpy: "memcpy dst d src s n = Some r \<Longrightarrow> length r = length dst"
  by (auto simp: memcpy_Some)

lemma nth_memcpy:
  "memcpy dst d src s n = Some r \<Longrightarrow> i < length dst \<Longrightarrow>
    r ! i = (if d \<le> i \<and> i < d + n then src ! (s + (i - d)) else dst ! i)"
  by (auto simp: memcpy_Some nth_append)

text \<open>\<open>n\<close> elements from index \<open>i\<close> on.\<close>

definition read_range :: "'a list \<Rightarrow> nat \<Rightarrow> nat \<Rightarrow> 'a list option" where
  "read_range xs i n = (if i + n \<le> length xs then Some (take n (drop i xs)) else None)"

text \<open>32-bit arithmetic that does not wrap.\<close>

lemma unat_add_exact: "unat a + unat b < 2 ^ 32 \<Longrightarrow> unat (a + b :: u32) = unat a + unat b"
  by (simp add: unat_add_u32)

lemma unat_sub_exact: "unat b \<le> unat a \<Longrightarrow> unat (a - b :: u32) = unat a - unat b"
  by (simp add: unat_sub word_le_nat_alt)

lemma of_nat_u32: "i < 2 ^ 32 \<Longrightarrow> unat (of_nat i :: u32) = i"
  by (simp add: unat_of_nat)

lemma unat_inj: "unat (a :: 'a::len word) = unat b \<longleftrightarrow> a = b"
  using unsigned_word_eqI by blast

lemma unat_u32_less: "unat (w :: u32) < 2 ^ 32"
proof -
  have "unat w < 2 ^ LENGTH(32)" by (rule unsigned_less)
  then show ?thesis by simp
qed

end
