(* ===== verification/Bulk_Queue.thy ===== *)
theory Bulk_Queue
  imports Dpdk_Prelude "HOL-Library.Multiset"
begin

text \<open>
  The contract of a bounded queue with all-or-nothing bulk operations, which
  the memory pool (and any other user of a ring through its bulk functions)
  relies on.  \<open>enq\<close> and \<open>deq\<close> are partial because a call of a multi-producer
  or multi-consumer function may wait forever for another core; the laws say
  that it returns when the queue is in a state that satisfies \<open>ok\<close>.
\<close>

locale bulk_queue =
  fixes ok :: "'q \<Rightarrow> bool"
    and contents :: "'q \<Rightarrow> 'a list"
    and cap :: "'q \<Rightarrow> nat"
    and enq :: "'a list \<Rightarrow> 'q \<Rightarrow> (int \<times> 'q) option"
    and deq :: "'a list \<Rightarrow> 'q \<Rightarrow> (int \<times> 'a list \<times> 'q) option"
  assumes contents_le_cap: "ok q \<Longrightarrow> length (contents q) \<le> cap q"
    and enq_fits: "ok q \<Longrightarrow> length xs < 2 ^ 32 \<Longrightarrow> length (contents q) + length xs \<le> cap q \<Longrightarrow>
      \<exists>ret q'. enq xs q = Some (ret, q') \<and> (ret = 0 \<or> ret = - EDQUOT) \<and> ok q' \<and>
        cap q' = cap q \<and> contents q' = contents q @ xs"
    and enq_full: "ok q \<Longrightarrow> length xs < 2 ^ 32 \<Longrightarrow> cap q < length (contents q) + length xs \<Longrightarrow>
      enq xs q = Some (- ENOBUFS, q)"
    and deq_has: "ok q \<Longrightarrow> length tab < 2 ^ 32 \<Longrightarrow> length tab \<le> length (contents q) \<Longrightarrow>
      \<exists>q'. deq tab q = Some (0, take (length tab) (contents q), q') \<and> ok q' \<and>
        cap q' = cap q \<and> contents q' = drop (length tab) (contents q)"
    and deq_short: "ok q \<Longrightarrow> length tab < 2 ^ 32 \<Longrightarrow> length (contents q) < length tab \<Longrightarrow>
      deq tab q = Some (- ENOENT, tab, q)"
begin

text \<open>Every call returns, and what it returns decides what happened.\<close>

lemma enq_cases:
  assumes "ok q" and "length xs < 2 ^ 32"
  obtains (stored) ret q' where "enq xs q = Some (ret, q')" and "ret = 0 \<or> ret = - EDQUOT"
      and "ok q'" and "cap q' = cap q" and "contents q' = contents q @ xs"
    | (refused) "enq xs q = Some (- ENOBUFS, q)" and "cap q < length (contents q) + length xs"
proof (cases "length (contents q) + length xs \<le> cap q")
  case True
  then show ?thesis using enq_fits [OF assms] stored by blast
next
  case False
  then show ?thesis using enq_full [OF assms] refused by simp
qed

lemma deq_cases:
  assumes "ok q" and "length tab < 2 ^ 32"
  obtains (got) q' where "deq tab q = Some (0, take (length tab) (contents q), q')"
      and "length tab \<le> length (contents q)" and "ok q'" and "cap q' = cap q"
      and "contents q' = drop (length tab) (contents q)"
    | (none) "deq tab q = Some (- ENOENT, tab, q)" and "length (contents q) < length tab"
proof (cases "length tab \<le> length (contents q)")
  case True
  then show ?thesis using deq_has [OF assms] got by blast
next
  case False
  then show ?thesis using deq_short [OF assms] none by simp
qed

text \<open>No object is lost or made up.\<close>

lemma enq_conserves:
  assumes "ok q" and "length (contents q) + length xs \<le> cap q" and "length xs < 2 ^ 32"
    and "enq xs q = Some (ret, q')"
  shows "ok q' \<and> cap q' = cap q \<and> mset (contents q') = mset (contents q) + mset xs"
  using enq_fits [OF assms(1,3,2)] assms(4) by auto

lemma deq_conserves:
  assumes "ok q" and "length tab < 2 ^ 32" and "deq tab q = Some (ret, tab', q')"
  shows "ok q' \<and> cap q' = cap q \<and> length tab' = length tab \<and>
    (if ret = 0 then mset (contents q) = mset tab' + mset (contents q')
     else ret = - ENOENT \<and> tab' = tab \<and> q' = q)"
  using assms(1,2)
proof (cases rule: deq_cases)
  case (got q'')
  have "mset (contents q) = mset (take (length tab) (contents q)) + mset (drop (length tab) (contents q))"
    by (simp flip: mset_append)
  then show ?thesis using got assms(1,3) by auto
next
  case none
  then show ?thesis using assms by auto
qed

text \<open>First in, first out across a refill: what goes in last comes out last.\<close>

lemma enq_deq_fifo:
  assumes "ok q" and "length (contents q) + length xs \<le> cap q" and "length xs < 2 ^ 32"
    and "length tab = length (contents q) + length xs" and "length tab < 2 ^ 32"
  shows "\<exists>ret q' q''. enq xs q = Some (ret, q') \<and> deq tab q' = Some (0, contents q @ xs, q'') \<and>
    contents q'' = []"
proof -
  obtain ret q' where q': "enq xs q = Some (ret, q')" "ok q'" "contents q' = contents q @ xs"
    using enq_fits [OF assms(1,3,2)] by blast
  then show ?thesis using deq_has [OF q'(2) assms(5)] assms(4) by auto
qed

end

end
