(* ===== verification/Rte_Ring.thy ===== *)
theory Rte_Ring
  imports Dpdk_Prelude "HOL-Library.Monad_Syntax"
begin

unbundle bit_operations_syntax

text \<open>
  The lock-free ring of lib/librte_ring: \<open>struct rte_ring\<close>, its creation and
  lookup, the single- and multi-producer enqueue, the single- and
  multi-consumer dequeue and their bulk, burst and one-object wrappers, as they
  run when no other core is inside the ring.  The head and tail indices are
  32-bit words that wrap; the slots are a list that is indexed by the low bits
  of an index.
\<close>

section \<open>Data\<close>

datatype rte_ring_queue_behavior = RTE_RING_QUEUE_FIXED | RTE_RING_QUEUE_VARIABLE

record prod_status =
  watermark :: u32
  sp_enqueue :: bool
  prod_size :: u32
  prod_mask :: u32
  prod_head :: u32
  prod_tail :: u32

record cons_status =
  sc_dequeue :: bool
  cons_size :: u32
  cons_mask :: u32
  cons_head :: u32
  cons_tail :: u32

record 'a rte_ring =
  ring_name :: string
  ring_flags :: u32
  prod :: prod_status
  cons :: cons_status
  slots :: "'a list"

abbreviation set_prod_head :: "u32 \<Rightarrow> 'a rte_ring \<Rightarrow> 'a rte_ring" where
  "set_prod_head h r \<equiv> r\<lparr>prod := (prod r)\<lparr>prod_head := h\<rparr>\<rparr>"
abbreviation set_prod_tail :: "u32 \<Rightarrow> 'a rte_ring \<Rightarrow> 'a rte_ring" where
  "set_prod_tail h r \<equiv> r\<lparr>prod := (prod r)\<lparr>prod_tail := h\<rparr>\<rparr>"
abbreviation set_cons_head :: "u32 \<Rightarrow> 'a rte_ring \<Rightarrow> 'a rte_ring" where
  "set_cons_head h r \<equiv> r\<lparr>cons := (cons r)\<lparr>cons_head := h\<rparr>\<rparr>"
abbreviation set_cons_tail :: "u32 \<Rightarrow> 'a rte_ring \<Rightarrow> 'a rte_ring" where
  "set_cons_tail h r \<equiv> r\<lparr>cons := (cons r)\<lparr>cons_tail := h\<rparr>\<rparr>"

definition RING_F_SP_ENQ :: u32 where "RING_F_SP_ENQ = 1"
definition RING_F_SC_DEQ :: u32 where "RING_F_SC_DEQ = 2"
definition RTE_RING_SZ_MASK :: u32 where "RTE_RING_SZ_MASK = 0x0fffffff"
definition RTE_RING_QUOT_EXCEED :: u32 where "RTE_RING_QUOT_EXCEED = 0x80000000"
definition RTE_RING_NAMESIZE :: nat where "RTE_RING_NAMESIZE = 32"

section \<open>Initialisation\<close>

definition POWEROF2 :: "u32 \<Rightarrow> bool" where
  "POWEROF2 x \<longleftrightarrow> (x - 1) AND x = 0"

text \<open>
  \<open>sizeof(struct rte_ring)\<close> depends on the target, so it is an argument;
  \<open>sizeof(void *)\<close> is 8 and the cache line 64 bytes.
\<close>

definition rte_ring_get_memsize :: "nat \<Rightarrow> u32 \<Rightarrow> int" where
  "rte_ring_get_memsize sizeof_ring count =
    (if \<not> POWEROF2 count \<or> count > RTE_RING_SZ_MASK then - EINVAL
     else int ((sizeof_ring + unat count * 8 + 63) div 64 * 64))"

text \<open>
  \<open>r\<close> is the memory the ring is built in: its slots keep what they held.
  \<open>snprintf\<close> into the 32-byte name keeps 31 characters.
\<close>

definition rte_ring_init :: "'a rte_ring \<Rightarrow> string \<Rightarrow> u32 \<Rightarrow> u32 \<Rightarrow> 'a rte_ring" where
  "rte_ring_init r name count flags =
    \<lparr>ring_name = take (RTE_RING_NAMESIZE - 1) name,
     ring_flags = flags,
     prod = \<lparr>watermark = count, sp_enqueue = (flags AND RING_F_SP_ENQ \<noteq> 0),
             prod_size = count, prod_mask = count - 1, prod_head = 0, prod_tail = 0\<rparr>,
     cons = \<lparr>sc_dequeue = (flags AND RING_F_SC_DEQ \<noteq> 0),
             cons_size = count, cons_mask = count - 1, cons_head = 0, cons_tail = 0\<rparr>,
     slots = slots r\<rparr>"

definition rte_ring_set_water_mark :: "'a rte_ring \<Rightarrow> u32 \<Rightarrow> int \<times> 'a rte_ring" where
  "rte_ring_set_water_mark r count =
    (if count \<ge> prod_size (prod r) then (- EINVAL, r)
     else let count = (if count = 0 then prod_size (prod r) else count)
          in (0, r\<lparr>prod := (prod r)\<lparr>watermark := count\<rparr>\<rparr>))"

text \<open>
  The tail queue of rings is the list \<open>ring_list\<close>, in insertion order.
  \<open>te_ok\<close> says whether \<open>rte_zmalloc\<close> returned memory for the list entry and
  \<open>mz\<close> is the zone \<open>rte_memzone_reserve\<close> returned for the given size, if any.
  The first component is the ring or the errno that was set (\<open>None\<close> where the
  errno is left to \<open>rte_memzone_reserve\<close>).
\<close>

definition rte_ring_create ::
  "nat \<Rightarrow> string \<Rightarrow> u32 \<Rightarrow> u32 \<Rightarrow> bool \<Rightarrow> (int \<Rightarrow> 'a rte_ring option) \<Rightarrow> 'a rte_ring list
   \<Rightarrow> (int option + 'a rte_ring) \<times> 'a rte_ring list" where
  "rte_ring_create sizeof_ring name count flags te_ok mz ring_list =
    (let ring_size = rte_ring_get_memsize sizeof_ring count in
     if ring_size < 0 then (Inl (Some ring_size), ring_list)
     else if \<not> te_ok then (Inl (Some ENOMEM), ring_list)
     else (case mz ring_size of
             Some z \<Rightarrow> (let r = rte_ring_init z name count flags
                        in (Inr r, ring_list @ [r]))
           | None \<Rightarrow> (Inl None, ring_list)))"

text \<open>\<open>strncmp(name, r->name, RTE_RING_NAMESIZE) == 0\<close> on NUL-terminated strings.\<close>

definition rte_ring_lookup :: "string \<Rightarrow> 'a rte_ring list \<Rightarrow> int + 'a rte_ring" where
  "rte_ring_lookup name ring_list =
    (case List.find (\<lambda>r. take RTE_RING_NAMESIZE name = take RTE_RING_NAMESIZE (ring_name r))
            ring_list of
       None \<Rightarrow> Inl ENOENT
     | Some r \<Rightarrow> Inr r)"

section \<open>State of the ring\<close>

definition rte_ring_full :: "'a rte_ring \<Rightarrow> bool" where
  "rte_ring_full r \<longleftrightarrow>
    (cons_tail (cons r) - prod_tail (prod r) - 1) AND prod_mask (prod r) = 0"

definition rte_ring_empty :: "'a rte_ring \<Rightarrow> bool" where
  "rte_ring_empty r \<longleftrightarrow> cons_tail (cons r) = prod_tail (prod r)"

definition rte_ring_count :: "'a rte_ring \<Rightarrow> u32" where
  "rte_ring_count r = (prod_tail (prod r) - cons_tail (cons r)) AND prod_mask (prod r)"

definition rte_ring_free_count :: "'a rte_ring \<Rightarrow> u32" where
  "rte_ring_free_count r =
    (cons_tail (cons r) - prod_tail (prod r) - 1) AND prod_mask (prod r)"

section \<open>Copying pointers\<close>

text \<open>
  \<open>ENQUEUE_PTRS\<close>: the copy unrolled by four with a falling-through switch when
  the run does not reach the end of the slots, else two loops.
\<close>

definition ENQUEUE_PTRS :: "'a rte_ring \<Rightarrow> u32 \<Rightarrow> 'a list \<Rightarrow> u32 \<Rightarrow> 'a rte_ring" where
  "ENQUEUE_PTRS r head obj_table n =
    (let size = prod_size (prod r); idx = head AND prod_mask (prod r);
         d = unat idx; m = unat n; sz = unat size; ring = slots r in
     if idx + n < size then
       (let i = 4 * (m div 4);
            ring = for_range 0 (m div 4) (\<lambda>k s. s[d + 4 * k := obj_table ! (4 * k),
                       d + 4 * k + 1 := obj_table ! (4 * k + 1),
                       d + 4 * k + 2 := obj_table ! (4 * k + 2),
                       d + 4 * k + 3 := obj_table ! (4 * k + 3)]) ring;
            ring = (if m mod 4 = 3
                    then ring[d + i := obj_table ! i, d + i + 1 := obj_table ! (i + 1),
                              d + i + 2 := obj_table ! (i + 2)]
                    else if m mod 4 = 2
                    then ring[d + i := obj_table ! i, d + i + 1 := obj_table ! (i + 1)]
                    else if m mod 4 = 1 then ring[d + i := obj_table ! i] else ring)
        in r\<lparr>slots := ring\<rparr>)
     else
       (let ring = for_range d sz (\<lambda>j s. s[j := obj_table ! (j - d)]) ring;
            ring = for_range (sz - d) m (\<lambda>i s. s[i - (sz - d) := obj_table ! i]) ring
        in r\<lparr>slots := ring\<rparr>))"

definition DEQUEUE_PTRS :: "'a rte_ring \<Rightarrow> u32 \<Rightarrow> 'a list \<Rightarrow> u32 \<Rightarrow> 'a list" where
  "DEQUEUE_PTRS r head obj_table n =
    (let size = cons_size (cons r); idx = head AND prod_mask (prod r);
         d = unat idx; m = unat n; sz = unat size; ring = slots r in
     if idx + n < size then
       (let i = 4 * (m div 4);
            tab = for_range 0 (m div 4) (\<lambda>k s. s[4 * k := ring ! (d + 4 * k),
                       4 * k + 1 := ring ! (d + 4 * k + 1),
                       4 * k + 2 := ring ! (d + 4 * k + 2),
                       4 * k + 3 := ring ! (d + 4 * k + 3)]) obj_table
        in (if m mod 4 = 3
            then tab[i := ring ! (d + i), i + 1 := ring ! (d + i + 1),
                     i + 2 := ring ! (d + i + 2)]
            else if m mod 4 = 2
            then tab[i := ring ! (d + i), i + 1 := ring ! (d + i + 1)]
            else if m mod 4 = 1 then tab[i := ring ! (d + i)] else tab))
     else
       (let tab = for_range d sz (\<lambda>j s. s[j - d := ring ! j]) obj_table
        in for_range (sz - d) m (\<lambda>i s. s[i := ring ! (i - (sz - d))]) tab))"

section \<open>Enqueue\<close>

text \<open>The room check: how many objects go in, or the value returned at once.\<close>

definition enqueue_room :: "u32 \<Rightarrow> u32 \<Rightarrow> rte_ring_queue_behavior \<Rightarrow> int + u32" where
  "enqueue_room free_entries n behavior =
    (if n > free_entries then
       (if behavior = RTE_RING_QUEUE_FIXED then Inl (- ENOBUFS)
        else if free_entries = 0 then Inl 0
        else Inr free_entries)
     else Inr n)"

text \<open>The value returned after the copy, which reports a crossed watermark.\<close>

definition enqueue_ret ::
  "u32 \<Rightarrow> u32 \<Rightarrow> u32 \<Rightarrow> u32 \<Rightarrow> rte_ring_queue_behavior \<Rightarrow> int" where
  "enqueue_ret msk free_entries n wm behavior =
    (if (msk + 1) - free_entries + n > wm then
       (if behavior = RTE_RING_QUEUE_FIXED then - EDQUOT
        else sint (n OR RTE_RING_QUOT_EXCEED))
     else (if behavior = RTE_RING_QUEUE_FIXED then 0 else sint n))"

definition rte_ring_sp_do_enqueue ::
  "'a rte_ring \<Rightarrow> 'a list \<Rightarrow> u32 \<Rightarrow> rte_ring_queue_behavior \<Rightarrow> int \<times> 'a rte_ring" where
  "rte_ring_sp_do_enqueue r obj_table n behavior =
    (let msk = prod_mask (prod r);
         head = prod_head (prod r);
         free_entries = msk + cons_tail (cons r) - head
     in case enqueue_room free_entries n behavior of
          Inl ret \<Rightarrow> (ret, r)
        | Inr n \<Rightarrow>
            (let prod_next = head + n;
                 r = set_prod_head prod_next r;
                 r = ENQUEUE_PTRS r head obj_table n;
                 ret = enqueue_ret msk free_entries n (watermark (prod r)) behavior
             in (ret, set_prod_tail prod_next r)))"

text \<open>\<open>rte_atomic32_cmpset(dst, exp, src)\<close>: the new content of \<open>dst\<close> and the success flag.\<close>

definition rte_atomic32_cmpset :: "u32 \<Rightarrow> u32 \<Rightarrow> u32 \<Rightarrow> u32 \<times> bool" where
  "rte_atomic32_cmpset dst exp src = (if dst = exp then (src, True) else (dst, False))"

text \<open>
  The multi-producer variant retries its compare-and-set and then waits for the
  tail to reach its own start.  Both loops may run forever in C, so they are
  partial: \<open>None\<close> is a call that does not return.
\<close>

partial_function (option) mp_move_head ::
  "'a rte_ring \<Rightarrow> u32 \<Rightarrow> rte_ring_queue_behavior
   \<Rightarrow> ((int + u32) \<times> u32 \<times> u32 \<times> 'a rte_ring) option" where
  "mp_move_head r burst behavior =
    (let msk = prod_mask (prod r);
         head = prod_head (prod r);
         free_entries = msk + cons_tail (cons r) - head;
         room = enqueue_room free_entries burst behavior;
         cas = rte_atomic32_cmpset (prod_head (prod r)) head (head + projr room)
     in if isl room then Some (room, head, free_entries, r)
        else if snd cas then Some (room, head, free_entries, set_prod_head (fst cas) r)
        else mp_move_head (set_prod_head (fst cas) r) burst behavior)"

partial_function (option) wait_prod_tail :: "'a rte_ring \<Rightarrow> u32 \<Rightarrow> 'a rte_ring option" where
  "wait_prod_tail r head =
    (if prod_tail (prod r) \<noteq> head then wait_prod_tail r head else Some r)"

definition rte_ring_mp_do_enqueue ::
  "'a rte_ring \<Rightarrow> 'a list \<Rightarrow> u32 \<Rightarrow> rte_ring_queue_behavior \<Rightarrow> (int \<times> 'a rte_ring) option" where
  "rte_ring_mp_do_enqueue r obj_table n behavior = do {
     (room, head, free_entries, r) \<leftarrow> mp_move_head r n behavior;
     (case room of
        Inl ret \<Rightarrow> Some (ret, r)
      | Inr n \<Rightarrow> do {
          let msk = prod_mask (prod r);
          let prod_next = head + n;
          let r = ENQUEUE_PTRS r head obj_table n;
          let ret = enqueue_ret msk free_entries n (watermark (prod r)) behavior;
          r \<leftarrow> wait_prod_tail r head;
          Some (ret, set_prod_tail prod_next r)
        })
   }"

section \<open>Dequeue\<close>

definition dequeue_room :: "u32 \<Rightarrow> u32 \<Rightarrow> rte_ring_queue_behavior \<Rightarrow> int + u32" where
  "dequeue_room entries n behavior =
    (if n > entries then
       (if behavior = RTE_RING_QUEUE_FIXED then Inl (- ENOENT)
        else if entries = 0 then Inl 0
        else Inr entries)
     else Inr n)"

definition rte_ring_sc_do_dequeue ::
  "'a rte_ring \<Rightarrow> 'a list \<Rightarrow> u32 \<Rightarrow> rte_ring_queue_behavior \<Rightarrow> int \<times> 'a list \<times> 'a rte_ring" where
  "rte_ring_sc_do_dequeue r obj_table n behavior =
    (let head = cons_head (cons r);
         entries = prod_tail (prod r) - head
     in case dequeue_room entries n behavior of
          Inl ret \<Rightarrow> (ret, obj_table, r)
        | Inr n \<Rightarrow>
            (let cons_next = head + n;
                 r = set_cons_head cons_next r;
                 obj_table = DEQUEUE_PTRS r head obj_table n
             in (if behavior = RTE_RING_QUEUE_FIXED then 0 else sint n,
                 obj_table, set_cons_tail cons_next r)))"

partial_function (option) mc_move_head ::
  "'a rte_ring \<Rightarrow> u32 \<Rightarrow> rte_ring_queue_behavior
   \<Rightarrow> ((int + u32) \<times> u32 \<times> 'a rte_ring) option" where
  "mc_move_head r burst behavior =
    (let head = cons_head (cons r);
         entries = prod_tail (prod r) - head;
         room = dequeue_room entries burst behavior;
         cas = rte_atomic32_cmpset (cons_head (cons r)) head (head + projr room)
     in if isl room then Some (room, head, r)
        else if snd cas then Some (room, head, set_cons_head (fst cas) r)
        else mc_move_head (set_cons_head (fst cas) r) burst behavior)"

partial_function (option) wait_cons_tail :: "'a rte_ring \<Rightarrow> u32 \<Rightarrow> 'a rte_ring option" where
  "wait_cons_tail r head =
    (if cons_tail (cons r) \<noteq> head then wait_cons_tail r head else Some r)"

definition rte_ring_mc_do_dequeue ::
  "'a rte_ring \<Rightarrow> 'a list \<Rightarrow> u32 \<Rightarrow> rte_ring_queue_behavior
   \<Rightarrow> (int \<times> 'a list \<times> 'a rte_ring) option" where
  "rte_ring_mc_do_dequeue r obj_table n behavior = do {
     (room, head, r) \<leftarrow> mc_move_head r n behavior;
     (case room of
        Inl ret \<Rightarrow> Some (ret, obj_table, r)
      | Inr n \<Rightarrow> do {
          let cons_next = head + n;
          let obj_table = DEQUEUE_PTRS r head obj_table n;
          r \<leftarrow> wait_cons_tail r head;
          Some (if behavior = RTE_RING_QUEUE_FIXED then 0 else sint n,
                obj_table, set_cons_tail cons_next r)
        })
   }"

section \<open>Wrappers\<close>

definition rte_ring_mp_enqueue_bulk ::
  "'a rte_ring \<Rightarrow> 'a list \<Rightarrow> u32 \<Rightarrow> (int \<times> 'a rte_ring) option" where
  "rte_ring_mp_enqueue_bulk r obj_table n =
     rte_ring_mp_do_enqueue r obj_table n RTE_RING_QUEUE_FIXED"

definition rte_ring_sp_enqueue_bulk ::
  "'a rte_ring \<Rightarrow> 'a list \<Rightarrow> u32 \<Rightarrow> int \<times> 'a rte_ring" where
  "rte_ring_sp_enqueue_bulk r obj_table n =
     rte_ring_sp_do_enqueue r obj_table n RTE_RING_QUEUE_FIXED"

definition rte_ring_enqueue_bulk ::
  "'a rte_ring \<Rightarrow> 'a list \<Rightarrow> u32 \<Rightarrow> (int \<times> 'a rte_ring) option" where
  "rte_ring_enqueue_bulk r obj_table n =
    (if sp_enqueue (prod r) then Some (rte_ring_sp_enqueue_bulk r obj_table n)
     else rte_ring_mp_enqueue_bulk r obj_table n)"

definition rte_ring_mp_enqueue :: "'a rte_ring \<Rightarrow> 'a \<Rightarrow> (int \<times> 'a rte_ring) option" where
  "rte_ring_mp_enqueue r obj = rte_ring_mp_enqueue_bulk r [obj] 1"

definition rte_ring_sp_enqueue :: "'a rte_ring \<Rightarrow> 'a \<Rightarrow> int \<times> 'a rte_ring" where
  "rte_ring_sp_enqueue r obj = rte_ring_sp_enqueue_bulk r [obj] 1"

definition rte_ring_enqueue :: "'a rte_ring \<Rightarrow> 'a \<Rightarrow> (int \<times> 'a rte_ring) option" where
  "rte_ring_enqueue r obj =
    (if sp_enqueue (prod r) then Some (rte_ring_sp_enqueue r obj)
     else rte_ring_mp_enqueue r obj)"

definition rte_ring_mc_dequeue_bulk ::
  "'a rte_ring \<Rightarrow> 'a list \<Rightarrow> u32 \<Rightarrow> (int \<times> 'a list \<times> 'a rte_ring) option" where
  "rte_ring_mc_dequeue_bulk r obj_table n =
     rte_ring_mc_do_dequeue r obj_table n RTE_RING_QUEUE_FIXED"

definition rte_ring_sc_dequeue_bulk ::
  "'a rte_ring \<Rightarrow> 'a list \<Rightarrow> u32 \<Rightarrow> int \<times> 'a list \<times> 'a rte_ring" where
  "rte_ring_sc_dequeue_bulk r obj_table n =
     rte_ring_sc_do_dequeue r obj_table n RTE_RING_QUEUE_FIXED"

definition rte_ring_dequeue_bulk ::
  "'a rte_ring \<Rightarrow> 'a list \<Rightarrow> u32 \<Rightarrow> (int \<times> 'a list \<times> 'a rte_ring) option" where
  "rte_ring_dequeue_bulk r obj_table n =
    (if sc_dequeue (cons r) then Some (rte_ring_sc_dequeue_bulk r obj_table n)
     else rte_ring_mc_dequeue_bulk r obj_table n)"

text \<open>The one-object dequeues write the object through \<open>obj_p\<close>, here a one-entry table.\<close>

definition rte_ring_mc_dequeue ::
  "'a rte_ring \<Rightarrow> 'a \<Rightarrow> (int \<times> 'a list \<times> 'a rte_ring) option" where
  "rte_ring_mc_dequeue r obj_p = rte_ring_mc_dequeue_bulk r [obj_p] 1"

definition rte_ring_sc_dequeue :: "'a rte_ring \<Rightarrow> 'a \<Rightarrow> int \<times> 'a list \<times> 'a rte_ring" where
  "rte_ring_sc_dequeue r obj_p = rte_ring_sc_dequeue_bulk r [obj_p] 1"

definition rte_ring_dequeue ::
  "'a rte_ring \<Rightarrow> 'a \<Rightarrow> (int \<times> 'a list \<times> 'a rte_ring) option" where
  "rte_ring_dequeue r obj_p =
    (if sc_dequeue (cons r) then Some (rte_ring_sc_dequeue r obj_p)
     else rte_ring_mc_dequeue r obj_p)"

definition rte_ring_mp_enqueue_burst ::
  "'a rte_ring \<Rightarrow> 'a list \<Rightarrow> u32 \<Rightarrow> (int \<times> 'a rte_ring) option" where
  "rte_ring_mp_enqueue_burst r obj_table n =
     rte_ring_mp_do_enqueue r obj_table n RTE_RING_QUEUE_VARIABLE"

definition rte_ring_sp_enqueue_burst ::
  "'a rte_ring \<Rightarrow> 'a list \<Rightarrow> u32 \<Rightarrow> int \<times> 'a rte_ring" where
  "rte_ring_sp_enqueue_burst r obj_table n =
     rte_ring_sp_do_enqueue r obj_table n RTE_RING_QUEUE_VARIABLE"

definition rte_ring_enqueue_burst ::
  "'a rte_ring \<Rightarrow> 'a list \<Rightarrow> u32 \<Rightarrow> (int \<times> 'a rte_ring) option" where
  "rte_ring_enqueue_burst r obj_table n =
    (if sp_enqueue (prod r) then Some (rte_ring_sp_enqueue_burst r obj_table n)
     else rte_ring_mp_enqueue_burst r obj_table n)"

definition rte_ring_mc_dequeue_burst ::
  "'a rte_ring \<Rightarrow> 'a list \<Rightarrow> u32 \<Rightarrow> (int \<times> 'a list \<times> 'a rte_ring) option" where
  "rte_ring_mc_dequeue_burst r obj_table n =
     rte_ring_mc_do_dequeue r obj_table n RTE_RING_QUEUE_VARIABLE"

definition rte_ring_sc_dequeue_burst ::
  "'a rte_ring \<Rightarrow> 'a list \<Rightarrow> u32 \<Rightarrow> int \<times> 'a list \<times> 'a rte_ring" where
  "rte_ring_sc_dequeue_burst r obj_table n =
     rte_ring_sc_do_dequeue r obj_table n RTE_RING_QUEUE_VARIABLE"

definition rte_ring_dequeue_burst ::
  "'a rte_ring \<Rightarrow> 'a list \<Rightarrow> u32 \<Rightarrow> (int \<times> 'a list \<times> 'a rte_ring) option" where
  "rte_ring_dequeue_burst r obj_table n =
    (if sc_dequeue (cons r) then Some (rte_ring_sc_dequeue_burst r obj_table n)
     else rte_ring_mc_dequeue_burst r obj_table n)"

end
