(* ===== verification/Rte_Ring_Fifo.thy ===== *)
theory Rte_Ring_Fifo
  imports Rte_Ring Bulk_Queue
begin

text \<open>
  The ring of \<open>Rte_Ring\<close> is a bounded FIFO.
\<close>

section \<open>Invariant and abstraction\<close>

definition ring_size :: "'a rte_ring \<Rightarrow> nat" where
  "ring_size r = unat (prod_size (prod r))"

text \<open>The shape \<open>rte_ring_create\<close> gives a ring: a power of two of slots.\<close>

definition ring_wf :: "'a rte_ring \<Rightarrow> bool" where
  "ring_wf r \<longleftrightarrow>
     (\<exists>k \<in> {..27}. ring_size r = 2 ^ k) \<and> cons_size (cons r) = prod_size (prod r) \<and>
     prod_mask (prod r) = prod_size (prod r) - 1 \<and> cons_mask (cons r) = prod_mask (prod r) \<and>
     length (slots r) = ring_size r"

text \<open>No operation is under way, and at most \<open>size - 1\<close> objects are stored.\<close>

definition ring_ok :: "'a rte_ring \<Rightarrow> bool" where
  "ring_ok r \<longleftrightarrow> ring_wf r \<and> prod_head (prod r) = prod_tail (prod r) \<and>
     cons_head (cons r) = cons_tail (cons r) \<and>
     unat (prod_tail (prod r) - cons_tail (cons r)) < ring_size r"

definition ring_slot :: "'a rte_ring \<Rightarrow> u32 \<Rightarrow> nat" where
  "ring_slot r i = unat i mod ring_size r"

definition ring_contents :: "'a rte_ring \<Rightarrow> 'a list" where
  "ring_contents r =
     map (\<lambda>k. slots r ! ring_slot r (cons_tail (cons r) + of_nat k))
       [0..<unat (prod_tail (prod r) - cons_tail (cons r))]"

definition ring_used :: "'a rte_ring \<Rightarrow> nat" where
  "ring_used r = unat (prod_tail (prod r) - cons_tail (cons r))"

lemma length_ring_contents [simp]: "length (ring_contents r) = ring_used r"
  by (simp add: ring_contents_def ring_used_def)

lemma ring_wfE:
  assumes "ring_wf r"
  obtains k where "k \<le> 27" and "ring_size r = 2 ^ k" and "prod_size (prod r) = 2 ^ k"
    and "prod_mask (prod r) = 2 ^ k - 1" and "cons_size (cons r) = 2 ^ k"
    and "length (slots r) = 2 ^ k"
proof -
  from assms obtain k where k: "k \<le> 27" "ring_size r = 2 ^ k"
    by (auto simp: ring_wf_def)
  have "unat (prod_size (prod r)) = unat (2 ^ k :: u32)"
    using k by (simp add: ring_size_def unat_p2_u32)
  then have "prod_size (prod r) = 2 ^ k" by (rule word_unat_eq_iff [THEN iffD2])
  with k assms show ?thesis using that by (auto simp: ring_wf_def)
qed

lemma ring_size_pos: "ring_wf r \<Longrightarrow> 0 < ring_size r"
  by (auto elim: ring_wfE)

lemma ring_size_le: "ring_wf r \<Longrightarrow> ring_size r \<le> 2 ^ 27"
  by (erule ring_wfE) (metis one_le_numeral power_increasing)

text \<open>The mask selects a slot.\<close>

lemma unat_and_prod_mask:
  assumes "ring_wf r" shows "unat (x AND prod_mask (prod r)) = ring_slot r x"
  using assms by (auto elim!: ring_wfE simp: ring_slot_def unat_and_mask)

text \<open>Walking on from an index walks on over the slots, modulo the ring size.\<close>

lemma ring_slot_add:
  assumes "ring_wf r"
  shows "ring_slot r (x + of_nat j) = (ring_slot r x + j) mod ring_size r"
proof -
  from assms obtain k where k: "k \<le> 27" "ring_size r = 2 ^ k" by (rule ring_wfE)
  have "unat (x + of_nat j) mod 2 ^ k = (unat x + j mod 2 ^ 32) mod 2 ^ 32 mod 2 ^ k"
    by (simp add: unat_add_u32 unat_of_nat)
  also have "\<dots> = (unat x + j mod 2 ^ 32) mod 2 ^ k"
    using k(1) by (intro mod_p2_cancel) simp
  also have "\<dots> = (unat x + j mod 2 ^ 32 mod 2 ^ k) mod 2 ^ k"
    by (simp only: mod_add_right_eq)
  also have "\<dots> = (unat x mod 2 ^ k + j) mod 2 ^ k"
    using k(1) by (simp only: mod_p2_cancel [of k j] mod_add_left_eq mod_add_right_eq)
  finally show ?thesis using k(2) by (simp add: ring_slot_def)
qed

lemma ring_slot_lt: "ring_wf r \<Longrightarrow> ring_slot r x < ring_size r"
  by (simp add: ring_slot_def ring_size_pos)

section \<open>The copy loops\<close>

text \<open>
  \<open>ring_put\<close> is what both shapes of \<open>ENQUEUE_PTRS\<close> come to: object \<open>j\<close> lands
  \<open>j\<close> slots after the start, around the end of the array.
\<close>

definition ring_put :: "nat \<Rightarrow> nat \<Rightarrow> 'a list \<Rightarrow> nat \<Rightarrow> 'a list \<Rightarrow> 'a list" where
  "ring_put sz d objs n s =
     map (\<lambda>p. let j = (p + sz - d) mod sz in if j < n then objs ! j else s ! p) [0..<length s]"

lemma length_ring_put [simp]: "length (ring_put sz d objs n s) = length s"
  by (simp add: ring_put_def)

lemma ring_put_linear:
  assumes "d + n < sz" and "length s = sz"
  shows "for_range 0 n (\<lambda>i s. s[d + i := objs ! i]) s = ring_put sz d objs n s"
proof (rule nth_equalityI)
  fix p assume "p < length (for_range 0 n (\<lambda>i s. s[d + i := objs ! i]) s)"
  then have p: "p < sz" using assms(2) by simp
  have "(p + sz - d) mod sz = (if d \<le> p then p - d else p + sz - d)"
    using p assms(1) by (auto simp: mod_eq_sub_once)
  then show "for_range 0 n (\<lambda>i s. s[d + i := objs ! i]) s ! p = ring_put sz d objs n s ! p"
    using p assms for_range_list_update_nth [of p s 0 n d "\<lambda>i. objs ! i"]
    by (auto simp: ring_put_def Let_def)
qed simp

lemma ring_put_wrapping:
  assumes "sz \<le> d + n" and "d < sz" and "n \<le> sz" and "length s = sz"
  shows "for_range (sz - d) n (\<lambda>i s. s[i - (sz - d) := objs ! i])
           (for_range d sz (\<lambda>j s. s[j := objs ! (j - d)]) s) = ring_put sz d objs n s"
    (is "for_range _ _ ?f ?s' = _")
proof (rule nth_equalityI)
  show len: "length (for_range (sz - d) n ?f ?s') = length (ring_put sz d objs n s)"
    using assms(4) for_range_list_update_length [of "sz - d" n "\<lambda>i. i - (sz - d)" "\<lambda>i. objs ! i" ?s']
    by simp
  fix p assume "p < length (for_range (sz - d) n ?f ?s')"
  then have p: "p < sz" using assms(4) len by simp
  have first: "?s' = for_range d sz (\<lambda>j s. s[d + (j - d) := objs ! (j - d)]) s"
    by (rule for_range_cong) simp
  have second: "for_range (sz - d) n ?f ?s' =
      for_range (sz - d) n (\<lambda>i s. s[0 + (i - (sz - d)) := objs ! i]) ?s'"
    by (rule for_range_cong) simp
  have s': "?s' ! p = (if d \<le> p then objs ! (p - d) else s ! p)"
    unfolding first using p assms for_range_list_update_nth [of p s d sz d "\<lambda>j. objs ! (j - d)"]
    by auto
  have "for_range (sz - d) n ?f ?s' ! p =
      (if p < n - (sz - d) then objs ! (sz - d + p) else ?s' ! p)"
    unfolding second
    using p assms for_range_list_update_nth [of p ?s' "sz - d" n 0 "\<lambda>i. objs ! i"] by auto
  moreover have "(p + sz - d) mod sz = (if d \<le> p then p - d else p + sz - d)"
    using p assms(2) by (auto simp: mod_eq_sub_once)
  ultimately show "for_range (sz - d) n ?f ?s' ! p = ring_put sz d objs n s ! p"
    using p assms s' by (auto simp: ring_put_def Let_def add.commute)
qed


lemma unat_index_add:
  assumes "ring_wf r" and "unat n < ring_size r"
  shows "unat ((head AND prod_mask (prod r)) + n) = ring_slot r head + unat n"
proof -
  have "ring_slot r head + unat n < 2 ^ 28"
    using ring_slot_lt [OF assms(1), of head] assms ring_size_le [OF assms(1)] by simp
  then show ?thesis
    using assms(1) by (simp add: unat_add_u32 unat_and_prod_mask)
qed

lemma ENQUEUE_PTRS_eq:
  assumes wf: "ring_wf r" and n: "unat n < ring_size r"
  shows "ENQUEUE_PTRS r head objs n =
    r\<lparr>slots := ring_put (ring_size r) (ring_slot r head) objs (unat n) (slots r)\<rparr>"
proof -
  let ?d = "ring_slot r head" and ?m = "unat n" and ?sz = "ring_size r"
  let ?f = "\<lambda>i s. s[?d + i := objs ! i]"
  have len: "length (slots r) = ?sz" using wf by (simp add: ring_wf_def)
  have d: "unat (head AND prod_mask (prod r)) = ?d" using wf by (rule unat_and_prod_mask)
  have sz: "unat (prod_size (prod r)) = ?sz" by (simp add: ring_size_def)
  have cond: "(head AND prod_mask (prod r)) + n < prod_size (prod r) \<longleftrightarrow> ?d + ?m < ?sz"
    using unat_index_add [OF wf n, of head] by (simp add: word_less_nat_alt ring_size_def)
  have dsz: "?d < ?sz" using wf by (rule ring_slot_lt)
  show ?thesis
  proof (cases "?d + ?m < ?sz")
    case True
    then have "ENQUEUE_PTRS r head objs n = r\<lparr>slots := for_range 0 ?m ?f (slots r)\<rparr>"
      using cond for_range_unrolled [where f = ?f and n = ?m and s = "slots r", OF refl refl]
      by (simp add: ENQUEUE_PTRS_def Let_def d ac_simps cong: if_cong)
    then show ?thesis using ring_put_linear [OF True len, of objs] by simp
  next
    case False
    then show ?thesis
      using cond ring_put_wrapping [of ?sz ?d ?m "slots r" objs] dsz n len
      by (simp add: ENQUEUE_PTRS_def Let_def d sz)
  qed
qed

definition ring_get :: "'a rte_ring \<Rightarrow> u32 \<Rightarrow> nat \<Rightarrow> 'a list" where
  "ring_get r head n = map (\<lambda>j. slots r ! ((ring_slot r head + j) mod ring_size r)) [0..<n]"

lemma length_ring_get [simp]: "length (ring_get r head n) = n"
  by (simp add: ring_get_def)

lemma dequeue_linear:
  assumes "n \<le> length tab"
  shows "for_range 0 n (\<lambda>i s. s[i := v i]) tab = map v [0..<n] @ drop n tab"
proof (rule nth_equalityI)
  fix p assume "p < length (for_range 0 n (\<lambda>i s. s[i := v i]) tab)"
  then have p: "p < length tab" by simp
  then show "for_range 0 n (\<lambda>i s. s[i := v i]) tab ! p = (map v [0..<n] @ drop n tab) ! p"
    using assms for_range_list_update_nth [OF p, of 0 n 0 v] by (auto simp: nth_append)
qed (use assms in auto)

lemma DEQUEUE_PTRS_eq:
  assumes wf: "ring_wf r" and n: "unat n < ring_size r" and tab: "unat n \<le> length tab"
  shows "DEQUEUE_PTRS r head tab n = ring_get r head (unat n) @ drop (unat n) tab"
proof -
  let ?d = "ring_slot r head" and ?m = "unat n" and ?sz = "ring_size r"
  let ?v = "\<lambda>j. slots r ! ((?d + j) mod ?sz)"
  have d: "unat (head AND prod_mask (prod r)) = ?d" using wf by (rule unat_and_prod_mask)
  have sz: "cons_size (cons r) = prod_size (prod r)" "unat (prod_size (prod r)) = ?sz"
    using wf by (simp_all add: ring_wf_def ring_size_def)
  have cond: "(head AND prod_mask (prod r)) + n < prod_size (prod r) \<longleftrightarrow> ?d + ?m < ?sz"
    using unat_index_add [OF wf n, of head] by (simp add: word_less_nat_alt ring_size_def)
  have dsz: "?d < ?sz" using wf by (rule ring_slot_lt)
  have copy: "for_range 0 ?m (\<lambda>i s. s[i := ?v i]) tab = ring_get r head ?m @ drop ?m tab"
    unfolding ring_get_def by (rule dequeue_linear [OF tab])
  show ?thesis
  proof (cases "?d + ?m < ?sz")
    case True
    let ?f = "\<lambda>i s. s[i := slots r ! (?d + i)]"
    have "DEQUEUE_PTRS r head tab n = for_range 0 ?m ?f tab"
      using True cond for_range_unrolled [where f = ?f and n = ?m and s = tab, OF refl refl]
      by (simp add: DEQUEUE_PTRS_def Let_def d sz(1) ac_simps cong: if_cong)
    also have "\<dots> = for_range 0 ?m (\<lambda>i s. s[i := ?v i]) tab"
      using True by (intro for_range_cong) simp
    finally show ?thesis using copy by simp
  next
    case False
    have first: "for_range ?d ?sz (\<lambda>j s. s[j - ?d := slots r ! j]) tab =
        for_range 0 (?sz - ?d) (\<lambda>i s. s[i := ?v i]) tab"
      using dsz for_range_shift [of ?d 0 "?sz - ?d" "\<lambda>j s. s[j - ?d := slots r ! j]" tab]
      by (auto intro: for_range_cong)
    have second: "for_range (?sz - ?d) ?m (\<lambda>i s. s[i := slots r ! (i - (?sz - ?d))]) s =
        for_range (?sz - ?d) ?m (\<lambda>i s. s[i := ?v i]) s" for s
    proof (rule for_range_cong)
      fix i and s :: "'a list" assume "?sz - ?d \<le> i" "i < ?m"
      then have "(?d + i) mod ?sz = i - (?sz - ?d)"
        using dsz n by (subst mod_eq_sub_once) auto
      then show "s[i := slots r ! (i - (?sz - ?d))] = s[i := ?v i]" by simp
    qed
    have "DEQUEUE_PTRS r head tab n =
        for_range (?sz - ?d) ?m (\<lambda>i s. s[i := ?v i])
          (for_range 0 (?sz - ?d) (\<lambda>i s. s[i := ?v i]) tab)"
      using False cond first second by (simp add: DEQUEUE_PTRS_def Let_def d sz)
    also have "\<dots> = for_range 0 ?m (\<lambda>i s. s[i := ?v i]) tab"
      using False by (intro for_range_split) auto
    finally show ?thesis using copy by simp
  qed
qed

section \<open>A quiet ring in natural numbers\<close>

lemma slot_distance:
  assumes "c < sz" "k < sz" "u < (sz::nat)"
  shows "((c + k) mod sz + sz - (c + u) mod sz) mod sz = (if u \<le> k then k - u else sz + k - u)"
  using assms by (auto simp: mod_eq_sub_once [of "c + k"] mod_eq_sub_once [of "c + u"] mod_eq_sub_once)

text \<open>A quiet ring in natural numbers: what is stored and what is free.\<close>

lemma ring_ok_used: "ring_ok r \<Longrightarrow> ring_used r < ring_size r"
  by (simp add: ring_ok_def ring_used_def)

lemma ring_prod_tail: "prod_tail (prod r) = cons_tail (cons r) + of_nat (ring_used r)"
  by (simp add: ring_used_def)

lemma unat_ring_entries:
  "ring_ok r \<Longrightarrow> unat (prod_tail (prod r) - cons_head (cons r)) = ring_used r"
  by (simp add: ring_ok_def ring_used_def)

lemma unat_prod_mask: "ring_wf r \<Longrightarrow> unat (prod_mask (prod r)) = ring_size r - 1"
proof -
  assume wf: "ring_wf r"
  then have "prod_size (prod r) \<noteq> 0" using ring_size_pos [OF wf] by (auto simp: ring_size_def)
  then show ?thesis using wf by (simp add: ring_wf_def ring_size_def unat_minus_one)
qed

lemma unat_free_entries:
  assumes "ring_ok r"
  shows "unat (prod_mask (prod r) + cons_tail (cons r) - prod_head (prod r)) =
    ring_size r - 1 - ring_used r"
proof -
  let ?u = "prod_tail (prod r) - cons_tail (cons r)"
  have wf: "ring_wf r" using assms by (simp add: ring_ok_def)
  have "unat ?u \<le> unat (prod_mask (prod r))"
    using assms unat_prod_mask [OF wf] ring_size_pos [OF wf] by (auto simp: ring_ok_def)
  then have "unat (prod_mask (prod r) - ?u) = unat (prod_mask (prod r)) - unat ?u"
    by (simp add: unat_sub word_le_nat_alt)
  moreover have "prod_mask (prod r) + cons_tail (cons r) - prod_head (prod r) =
      prod_mask (prod r) - ?u"
    using assms by (simp add: ring_ok_def algebra_simps)
  ultimately show ?thesis by (simp only: unat_prod_mask [OF wf] ring_used_def)
qed

lemma ring_contents_eq:
  assumes "ring_wf r"
  shows "ring_contents r =
    map (\<lambda>k. slots r ! ((ring_slot r (cons_tail (cons r)) + k) mod ring_size r)) [0..<ring_used r]"
  by (simp add: ring_contents_def ring_used_def ring_slot_add [OF assms])

text \<open>Storing \<open>m\<close> objects behind the last one and moving both producer indices.\<close>

definition ring_pushed :: "'a list \<Rightarrow> u32 \<Rightarrow> 'a rte_ring \<Rightarrow> 'a rte_ring" where
  "ring_pushed objs m r =
    (let h = prod_head (prod r) + m in
     set_prod_tail h (set_prod_head h r)
       \<lparr>slots := ring_put (ring_size r) (ring_slot r (prod_head (prod r))) objs (unat m) (slots r)\<rparr>)"

lemma ring_pushed_used:
  assumes "ring_ok r" and "ring_used r + unat m < ring_size r"
  shows "ring_used (ring_pushed objs m r) = ring_used r + unat m"
proof -
  have "ring_used r + unat m < 2 ^ 32"
    using assms ring_size_le [of r] by (simp add: ring_ok_def)
  then have "unat ((prod_tail (prod r) - cons_tail (cons r)) + m) = ring_used r + unat m"
    by (simp add: unat_add_u32 ring_used_def)
  then show ?thesis
    using assms(1) by (simp add: ring_used_def ring_pushed_def Let_def ring_ok_def algebra_simps)
qed

lemma ring_pushed_simps [simp]:
  "ring_size (ring_pushed objs m r) = ring_size r"
  "ring_slot (ring_pushed objs m r) = ring_slot r"
  "cons (ring_pushed objs m r) = cons r"
  "ring_wf (ring_pushed objs m r) = ring_wf r"
  by (auto simp: ring_pushed_def Let_def ring_size_def ring_slot_def ring_wf_def)

lemma ring_pushed_ok:
  assumes "ring_ok r" and "ring_used r + unat m < ring_size r"
  shows "ring_ok (ring_pushed objs m r)"
  using assms ring_pushed_used [OF assms, of objs]
  by (auto simp: ring_ok_def ring_used_def) (simp_all add: ring_pushed_def Let_def)

lemma ring_pushed_contents:
  assumes ok: "ring_ok r" and m: "ring_used r + unat m < ring_size r" "unat m \<le> length objs"
  shows "ring_contents (ring_pushed objs m r) = ring_contents r @ take (unat m) objs"
proof (rule nth_equalityI)
  have wf: "ring_wf r" using ok by (simp add: ring_ok_def)
  note used = ring_pushed_used [OF ok m(1), of objs]
  show "length (ring_contents (ring_pushed objs m r)) =
      length (ring_contents r @ take (unat m) objs)"
    using m by (simp add: used)
  let ?c = "ring_slot r (cons_tail (cons r))" and ?sz = "ring_size r" and ?u = "ring_used r"
  have pos: "(?c + k) mod ?sz < ?sz" for k using ring_size_pos [OF wf] by simp
  have h: "ring_slot r (prod_head (prod r)) = (?c + ?u) mod ?sz"
    using ok ring_slot_add [OF wf, of "cons_tail (cons r)" ?u]
    by (simp add: ring_ok_def ring_prod_tail)
  fix k assume "k < length (ring_contents (ring_pushed objs m r))"
  then have k: "k < ?u + unat m" by (simp add: used)
  have "ring_contents (ring_pushed objs m r) ! k =
      ring_put ?sz (ring_slot r (prod_head (prod r))) objs (unat m) (slots r) ! ((?c + k) mod ?sz)"
    using k wf by (simp add: ring_contents_eq used) (simp add: ring_pushed_def Let_def)
  also have "\<dots> = (let j = ((?c + k) mod ?sz + ?sz - (?c + ?u) mod ?sz) mod ?sz
      in if j < unat m then objs ! j else slots r ! ((?c + k) mod ?sz))"
    using wf pos ring_size_pos [OF wf] by (simp add: ring_put_def h ring_wf_def Let_def)
  also have "\<dots> = (if ?u \<le> k then objs ! (k - ?u) else slots r ! ((?c + k) mod ?sz))"
    using k m slot_distance [of ?c ?sz k ?u] ring_slot_lt [OF wf] by (auto simp: Let_def)
  also have "\<dots> = (ring_contents r @ take (unat m) objs) ! k"
    using k wf by (auto simp: nth_append ring_contents_eq)
  finally show "ring_contents (ring_pushed objs m r) ! k =
      (ring_contents r @ take (unat m) objs) ! k" .
qed

text \<open>Taking \<open>m\<close> objects: both consumer indices move on.\<close>

definition ring_popped :: "u32 \<Rightarrow> 'a rte_ring \<Rightarrow> 'a rte_ring" where
  "ring_popped m r = (let h = cons_head (cons r) + m in set_cons_tail h (set_cons_head h r))"

lemma ring_popped_simps [simp]:
  "ring_size (ring_popped m r) = ring_size r"
  "ring_slot (ring_popped m r) = ring_slot r"
  "prod (ring_popped m r) = prod r"
  "slots (ring_popped m r) = slots r"
  "ring_wf (ring_popped m r) = ring_wf r"
  by (auto simp: ring_popped_def Let_def ring_size_def ring_slot_def ring_wf_def)

lemma ring_popped_used:
  assumes "ring_ok r" and "unat m \<le> ring_used r"
  shows "ring_used (ring_popped m r) = ring_used r - unat m"
proof -
  let ?u = "prod_tail (prod r) - cons_tail (cons r)"
  have "unat (?u - m) = unat ?u - unat m"
    using assms(2) by (simp add: unat_sub word_le_nat_alt ring_used_def)
  moreover have "ring_used (ring_popped m r) = unat (prod_tail (prod r) - (cons_tail (cons r) + m))"
    using assms(1) by (simp add: ring_used_def) (simp add: ring_popped_def Let_def ring_ok_def)
  ultimately show ?thesis by (simp only: ring_used_def diff_diff_eq)
qed

lemma ring_popped_ok:
  assumes "ring_ok r" and "unat m \<le> ring_used r"
  shows "ring_ok (ring_popped m r)"
proof -
  have "ring_used (ring_popped m r) < ring_size r"
    using ring_popped_used [OF assms] ring_ok_used [OF assms(1)] by simp
  then show ?thesis
    using assms(1) by (auto simp: ring_ok_def ring_used_def) (simp_all add: ring_popped_def Let_def)
qed

lemma ring_popped_contents:
  assumes ok: "ring_ok r" and m: "unat m \<le> ring_used r"
  shows "ring_contents (ring_popped m r) = drop (unat m) (ring_contents r)"
proof (rule nth_equalityI)
  have wf: "ring_wf r" using ok by (simp add: ring_ok_def)
  note used = ring_popped_used [OF ok m]
  show "length (ring_contents (ring_popped m r)) = length (drop (unat m) (ring_contents r))"
    by (simp add: used)
  let ?c = "ring_slot r (cons_tail (cons r))" and ?sz = "ring_size r"
  have c: "ring_slot r (cons_tail (cons (ring_popped m r))) = (?c + unat m) mod ?sz"
    using ok ring_slot_add [OF wf, of "cons_tail (cons r)" "unat m"]
    by (simp add: ring_popped_def Let_def ring_ok_def)
  fix k assume "k < length (ring_contents (ring_popped m r))"
  then have k: "k < ring_used r - unat m" "unat m + k < ring_used r" by (simp_all add: used)
  have "((?c + unat m) mod ?sz + k) mod ?sz = (?c + (unat m + k)) mod ?sz"
    by (simp add: mod_add_left_eq add.assoc)
  then show "ring_contents (ring_popped m r) ! k = drop (unat m) (ring_contents r) ! k"
    using k wf by (simp add: ring_contents_eq used c)
qed

lemma ring_get_contents:
  assumes ok: "ring_ok r" and "m \<le> ring_used r"
  shows "ring_get r (cons_head (cons r)) m = take m (ring_contents r)"
proof (rule nth_equalityI)
  fix k assume "k < length (ring_get r (cons_head (cons r)) m)"
  then show "ring_get r (cons_head (cons r)) m ! k = take m (ring_contents r) ! k"
    using assms by (simp add: ring_get_def ring_contents_eq ring_ok_def)
qed (use assms in simp)

section \<open>The bounded FIFO the ring implements\<close>

text \<open>
  \<open>cap\<close> objects fit.  The code reports a crossed watermark as soon as the
  stored objects reach \<open>wm\<close>, one earlier than \<open>exceed\<close> suggests.
\<close>

definition fifo_enqueue ::
  "nat \<Rightarrow> nat \<Rightarrow> 'a list \<Rightarrow> 'a list \<Rightarrow> rte_ring_queue_behavior \<Rightarrow> int \<times> 'a list" where
  "fifo_enqueue cap wm q xs behavior =
    (let room = cap - length q; m = min (length xs) room in
     if length xs > room \<and> behavior = RTE_RING_QUEUE_FIXED then (- ENOBUFS, q)
     else if length xs > room \<and> room = 0 then (0, q)
     else (if length q + m \<ge> wm
           then (if behavior = RTE_RING_QUEUE_FIXED then - EDQUOT else int m - 2 ^ 31)
           else (if behavior = RTE_RING_QUEUE_FIXED then 0 else int m),
           q @ take m xs))"

definition fifo_dequeue ::
  "'a list \<Rightarrow> nat \<Rightarrow> rte_ring_queue_behavior \<Rightarrow> int \<times> 'a list \<times> 'a list" where
  "fifo_dequeue q n behavior =
    (if n > length q \<and> behavior = RTE_RING_QUEUE_FIXED then (- ENOENT, [], q)
     else if n > length q \<and> q = [] then (0, [], q)
     else (let m = min n (length q) in
           (if behavior = RTE_RING_QUEUE_FIXED then 0 else int m, take m q, drop m q)))"

text \<open>The enqueue that is not refused.\<close>

definition ring_cap :: "'a rte_ring \<Rightarrow> nat" where
  "ring_cap r = ring_size r - 1"

definition ring_wm :: "'a rte_ring \<Rightarrow> nat" where
  "ring_wm r = unat (watermark (prod r))"

lemma enqueue_ret_eq:
  assumes ok: "ring_ok r" and m: "ring_used r + unat m < ring_size r"
  shows "enqueue_ret (prod_mask (prod r))
      (prod_mask (prod r) + cons_tail (cons r) - prod_head (prod r)) m (watermark (prod r)) behavior =
    (if ring_used r + unat m \<ge> ring_wm r
     then (if behavior = RTE_RING_QUEUE_FIXED then - EDQUOT else int (unat m) - 2 ^ 31)
     else (if behavior = RTE_RING_QUEUE_FIXED then 0 else int (unat m)))"
proof -
  have wf: "ring_wf r" using ok by (simp add: ring_ok_def)
  let ?u = "prod_tail (prod r) - cons_tail (cons r)"
  have sz: "ring_size r \<le> 2 ^ 27" using wf by (rule ring_size_le)
  have "prod_mask (prod r) + 1 - (prod_mask (prod r) + cons_tail (cons r) - prod_head (prod r)) + m
      = ?u + 1 + m"
    using ok by (simp add: ring_ok_def algebra_simps)
  moreover have "unat (?u + 1 + m) = ring_used r + 1 + unat m"
    using m sz by (simp add: unat_add_u32 ring_used_def)
  ultimately have x: "unat (prod_mask (prod r) + 1 -
      (prod_mask (prod r) + cons_tail (cons r) - prod_head (prod r)) + m) =
      ring_used r + 1 + unat m" by (simp only:)
  have lt: "unat m < 2 ^ 31" using m sz by simp
  have quot: "sint (m OR RTE_RING_QUOT_EXCEED) = int (unat m) - 2 ^ 31"
    unfolding RTE_RING_QUOT_EXCEED_def by (rule sint_or_quota [OF lt])
  have "ring_used r + 1 + unat m > ring_wm r \<longleftrightarrow> ring_wm r \<le> ring_used r + unat m" by auto
  then show ?thesis
    by (simp only: enqueue_ret_def word_less_nat_alt x quot sint_small [OF lt] ring_wm_def)
qed

lemma sp_do_enqueue_eq:
  assumes ok: "ring_ok r" and n: "unat n \<le> length objs"
  shows "rte_ring_sp_do_enqueue r objs n behavior =
    (let room = ring_cap r - ring_used r in
     if unat n > room \<and> behavior = RTE_RING_QUEUE_FIXED then (- ENOBUFS, r)
     else if unat n > room \<and> room = 0 then (0, r)
     else (let m = of_nat (min (unat n) room) in
       (enqueue_ret (prod_mask (prod r))
          (prod_mask (prod r) + cons_tail (cons r) - prod_head (prod r)) m
          (watermark (prod r)) behavior,
        ring_pushed objs m r)))"
proof -
  have wf: "ring_wf r" using ok by (simp add: ring_ok_def)
  let ?free = "prod_mask (prod r) + cons_tail (cons r) - prod_head (prod r)"
  let ?room = "ring_cap r - ring_used r"
  have room: "unat ?free = ?room" using unat_free_entries [OF ok] by (simp add: ring_cap_def)
  have gt: "n > ?free \<longleftrightarrow> unat n > ?room" by (simp add: word_less_nat_alt room)
  have zero: "?free = 0 \<longleftrightarrow> ?room = 0" by (metis room unat_eq_0)
  have push: "set_prod_tail (prod_head (prod r) + m)
       (ENQUEUE_PTRS (set_prod_head (prod_head (prod r) + m) r) (prod_head (prod r)) objs m) =
      ring_pushed objs m r" if "unat m < ring_size r" for m
  proof -
    have "ring_wf (set_prod_head (prod_head (prod r) + m) r)"
      "ring_size (set_prod_head (prod_head (prod r) + m) r) = ring_size r"
      "ring_slot (set_prod_head (prod_head (prod r) + m) r) = ring_slot r"
      using wf by (auto simp: ring_wf_def ring_size_def ring_slot_def)
    then show ?thesis using that
      by (simp add: ENQUEUE_PTRS_eq) (simp add: ring_pushed_def Let_def)
  qed
  have wm: "watermark (prod (ENQUEUE_PTRS (set_prod_head h r) h' objs m)) = watermark (prod r)" for h h' m
    by (simp add: ENQUEUE_PTRS_def Let_def)
  have lt: "?room < ring_size r" using ring_size_pos [OF wf] by (simp add: ring_cap_def)
  show ?thesis
  proof (cases "n > ?free")
    case False
    then have n': "\<not> unat n > ?room" using gt by simp
    then have "rte_ring_sp_do_enqueue r objs n behavior =
        (enqueue_ret (prod_mask (prod r)) ?free n (watermark (prod r)) behavior, ring_pushed objs n r)"
      using False lt push [of n]
      by (simp add: rte_ring_sp_do_enqueue_def enqueue_room_def Let_def wm)
    then show ?thesis using n' by (simp add: Let_def)
  next
    case True
    then have n': "unat n > ?room" using gt by simp
    have free: "word_of_nat (min (unat n) ?room) = ?free"
    proof -
      have "word_of_nat (unat ?free) = ?free" by simp
      then show ?thesis using n' room by (simp add: min_def)
    qed
    have "rte_ring_sp_do_enqueue r objs n behavior =
      (if behavior = RTE_RING_QUEUE_FIXED then (- ENOBUFS, r) else if ?room = 0 then (0, r)
       else (enqueue_ret (prod_mask (prod r)) ?free ?free (watermark (prod r)) behavior,
             ring_pushed objs ?free r))"
      using True lt push [of ?free] zero room
      by (simp add: rte_ring_sp_do_enqueue_def enqueue_room_def Let_def wm)
    then show ?thesis using n' by (simp only: Let_def free simp_thms if_True)
  qed
qed

text \<open>What the later lemmas need to know of a ring: its capacity and its watermark.\<close>

definition same_limits :: "'a rte_ring \<Rightarrow> 'a rte_ring \<Rightarrow> bool" where
  "same_limits r r' \<longleftrightarrow> ring_cap r' = ring_cap r \<and> ring_wm r' = ring_wm r \<and>
     sp_enqueue (prod r') = sp_enqueue (prod r) \<and> sc_dequeue (cons r') = sc_dequeue (cons r)"

lemma same_limits_refl [simp]: "same_limits r r"
  by (simp add: same_limits_def)

lemma same_limits_pushed [simp]: "same_limits r (ring_pushed objs m r)"
  by (simp add: same_limits_def ring_cap_def ring_wm_def) (simp add: ring_pushed_def Let_def)

lemma same_limits_popped [simp]: "same_limits r (ring_popped m r)"
  by (simp add: same_limits_def ring_cap_def ring_wm_def) (simp add: ring_popped_def Let_def)

lemma sp_do_enqueue_refines_lemma:
  assumes ok: "ring_ok r" and n: "unat n \<le> length objs"
    and step: "rte_ring_sp_do_enqueue r objs n behavior = (ret, r')"
  shows "ring_ok r' \<and> same_limits r r' \<and>
    fifo_enqueue (ring_cap r) (ring_wm r) (ring_contents r) (take (unat n) objs) behavior =
      (ret, ring_contents r')"
proof -
  have wf: "ring_wf r" using ok by (simp add: ring_ok_def)
  let ?room = "ring_cap r - ring_used r" and ?m = "min (unat n) (ring_cap r - ring_used r)"
  have cap: "ring_used r + ?room < ring_size r" "?room < 2 ^ 32"
    using ring_ok_used [OF ok] ring_size_le [OF wf] by (auto simp: ring_cap_def)
  obtain w :: u32 where w: "word_of_nat ?m = w" by simp
  have m: "unat w = ?m"
    using cap(2) by (simp add: w [symmetric] unat_of_nat take_bit_eq_mod min_def)
  have fits: "ring_used r + unat w < ring_size r" "unat w \<le> length objs"
    using cap n by (auto simp: m)
  have len: "length (take (unat n) objs) = unat n" using n by simp
  have take: "take ?m (take (unat n) objs) = take ?m objs" by (simp add: min_def)
  have code: "rte_ring_sp_do_enqueue r objs n behavior =
     (if unat n > ?room \<and> behavior = RTE_RING_QUEUE_FIXED then (- ENOBUFS, r)
      else if unat n > ?room \<and> ?room = 0 then (0, r)
      else (if ring_used r + ?m \<ge> ring_wm r
            then (if behavior = RTE_RING_QUEUE_FIXED then - EDQUOT else int ?m - 2 ^ 31)
            else (if behavior = RTE_RING_QUEUE_FIXED then 0 else int ?m), ring_pushed objs w r))"
    using m by (simp only: sp_do_enqueue_eq [OF ok n] Let_def w enqueue_ret_eq [OF ok fits(1)])
  have spec: "fifo_enqueue (ring_cap r) (ring_wm r) (ring_contents r) (take (unat n) objs) behavior =
     (if unat n > ?room \<and> behavior = RTE_RING_QUEUE_FIXED then (- ENOBUFS, ring_contents r)
      else if unat n > ?room \<and> ?room = 0 then (0, ring_contents r)
      else (if ring_used r + ?m \<ge> ring_wm r
            then (if behavior = RTE_RING_QUEUE_FIXED then - EDQUOT else int ?m - 2 ^ 31)
            else (if behavior = RTE_RING_QUEUE_FIXED then 0 else int ?m),
            ring_contents r @ take ?m objs))"
    by (simp only: fifo_enqueue_def Let_def len length_ring_contents take)
  show ?thesis
    using step ok ring_pushed_ok [OF ok fits(1), of objs] ring_pushed_contents [OF ok fits] m
    by (simp only: code spec split: if_splits) auto
qed

lemma sc_do_dequeue_eq:
  assumes ok: "ring_ok r" and n: "unat n \<le> length tab"
  shows "rte_ring_sc_do_dequeue r tab n behavior =
    (let used = ring_used r in
     if unat n > used \<and> behavior = RTE_RING_QUEUE_FIXED then (- ENOENT, tab, r)
     else if unat n > used \<and> used = 0 then (0, tab, r)
     else (let m = min (unat n) used in
       (if behavior = RTE_RING_QUEUE_FIXED then 0 else int m,
        take m (ring_contents r) @ drop m tab, ring_popped (of_nat m) r)))"
proof -
  have wf: "ring_wf r" using ok by (simp add: ring_ok_def)
  let ?e = "prod_tail (prod r) - cons_head (cons r)" and ?u = "ring_used r"
  have e: "unat ?e = ?u" using ok by (rule unat_ring_entries)
  have gt: "n > ?e \<longleftrightarrow> unat n > ?u" by (simp add: word_less_nat_alt e)
  have zero: "?e = 0 \<longleftrightarrow> ?u = 0" by (metis e unat_eq_0)
  have take: "(if behavior = RTE_RING_QUEUE_FIXED then 0 else sint m,
        DEQUEUE_PTRS (set_cons_head (cons_head (cons r) + m) r) (cons_head (cons r)) tab m,
        set_cons_tail (cons_head (cons r) + m) (set_cons_head (cons_head (cons r) + m) r)) =
      (if behavior = RTE_RING_QUEUE_FIXED then 0 else int (unat m),
        take (unat m) (ring_contents r) @ drop (unat m) tab, ring_popped m r)"
    if m: "unat m \<le> ?u" "unat m \<le> length tab" for m
  proof -
    let ?r = "set_cons_head (cons_head (cons r) + m) r"
    have "ring_wf ?r" "ring_size ?r = ring_size r" "ring_get ?r = ring_get r"
      using wf by (auto simp: ring_wf_def ring_size_def ring_get_def ring_slot_def fun_eq_iff)
    moreover have "unat m < ring_size r" using m ring_ok_used [OF ok] by simp
    moreover have "unat m < 2 ^ 31"
      using m(1) ring_ok_used [OF ok] ring_size_le [OF wf] by simp
    ultimately show ?thesis
      using m ring_get_contents [OF ok m(1)] sint_small [of m]
      by (simp add: DEQUEUE_PTRS_eq ring_popped_def Let_def)
  qed
  show ?thesis
  proof (cases "n > ?e")
    case False
    then have n': "\<not> unat n > ?u" using gt by simp
    then show ?thesis
      using False take [of n] n
      by (simp add: rte_ring_sc_do_dequeue_def dequeue_room_def Let_def)
  next
    case True
    then have n': "unat n > ?u" using gt by simp
    have "word_of_nat ?u = ?e" by (simp add: e [symmetric])
    moreover have "uint ?e = int ?u" by (simp flip: e)
    ultimately show ?thesis using True n' zero e take [of ?e] n
      by (cases behavior) (simp_all add: rte_ring_sc_do_dequeue_def dequeue_room_def Let_def)
  qed
qed
lemma sc_do_dequeue_refines_lemma:
  assumes ok: "ring_ok r" and n: "unat n \<le> length tab"
    and step: "rte_ring_sc_do_dequeue r tab n behavior = (ret, tab', r')"
  shows "ring_ok r' \<and> same_limits r r' \<and>
    (\<exists>out. fifo_dequeue (ring_contents r) (unat n) behavior = (ret, out, ring_contents r') \<and>
       tab' = out @ drop (length out) tab)"
proof -
  have wf: "ring_wf r" using ok by (simp add: ring_ok_def)
  let ?m = "min (unat n) (ring_used r)"
  obtain w :: u32 where w: "word_of_nat ?m = w" by simp
  have m: "unat w = ?m"
    using ring_ok_used [OF ok] ring_size_le [OF wf]
    by (simp add: w [symmetric] unat_of_nat take_bit_eq_mod min_def)
  have fits: "unat w \<le> ring_used r" by (simp add: m)
  have len: "ring_contents r = [] \<longleftrightarrow> ring_used r = 0"
    by (metis length_0_conv length_ring_contents)
  have out: "length (take ?m (ring_contents r)) = ?m" by (simp add: min_def)
  show ?thesis
    using step ok ring_popped_ok [OF ok fits] ring_popped_contents [OF ok fits] m out
    by (simp only: sc_do_dequeue_eq [OF ok n] fifo_dequeue_def Let_def w length_ring_contents len
        split: if_splits) auto
qed

section \<open>The multi-producer and multi-consumer paths, run alone\<close>

lemma mp_move_head_eq: "mp_move_head r n behavior =
  (let head = prod_head (prod r);
       free_entries = prod_mask (prod r) + cons_tail (cons r) - head;
       room = enqueue_room free_entries n behavior
   in Some (room, head, free_entries,
            if isl room then r else set_prod_head (head + projr room) r))"
  by (subst mp_move_head.simps) (simp add: rte_atomic32_cmpset_def Let_def)

lemma mc_move_head_eq: "mc_move_head r n behavior =
  (let head = cons_head (cons r);
       room = dequeue_room (prod_tail (prod r) - head) n behavior
   in Some (room, head, if isl room then r else set_cons_head (head + projr room) r))"
  by (subst mc_move_head.simps) (simp add: rte_atomic32_cmpset_def Let_def)

lemma wait_prod_tail_Some: "wait_prod_tail r h = Some r' \<Longrightarrow> prod_tail (prod r) = h"
  by (rule wait_prod_tail.raw_induct [where P = "\<lambda>r h r'. prod_tail (prod r) = h"])
    (auto split: if_splits)

lemma wait_prod_tail_eq:
  "wait_prod_tail r h = (if prod_tail (prod r) = h then Some r else None)"
proof (cases "prod_tail (prod r) = h")
  case True
  then show ?thesis by (subst wait_prod_tail.simps) simp
next
  case False
  then show ?thesis using wait_prod_tail_Some [of r h] by (cases "wait_prod_tail r h") auto
qed

lemma wait_cons_tail_Some: "wait_cons_tail r h = Some r' \<Longrightarrow> cons_tail (cons r) = h"
  by (rule wait_cons_tail.raw_induct [where P = "\<lambda>r h r'. cons_tail (cons r) = h"])
    (auto split: if_splits)

lemma wait_cons_tail_eq:
  "wait_cons_tail r h = (if cons_tail (cons r) = h then Some r else None)"
proof (cases "cons_tail (cons r) = h")
  case True
  then show ?thesis by (subst wait_cons_tail.simps) simp
next
  case False
  then show ?thesis using wait_cons_tail_Some [of r h] by (cases "wait_cons_tail r h") auto
qed

lemma prod_tail_ENQUEUE_PTRS [simp]:
  "prod (ENQUEUE_PTRS r h objs n) = prod r" "cons (ENQUEUE_PTRS r h objs n) = cons r"
  by (simp_all add: ENQUEUE_PTRS_def Let_def)

lemma DEQUEUE_PTRS_cons_head [simp]:
  "DEQUEUE_PTRS (set_cons_head c r) h tab n = DEQUEUE_PTRS r h tab n"
  by (simp add: DEQUEUE_PTRS_def)

text \<open>When no other producer is under way, the atomic path does what the plain path does.\<close>

lemma mp_do_enqueue_quiet:
  "prod_tail (prod r) = prod_head (prod r) \<Longrightarrow>
   rte_ring_mp_do_enqueue r objs n behavior = Some (rte_ring_sp_do_enqueue r objs n behavior)"
  by (auto simp: rte_ring_mp_do_enqueue_def rte_ring_sp_do_enqueue_def mp_move_head_eq
      wait_prod_tail_eq Let_def split: sum.splits)

lemma mc_do_dequeue_quiet:
  "cons_tail (cons r) = cons_head (cons r) \<Longrightarrow>
   rte_ring_mc_do_dequeue r tab n behavior = Some (rte_ring_sc_do_dequeue r tab n behavior)"
  by (auto simp: rte_ring_mc_do_dequeue_def rte_ring_sc_do_dequeue_def mc_move_head_eq
      wait_cons_tail_eq Let_def split: sum.splits)

text \<open>
  While another producer has claimed slots and not published them, a call that
  gets room itself waits for that producer: alone, it never returns.
\<close>

lemma mp_do_enqueue_blocks:
  "prod_tail (prod r) \<noteq> prod_head (prod r) \<Longrightarrow>
   \<not> isl (enqueue_room (prod_mask (prod r) + cons_tail (cons r) - prod_head (prod r)) n behavior) \<Longrightarrow>
   rte_ring_mp_do_enqueue r objs n behavior = None"
  by (auto simp: rte_ring_mp_do_enqueue_def mp_move_head_eq wait_prod_tail_eq Let_def
      split: sum.splits)

section \<open>The operations of the interface\<close>

text \<open>One call of the generic bulk or burst functions, on a list of objects or a count.\<close>

definition ring_enqueue_op ::
  "rte_ring_queue_behavior \<Rightarrow> 'a list \<Rightarrow> 'a rte_ring \<Rightarrow> (int \<times> 'a rte_ring) option" where
  "ring_enqueue_op behavior xs r =
    (if behavior = RTE_RING_QUEUE_FIXED then rte_ring_enqueue_bulk r xs (of_nat (length xs))
     else rte_ring_enqueue_burst r xs (of_nat (length xs)))"

definition ring_dequeue_op ::
  "rte_ring_queue_behavior \<Rightarrow> 'a list \<Rightarrow> 'a rte_ring \<Rightarrow> (int \<times> 'a list \<times> 'a rte_ring) option" where
  "ring_dequeue_op behavior tab r =
    (if behavior = RTE_RING_QUEUE_FIXED then rte_ring_dequeue_bulk r tab (of_nat (length tab))
     else rte_ring_dequeue_burst r tab (of_nat (length tab)))"

lemmas enqueue_wrappers =
  rte_ring_enqueue_bulk_def rte_ring_sp_enqueue_bulk_def rte_ring_mp_enqueue_bulk_def
  rte_ring_enqueue_burst_def rte_ring_sp_enqueue_burst_def rte_ring_mp_enqueue_burst_def

lemmas dequeue_wrappers =
  rte_ring_dequeue_bulk_def rte_ring_sc_dequeue_bulk_def rte_ring_mc_dequeue_bulk_def
  rte_ring_dequeue_burst_def rte_ring_sc_dequeue_burst_def rte_ring_mc_dequeue_burst_def

lemma ring_ok_heads:
  "ring_ok r \<Longrightarrow> prod_tail (prod r) = prod_head (prod r)"
  "ring_ok r \<Longrightarrow> cons_tail (cons r) = cons_head (cons r)"
  by (simp_all add: ring_ok_def)

lemma ring_enqueue_op_eq:
  "ring_ok r \<Longrightarrow> ring_enqueue_op behavior xs r =
     Some (rte_ring_sp_do_enqueue r xs (of_nat (length xs)) behavior)"
  by (cases behavior)
    (simp_all add: ring_enqueue_op_def enqueue_wrappers mp_do_enqueue_quiet ring_ok_heads)

lemma ring_dequeue_op_eq:
  "ring_ok r \<Longrightarrow> ring_dequeue_op behavior tab r =
     Some (rte_ring_sc_do_dequeue r tab (of_nat (length tab)) behavior)"
  by (cases behavior)
    (simp_all add: ring_dequeue_op_def dequeue_wrappers mc_do_dequeue_quiet ring_ok_heads)

lemma unat_of_nat_u32: "n < 2 ^ 32 \<Longrightarrow> unat (of_nat n :: u32) = n"
  by (simp add: unat_of_nat take_bit_eq_mod)

lemma ring_enqueue_op_refines:
  assumes "ring_ok r" and "length xs < 2 ^ 32"
  obtains ret r' where "ring_enqueue_op behavior xs r = Some (ret, r')"
    and "ring_ok r'" and "same_limits r r'"
    and "fifo_enqueue (ring_cap r) (ring_wm r) (ring_contents r) xs behavior = (ret, ring_contents r')"
proof -
  obtain ret r' where step: "rte_ring_sp_do_enqueue r xs (of_nat (length xs)) behavior = (ret, r')"
    by (cases "rte_ring_sp_do_enqueue r xs (of_nat (length xs)) behavior")
  have n: "unat (of_nat (length xs) :: u32) = length xs"
    using assms(2) by (rule unat_of_nat_u32)
  show ?thesis
    using that step sp_do_enqueue_refines_lemma [OF assms(1) _ step]
    by (simp add: ring_enqueue_op_eq [OF assms(1)] n)
qed

lemma ring_dequeue_op_refines:
  assumes "ring_ok r" and "length tab < 2 ^ 32"
  obtains ret tab' out r' where "ring_dequeue_op behavior tab r = Some (ret, tab', r')"
    and "ring_ok r'" and "same_limits r r'"
    and "fifo_dequeue (ring_contents r) (length tab) behavior = (ret, out, ring_contents r')"
    and "tab' = out @ drop (length out) tab"
proof -
  obtain ret tab' r' where
    step: "rte_ring_sc_do_dequeue r tab (of_nat (length tab)) behavior = (ret, tab', r')"
    by (cases "rte_ring_sc_do_dequeue r tab (of_nat (length tab)) behavior")
  have n: "unat (of_nat (length tab) :: u32) = length tab"
    using assms(2) by (rule unat_of_nat_u32)
  show ?thesis
    using that step sc_do_dequeue_refines_lemma [OF assms(1) _ step]
    by (auto simp: ring_dequeue_op_eq [OF assms(1)] n)
qed

text \<open>A session: any sequence of calls, each with its behavior.\<close>

datatype 'a ring_call =
    Enqueue rte_ring_queue_behavior "'a list"
  | Dequeue rte_ring_queue_behavior "'a list"

fun call_small :: "'a ring_call \<Rightarrow> bool" where
  "call_small (Enqueue b xs) \<longleftrightarrow> length xs < 2 ^ 32"
| "call_small (Dequeue b tab) \<longleftrightarrow> length tab < 2 ^ 32"

fun ring_session :: "'a ring_call list \<Rightarrow> 'a rte_ring \<Rightarrow> ((int \<times> 'a list) list \<times> 'a rte_ring) option" where
  "ring_session [] r = Some ([], r)"
| "ring_session (Enqueue b xs # cs) r = do {
     (ret, r) \<leftarrow> ring_enqueue_op b xs r;
     (outs, r) \<leftarrow> ring_session cs r;
     Some ((ret, xs) # outs, r) }"
| "ring_session (Dequeue b tab # cs) r = do {
     (ret, tab, r) \<leftarrow> ring_dequeue_op b tab r;
     (outs, r) \<leftarrow> ring_session cs r;
     Some ((ret, tab) # outs, r) }"

fun fifo_session :: "nat \<Rightarrow> nat \<Rightarrow> 'a ring_call list \<Rightarrow> 'a list \<Rightarrow> (int \<times> 'a list) list \<times> 'a list" where
  "fifo_session cap wm [] q = ([], q)"
| "fifo_session cap wm (Enqueue b xs # cs) q =
    (let (ret, q) = fifo_enqueue cap wm q xs b; (outs, q) = fifo_session cap wm cs q
     in ((ret, xs) # outs, q))"
| "fifo_session cap wm (Dequeue b tab # cs) q =
    (let (ret, out, q) = fifo_dequeue q (length tab) b; (outs, q) = fifo_session cap wm cs q
     in ((ret, out @ drop (length out) tab) # outs, q))"

lemma ring_session_refines:
  assumes "ring_ok r" and "list_all call_small cs"
  shows "\<exists>outs r'. ring_session cs r = Some (outs, r') \<and> ring_ok r' \<and>
    fifo_session (ring_cap r) (ring_wm r) cs (ring_contents r) = (outs, ring_contents r')"
  using assms
proof (induction cs arbitrary: r)
  case Nil
  then show ?case by simp
next
  case (Cons c cs)
  show ?case
  proof (cases c)
    case (Enqueue b xs)
    obtain ret r' where r': "ring_enqueue_op b xs r = Some (ret, r')" "ring_ok r'" "same_limits r r'"
      "fifo_enqueue (ring_cap r) (ring_wm r) (ring_contents r) xs b = (ret, ring_contents r')"
      by (rule ring_enqueue_op_refines [OF Cons.prems(1), of xs b]) (use Cons.prems(2) Enqueue in auto)
    then show ?thesis
      using Cons.IH [OF r'(2)] Cons.prems(2) Enqueue by (auto simp: same_limits_def)
  next
    case (Dequeue b tab)
    obtain ret tab' out r' where r': "ring_dequeue_op b tab r = Some (ret, tab', r')" "ring_ok r'"
      "same_limits r r'" "fifo_dequeue (ring_contents r) (length tab) b = (ret, out, ring_contents r')"
      "tab' = out @ drop (length out) tab"
      by (rule ring_dequeue_op_refines [OF Cons.prems(1), of tab b]) (use Cons.prems(2) Dequeue in auto)
    then show ?thesis
      using Cons.IH [OF r'(2)] Cons.prems(2) Dequeue by (auto simp: same_limits_def)
  qed
qed

section \<open>Creation and lookup\<close>

lemma POWEROF2_iff: "cnt \<noteq> 0 \<Longrightarrow> POWEROF2 cnt \<longleftrightarrow> (\<exists>k. unat cnt = 2 ^ k)"
  unfolding POWEROF2_def by (rule and_pred_word_iff)

lemma ring_init_ok:
  assumes "unat cnt = 2 ^ k" and "k \<le> 27" and "length (slots z) = unat cnt"
  shows "ring_ok (rte_ring_init z name cnt flags)"
    and "ring_contents (rte_ring_init z name cnt flags) = []"
    and "ring_cap (rte_ring_init z name cnt flags) = unat cnt - 1"
    and "ring_wm (rte_ring_init z name cnt flags) = unat cnt"
  using assms
  by (auto simp: ring_ok_def ring_wf_def rte_ring_init_def ring_size_def ring_contents_def
      ring_cap_def ring_wm_def)

lemma memsize_ok_iff: "rte_ring_get_memsize sz cnt \<ge> 0 \<longleftrightarrow> POWEROF2 cnt \<and> cnt \<le> RTE_RING_SZ_MASK"
  by (auto simp: rte_ring_get_memsize_def)

lemma memsize_power:
  assumes "rte_ring_get_memsize sz cnt \<ge> 0" and "cnt \<noteq> 0"
  obtains k where "unat cnt = 2 ^ k" and "k \<le> 27"
proof -
  from assms obtain k where k: "unat cnt = 2 ^ k"
    using POWEROF2_iff memsize_ok_iff by blast
  have "cnt \<le> RTE_RING_SZ_MASK" using assms(1) memsize_ok_iff by blast
  then have "(2::nat) ^ k < 2 ^ 28" using k by (simp add: word_le_nat_alt RTE_RING_SZ_MASK_def)
  then have "k < 28" by (rule power_less_imp_less_exp [rotated]) simp
  then show ?thesis using that k by simp
qed

lemma ring_count_lemmas:
  assumes "ring_ok r"
  shows "unat (rte_ring_count r) = ring_used r"
    and "unat (rte_ring_free_count r) = ring_cap r - ring_used r"
    and "rte_ring_full r \<longleftrightarrow> ring_used r = ring_cap r"
    and "rte_ring_empty r \<longleftrightarrow> ring_used r = 0"
proof -
  have wf: "ring_wf r" using assms by (simp add: ring_ok_def)
  let ?u = "prod_tail (prod r) - cons_tail (cons r)"
  have u: "unat ?u = ring_used r" by (simp add: ring_used_def)
  have lt: "ring_used r < ring_size r" using assms by (rule ring_ok_used)
  show "unat (rte_ring_count r) = ring_used r"
    using lt by (simp add: rte_ring_count_def unat_and_prod_mask [OF wf] ring_slot_def u)
  obtain k where k: "k \<le> 27" "ring_size r = 2 ^ k" using wf by (rule ring_wfE)
  have "unat (cons_tail (cons r) - prod_tail (prod r) - 1) mod ring_size r = ring_cap r - ring_used r"
  proof -
    have "cons_tail (cons r) - prod_tail (prod r) - 1 = - (?u + 1)" by simp
    moreover have "unat (?u + 1) = ring_used r + 1"
      using lt ring_size_le [OF wf] u by (simp add: unat_add_u32)
    ultimately have "unat (cons_tail (cons r) - prod_tail (prod r) - 1) = (2 ^ 32 - (ring_used r + 1)) mod 2 ^ 32"
      using unat_sub_mod [of 0 "?u + 1"] by simp
    then have "unat (cons_tail (cons r) - prod_tail (prod r) - 1) mod 2 ^ k =
        (2 ^ 32 - (ring_used r + 1)) mod 2 ^ k"
      using k(1) by (simp only: mod_p2_cancel)
    also have "(2 ^ 32 - (ring_used r + 1)) = 2 ^ k * (2 ^ (32 - k) - 1) + (2 ^ k - (ring_used r + 1))"
    proof -
      have "(2::nat) ^ 32 = 2 ^ k * 2 ^ (32 - k)" using k(1) by (simp flip: power_add)
      moreover have "2 ^ k * (2 ^ (32 - k) - 1 :: nat) = 2 ^ k * 2 ^ (32 - k) - 2 ^ k"
        by (simp add: right_diff_distrib')
      moreover have "(2::nat) ^ k \<le> 2 ^ k * 2 ^ (32 - k)" by simp
      ultimately show ?thesis using lt k(2) by simp
    qed
    also have "\<dots> mod 2 ^ k = (2 ^ k - (ring_used r + 1)) mod 2 ^ k"
      by simp
    finally show ?thesis using k lt by (simp add: ring_cap_def)
  qed
  then show free: "unat (rte_ring_free_count r) = ring_cap r - ring_used r"
    by (simp add: rte_ring_free_count_def unat_and_prod_mask [OF wf] ring_slot_def)
  have "rte_ring_full r \<longleftrightarrow> unat (rte_ring_free_count r) = 0"
    by (simp add: rte_ring_full_def rte_ring_free_count_def unat_eq_0)
  then show "rte_ring_full r \<longleftrightarrow> ring_used r = ring_cap r"
    using free lt by (auto simp: ring_cap_def)
  show "rte_ring_empty r \<longleftrightarrow> ring_used r = 0"
    using u by (auto simp: rte_ring_empty_def unat_eq_0 ring_used_def)
qed

section \<open>The contract of the bulk functions\<close>

lemma fifo_enqueue_fixed_fits:
  "length q + length xs \<le> cap \<Longrightarrow>
   \<exists>ret. (ret = 0 \<or> ret = - EDQUOT) \<and> fifo_enqueue cap wm q xs RTE_RING_QUEUE_FIXED = (ret, q @ xs)"
  by (auto simp: fifo_enqueue_def Let_def)

lemma length_contents_le_cap: "ring_ok r \<Longrightarrow> length (ring_contents r) \<le> ring_cap r"
  using ring_ok_used [of r] by (simp add: ring_cap_def)

lemma ring_enqueue_fixed:
  assumes ok: "ring_ok r" and len: "length xs < 2 ^ 32"
  shows "length (ring_contents r) + length xs \<le> ring_cap r \<Longrightarrow>
      \<exists>ret r'. rte_ring_sp_enqueue_bulk r xs (of_nat (length xs)) = (ret, r') \<and>
        (ret = 0 \<or> ret = - EDQUOT) \<and> ring_ok r' \<and> ring_cap r' = ring_cap r \<and>
        ring_contents r' = ring_contents r @ xs"
    and "ring_cap r < length (ring_contents r) + length xs \<Longrightarrow>
      rte_ring_sp_enqueue_bulk r xs (of_nat (length xs)) = (- ENOBUFS, r)"
proof -
  obtain ret r' where r': "ring_enqueue_op RTE_RING_QUEUE_FIXED xs r = Some (ret, r')" "ring_ok r'"
    "same_limits r r'" "fifo_enqueue (ring_cap r) (ring_wm r) (ring_contents r) xs RTE_RING_QUEUE_FIXED
      = (ret, ring_contents r')"
    by (rule ring_enqueue_op_refines [OF ok len])
  have eq: "rte_ring_sp_enqueue_bulk r xs (of_nat (length xs)) = (ret, r')"
    using r'(1) by (simp add: ring_enqueue_op_eq [OF ok] rte_ring_sp_enqueue_bulk_def)
  show "\<exists>ret r'. rte_ring_sp_enqueue_bulk r xs (of_nat (length xs)) = (ret, r') \<and>
      (ret = 0 \<or> ret = - EDQUOT) \<and> ring_ok r' \<and> ring_cap r' = ring_cap r \<and>
      ring_contents r' = ring_contents r @ xs"
    if fits: "length (ring_contents r) + length xs \<le> ring_cap r"
    using fifo_enqueue_fixed_fits [OF fits, of "ring_wm r"] r' eq by (auto simp: same_limits_def)
  show "rte_ring_sp_enqueue_bulk r xs (of_nat (length xs)) = (- ENOBUFS, r)"
    if full: "ring_cap r < length (ring_contents r) + length xs"
  proof -
    have "unat (of_nat (length xs) :: u32) = length xs" using len by (rule unat_of_nat_u32)
    moreover have "ring_cap r - ring_used r < length xs"
      using full length_contents_le_cap [OF ok] by simp
    ultimately show ?thesis
      by (simp add: rte_ring_sp_enqueue_bulk_def sp_do_enqueue_eq [OF ok] Let_def)
  qed
qed

lemma ring_dequeue_fixed:
  assumes ok: "ring_ok r" and len: "length tab < 2 ^ 32"
  shows "length tab \<le> length (ring_contents r) \<Longrightarrow>
      \<exists>r'. rte_ring_sc_dequeue_bulk r tab (of_nat (length tab)) =
          (0, take (length tab) (ring_contents r), r') \<and>
        ring_ok r' \<and> ring_cap r' = ring_cap r \<and>
        ring_contents r' = drop (length tab) (ring_contents r)"
    and "length (ring_contents r) < length tab \<Longrightarrow>
      rte_ring_sc_dequeue_bulk r tab (of_nat (length tab)) = (- ENOENT, tab, r)"
proof -
  have n: "unat (of_nat (length tab) :: u32) = length tab" using len by (rule unat_of_nat_u32)
  show "\<exists>r'. rte_ring_sc_dequeue_bulk r tab (of_nat (length tab)) =
          (0, take (length tab) (ring_contents r), r') \<and>
        ring_ok r' \<and> ring_cap r' = ring_cap r \<and>
        ring_contents r' = drop (length tab) (ring_contents r)"
    if has: "length tab \<le> length (ring_contents r)"
    using has n ring_popped_ok [OF ok, of "of_nat (length tab)"]
      ring_popped_contents [OF ok, of "of_nat (length tab)"]
    by (auto simp: rte_ring_sc_dequeue_bulk_def sc_do_dequeue_eq [OF ok] Let_def min_def ring_cap_def)
  show "rte_ring_sc_dequeue_bulk r tab (of_nat (length tab)) = (- ENOENT, tab, r)"
    if "length (ring_contents r) < length tab"
    using that n by (simp add: rte_ring_sc_dequeue_bulk_def sc_do_dequeue_eq [OF ok] Let_def)
qed

lemma ring_mp_bulk_eq:
  "ring_ok r \<Longrightarrow> rte_ring_mp_enqueue_bulk r xs n = Some (rte_ring_sp_enqueue_bulk r xs n)"
  by (simp add: rte_ring_mp_enqueue_bulk_def rte_ring_sp_enqueue_bulk_def mp_do_enqueue_quiet ring_ok_heads)

lemma ring_mc_bulk_eq:
  "ring_ok r \<Longrightarrow> rte_ring_mc_dequeue_bulk r tab n = Some (rte_ring_sc_dequeue_bulk r tab n)"
  by (simp add: rte_ring_mc_dequeue_bulk_def rte_ring_sc_dequeue_bulk_def mc_do_dequeue_quiet ring_ok_heads)

text \<open>The multi-producer/multi-consumer functions of the ring keep the contract, run alone.\<close>

interpretation mp_ring: bulk_queue ring_ok ring_contents ring_cap
  "\<lambda>xs r. rte_ring_mp_enqueue_bulk r xs (of_nat (length xs))"
  "\<lambda>tab r. rte_ring_mc_dequeue_bulk r tab (of_nat (length tab))"
proof (unfold_locales, goal_cases)
  case (1 q) then show ?case by (rule length_contents_le_cap)
next
  case (2 q xs) then show ?case
    using ring_enqueue_fixed(1) [of q xs] by (simp only: ring_mp_bulk_eq option.inject)
next
  case (3 q xs) then show ?case
    using ring_enqueue_fixed(2) [of q xs] by (simp only: ring_mp_bulk_eq option.inject)
next
  case (4 q tab) then show ?case
    using ring_dequeue_fixed(1) [of q tab] by (simp only: ring_mc_bulk_eq option.inject)
next
  case (5 q tab) then show ?case
    using ring_dequeue_fixed(2) [of q tab] by (simp only: ring_mc_bulk_eq option.inject)
qed

text \<open>So do the single-producer/single-consumer functions.\<close>

interpretation sp_ring: bulk_queue ring_ok ring_contents ring_cap
  "\<lambda>xs r. Some (rte_ring_sp_enqueue_bulk r xs (of_nat (length xs)))"
  "\<lambda>tab r. Some (rte_ring_sc_dequeue_bulk r tab (of_nat (length tab)))"
proof (unfold_locales, goal_cases)
  case (1 q) then show ?case by (rule length_contents_le_cap)
next
  case (2 q xs) then show ?case
    using ring_enqueue_fixed(1) [of q xs] by (simp only: option.inject)
next
  case (3 q xs) then show ?case
    using ring_enqueue_fixed(2) [of q xs] by (simp only: option.inject)
next
  case (4 q tab) then show ?case
    using ring_dequeue_fixed(1) [of q tab] by (simp only: option.inject)
next
  case (5 q tab) then show ?case
    using ring_dequeue_fixed(2) [of q tab] by (simp only: option.inject)
qed

section \<open>Properties\<close>

text \<open>A ring of four slots whose indices are about to wrap, for the witnesses.\<close>

definition sample_ring :: "nat rte_ring" where
  "sample_ring =
    \<lparr>ring_name = ''r'', ring_flags = 0,
     prod = \<lparr>watermark = 4, sp_enqueue = False, prod_size = 4, prod_mask = 3,
             prod_head = 0xffffffff, prod_tail = 0xffffffff\<rparr>,
     cons = \<lparr>sc_dequeue = False, cons_size = 4, cons_mask = 3,
             cons_head = 0xfffffffe, cons_tail = 0xfffffffe\<rparr>,
     slots = [0, 0, 7, 0]\<rparr>"

lemma sample_ring_ok: "ring_ok sample_ring"
  by (auto simp: ring_ok_def ring_wf_def ring_size_def sample_ring_def intro!: bexI [of _ 2])

lemma sample_ring_contents: "ring_contents sample_ring = [7]"
  by (simp add: ring_contents_def sample_ring_def ring_slot_def ring_size_def)

lemma sample_ring_limits:
  "ring_cap sample_ring = 3" "ring_wm sample_ring = 4" "ring_used sample_ring = 1"
  by (simp_all add: ring_cap_def ring_wm_def ring_used_def ring_size_def sample_ring_def)

text \<open>C1: a ring is a bounded FIFO: any sequence of bulk and burst enqueues and dequeues through
  the generic functions, from any quiet state of the ring (whatever the position of its 32-bit
  indices), returns call by call what a list-based queue of capacity \<open>size - 1\<close> returns, fills
  the output tables with the same objects, always returns, and leaves the same contents.\<close>

theorem ring_session_is_fifo:
  assumes "ring_ok r" and "list_all call_small cs"
  shows "\<exists>outs r'. ring_session cs r = Some (outs, r') \<and> ring_ok r' \<and>
    fifo_session (ring_cap r) (ring_wm r) cs (ring_contents r) = (outs, ring_contents r')"
  using assms by (rule ring_session_refines)

theorem ring_session_is_fifo_witness:
  "\<exists>r'. ring_session [Enqueue RTE_RING_QUEUE_FIXED [8], Dequeue RTE_RING_QUEUE_VARIABLE [0, 0, 0]]
      sample_ring = Some ([(0, [8]), (2, [7, 8, 0])], r') \<and> ring_contents r' = []"
  using ring_session_is_fifo [OF sample_ring_ok,
      of "[Enqueue RTE_RING_QUEUE_FIXED [8], Dequeue RTE_RING_QUEUE_VARIABLE [0, 0, 0]]"]
  by (auto simp: sample_ring_contents sample_ring_limits fifo_enqueue_def fifo_dequeue_def Let_def)

text \<open>C2: the pointer copy of an enqueue, unrolled by four when the run fits before the end of
  the slots and split into two loops when it does not, always writes object \<open>j\<close> to slot
  \<open>(head + j) mod size\<close> and leaves every other slot and every index as it was.\<close>

theorem enqueue_copy_is_modular:
  assumes "ring_wf r" and "unat n < ring_size r" and "unat n \<le> length objs"
  shows "\<exists>s. ENQUEUE_PTRS r head objs n = r\<lparr>slots := s\<rparr> \<and> length s = ring_size r \<and>
    (\<forall>j < unat n. s ! ((unat head + j) mod ring_size r) = objs ! j) \<and>
    (\<forall>p < ring_size r. (\<forall>j < unat n. p \<noteq> (unat head + j) mod ring_size r) \<longrightarrow> s ! p = slots r ! p)"
proof -
  let ?sz = "ring_size r" and ?d = "unat head mod ring_size r"
  let ?s = "ring_put ?sz ?d objs (unat n) (slots r)"
  have len: "length (slots r) = ?sz" and pos: "0 < ?sz"
    using assms(1) by (simp_all add: ring_wf_def ring_size_pos)
  have put: "?s ! p = (let j = (p + ?sz - ?d) mod ?sz in if j < unat n then objs ! j else slots r ! p)"
    if "p < ?sz" for p
    using that len by (simp add: ring_put_def Let_def)
  have in_range: "?s ! ((unat head + j) mod ?sz) = objs ! j" if "j < unat n" for j
  proof -
    have "((unat head + j) mod ?sz + ?sz - ?d) mod ?sz = j"
      using slot_distance [of ?d ?sz j 0] that assms(2) pos by (simp add: mod_add_left_eq)
    then show ?thesis using put [of "(unat head + j) mod ?sz"] that pos by simp
  qed
  have frame: "?s ! p = slots r ! p"
    if p: "p < ?sz" and ne: "\<forall>j < unat n. p \<noteq> (unat head + j) mod ?sz" for p
  proof -
    let ?j = "(p + ?sz - ?d) mod ?sz"
    have "?d < ?sz" using pos by simp
    then have "?d + (p + ?sz - ?d) = p + ?sz" by simp
    then have "(?d + ?j) mod ?sz = p"
      using p by (metis mod_add_right_eq mod_add_self2 mod_less)
    then have "(unat head + ?j) mod ?sz = p" by (simp add: mod_add_left_eq)
    then have "\<not> ?j < unat n" using ne [rule_format, of ?j] by argo
    then show ?thesis using put [OF p] by simp
  qed
  have "ENQUEUE_PTRS r head objs n = r\<lparr>slots := ?s\<rparr>"
    using ENQUEUE_PTRS_eq [OF assms(1,2), of head objs] by (simp only: ring_slot_def)
  moreover have "length ?s = ?sz" using len by simp
  ultimately show ?thesis using in_range frame by blast
qed

theorem enqueue_copy_is_modular_witness:
  "\<exists>s. ENQUEUE_PTRS sample_ring 3 [5, 6] 2 = sample_ring\<lparr>slots := s\<rparr> \<and> s ! 3 = 5 \<and> s ! 0 = 6"
proof -
  have "ring_wf sample_ring" "ring_size sample_ring = 4"
    using sample_ring_ok by (auto simp: ring_ok_def ring_size_def sample_ring_def)
  then obtain s where "ENQUEUE_PTRS sample_ring 3 [5, 6] 2 = sample_ring\<lparr>slots := s\<rparr>"
    and s: "\<forall>j < 2. s ! ((3 + j) mod 4) = [5, 6] ! j"
    using enqueue_copy_is_modular [of sample_ring 2 "[5, 6]" 3] by auto
  moreover have "s ! 3 = 5" "s ! 0 = 6" using s [rule_format, of 0] s [rule_format, of 1] by auto
  ultimately show ?thesis by blast
qed

text \<open>C3: the state queries are exact on a quiet ring: the count is the number of stored
  objects, the free count completes it to \<open>size - 1\<close>, and full and empty report exactly those.\<close>

theorem ring_queries_exact:
  assumes "ring_ok r"
  shows "unat (rte_ring_count r) = length (ring_contents r) \<and>
    unat (rte_ring_count r) + unat (rte_ring_free_count r) = ring_size r - 1 \<and>
    (rte_ring_full r \<longleftrightarrow> length (ring_contents r) = ring_size r - 1) \<and>
    (rte_ring_empty r \<longleftrightarrow> ring_contents r = [])"
  using ring_count_lemmas [OF assms] ring_ok_used [OF assms]
  by (auto simp: ring_cap_def simp flip: length_0_conv)

theorem ring_queries_exact_witness:
  "unat (rte_ring_count sample_ring) = 1 \<and> \<not> rte_ring_empty sample_ring"
  using ring_queries_exact [OF sample_ring_ok] by (simp add: sample_ring_contents)



text \<open>C5: a multi-producer enqueue returns exactly when it is refused for lack of room or
  when no other producer has claimed slots that it has not published yet; alone, a call that
  has claimed slots behind an unpublished claim waits forever.\<close>

theorem mp_enqueue_returns_iff:
  "(\<exists>res. rte_ring_mp_do_enqueue r objs n behavior = Some res) \<longleftrightarrow>
    isl (enqueue_room (prod_mask (prod r) + cons_tail (cons r) - prod_head (prod r)) n behavior) \<or>
    prod_tail (prod r) = prod_head (prod r)"
proof -
  let ?room = "enqueue_room (prod_mask (prod r) + cons_tail (cons r) - prod_head (prod r)) n behavior"
  have "\<exists>res. rte_ring_mp_do_enqueue r objs n behavior = Some res" if "isl ?room"
    using that by (cases ?room) (auto simp: rte_ring_mp_do_enqueue_def mp_move_head_eq Let_def)
  then show ?thesis
    using mp_do_enqueue_quiet [of r objs n behavior] mp_do_enqueue_blocks [of r n behavior objs]
    by (metis option.distinct(1))
qed

text \<open>C6: once a watermark is set, a bulk enqueue that fits reports \<open>-EDQUOT\<close> exactly when
  the objects stored after it reach the watermark.  The header speaks of the watermark being
  exceeded; the code already reports it when it is met.\<close>

theorem watermark_reported_when_met:
  assumes ok: "ring_ok r" and wm: "rte_ring_set_water_mark r cnt = (0, r')" "cnt \<noteq> 0"
    and fits: "length (ring_contents r) + length xs \<le> ring_cap r" "length xs < 2 ^ 32"
  shows "fst (rte_ring_sp_enqueue_bulk r' xs (of_nat (length xs))) =
    (if unat cnt \<le> length (ring_contents r) + length xs then - EDQUOT else 0)"
proof -
  have r': "r' = r\<lparr>prod := (prod r)\<lparr>watermark := cnt\<rparr>\<rparr>"
    using wm by (auto simp: rte_ring_set_water_mark_def split: if_splits)
  then have ok': "ring_ok r'" and same: "ring_cap r' = ring_cap r" "ring_wm r' = unat cnt"
      "ring_used r' = ring_used r"
    using ok by (auto simp: ring_ok_def ring_wf_def ring_size_def ring_cap_def ring_wm_def ring_used_def)
  obtain ret r'' where r'': "ring_enqueue_op RTE_RING_QUEUE_FIXED xs r' = Some (ret, r'')"
    "fifo_enqueue (ring_cap r') (ring_wm r') (ring_contents r') xs RTE_RING_QUEUE_FIXED
      = (ret, ring_contents r'')"
    by (rule ring_enqueue_op_refines [OF ok' fits(2)])
  then have "fst (rte_ring_sp_enqueue_bulk r' xs (of_nat (length xs))) = ret"
    by (simp add: ring_enqueue_op_eq [OF ok'] rte_ring_sp_enqueue_bulk_def)
  moreover have "\<not> ring_cap r - ring_used r < length xs"
    "min (length xs) (ring_cap r - ring_used r) = length xs"
    using fits(1) by simp_all
  ultimately show ?thesis
    using r''(2) same by (simp add: fifo_enqueue_def Let_def split: if_splits)
qed

theorem watermark_reported_when_met_witness:
  "fst (rte_ring_sp_enqueue_bulk (sample_ring\<lparr>prod := (prod sample_ring)\<lparr>watermark := 2\<rparr>\<rparr>)
     [8] (of_nat (length [8::nat]))) = - EDQUOT"
proof -
  have "rte_ring_set_water_mark sample_ring 2 =
      (0, sample_ring\<lparr>prod := (prod sample_ring)\<lparr>watermark := 2\<rparr>\<rparr>)"
    by (simp add: rte_ring_set_water_mark_def sample_ring_def)
  then show ?thesis
    using watermark_reported_when_met [OF sample_ring_ok, of 2 _ "[8]"]
    by (simp add: sample_ring_contents ring_cap_def ring_size_def) (simp add: sample_ring_def)
qed

end
