(* ===== verification/Rte_Lpm.thy ===== *)
theory Rte_Lpm
  imports Dpdk_Prelude
begin

unbundle bit_operations_syntax

text \<open>
  The IPv4 longest-prefix-match table of lib/librte_lpm: the rule table, grouped
  by prefix depth; the direct table \<open>tbl24\<close>, indexed by the upper 24 bits of an
  address; and the groups of \<open>tbl8\<close>, one for each /24 block that holds a longer
  prefix.  The three tables are functions of an index (\<open>tbl24\<close> has \<open>2 ^ 24\<close>
  entries), updated at one index at a time as the code does; that every index
  used is within its table is part of what is proved.
\<close>

section \<open>Data\<close>

text \<open>
  \<open>next_hop\<close> and \<open>tbl8_gindex\<close> are one union member in C: both read
  \<open>t24_hop\<close>.  The 6-bit \<open>depth\<close> fields hold at most 32.
\<close>

record tbl24_entry =
  t24_hop :: u8
  t24_valid :: bool
  t24_ext :: bool
  t24_depth :: nat

record tbl8_entry =
  t8_hop :: u8
  t8_valid :: bool
  t8_valid_group :: bool
  t8_depth :: nat

record lpm_rule =
  rule_ip :: u32
  rule_next_hop :: u8

record lpm_rule_info =
  used_rules :: nat
  first_rule :: nat

record rte_lpm =
  lpm_name :: string
  max_rules :: nat
  rule_info :: "nat \<Rightarrow> lpm_rule_info"
  tbl24 :: "nat \<Rightarrow> tbl24_entry"
  tbl8 :: "nat \<Rightarrow> tbl8_entry"
  rules_tbl :: "nat \<Rightarrow> lpm_rule"

definition RTE_LPM_MAX_DEPTH :: nat where [simp]: "RTE_LPM_MAX_DEPTH = 32"
definition MAX_DEPTH_TBL24 :: nat where [simp]: "MAX_DEPTH_TBL24 = 24"
definition RTE_LPM_TBL8_GROUP_NUM_ENTRIES :: nat where
  [simp]: "RTE_LPM_TBL8_GROUP_NUM_ENTRIES = 256"
definition RTE_LPM_TBL8_NUM_GROUPS :: nat where [simp]: "RTE_LPM_TBL8_NUM_GROUPS = 256"
definition RTE_LPM_NAMESIZE :: nat where [simp]: "RTE_LPM_NAMESIZE = 32"

definition zero_tbl24 :: tbl24_entry where
  "zero_tbl24 = \<lparr>t24_hop = 0, t24_valid = False, t24_ext = False, t24_depth = 0\<rparr>"
definition zero_tbl8 :: tbl8_entry where
  "zero_tbl8 = \<lparr>t8_hop = 0, t8_valid = False, t8_valid_group = False, t8_depth = 0\<rparr>"
definition zero_rule :: lpm_rule where
  "zero_rule = \<lparr>rule_ip = 0, rule_next_hop = 0\<rparr>"
definition zero_rule_info :: lpm_rule_info where
  "zero_rule_info = \<lparr>used_rules = 0, first_rule = 0\<rparr>"

section \<open>Depths\<close>

text \<open>\<open>(int)0x80000000 >> (depth - 1)\<close>: an arithmetic shift of a negative int.\<close>

definition depth_to_mask :: "nat \<Rightarrow> u32" where
  "depth_to_mask depth = signed_drop_bit (depth - 1) 0x80000000"

definition depth_to_range :: "nat \<Rightarrow> nat" where
  "depth_to_range depth =
    (if depth \<le> MAX_DEPTH_TBL24 then 2 ^ (MAX_DEPTH_TBL24 - depth)
     else 2 ^ (RTE_LPM_MAX_DEPTH - depth))"

section \<open>Creation\<close>

text \<open>
  The tail queue of tables is the list \<open>lpms\<close>; \<open>te_ok\<close> and \<open>mem_ok\<close> say
  whether the two allocations succeed.  \<open>rte_zmalloc\<close> zeroes the table.  As in
  the code, a duplicate name returns the table that has it, and a failed
  allocation of the list entry returns whatever table the search looked at last.
\<close>

definition lpm_init :: "string \<Rightarrow> nat \<Rightarrow> rte_lpm" where
  "lpm_init name n =
    \<lparr>lpm_name = take (RTE_LPM_NAMESIZE - 1) name, max_rules = n,
     rule_info = (\<lambda>_. zero_rule_info), tbl24 = (\<lambda>_. zero_tbl24), tbl8 = (\<lambda>_. zero_tbl8),
     rules_tbl = (\<lambda>_. zero_rule)\<rparr>"

definition lpm_same_name :: "string \<Rightarrow> rte_lpm \<Rightarrow> bool" where
  "lpm_same_name name l \<longleftrightarrow> take RTE_LPM_NAMESIZE name = take RTE_LPM_NAMESIZE (lpm_name l)"

definition rte_lpm_find_existing :: "string \<Rightarrow> rte_lpm list \<Rightarrow> int + rte_lpm" where
  "rte_lpm_find_existing name lpms =
    (case List.find (lpm_same_name name) lpms of None \<Rightarrow> Inl ENOENT | Some l \<Rightarrow> Inr l)"

definition rte_lpm_create ::
  "string option \<Rightarrow> int \<Rightarrow> nat \<Rightarrow> bool \<Rightarrow> bool \<Rightarrow> rte_lpm list
   \<Rightarrow> (int + rte_lpm option) \<times> rte_lpm list" where
  "rte_lpm_create name socket_id n te_ok mem_ok lpms =
    (if name = None \<or> socket_id < -1 \<or> n = 0 then (Inl EINVAL, lpms)
     else (case List.find (lpm_same_name (the name)) lpms of
             Some l \<Rightarrow> (Inr (Some l), lpms)
           | None \<Rightarrow>
               if \<not> te_ok then (Inr (if lpms = [] then None else Some (last lpms)), lpms)
               else if \<not> mem_ok then (Inr None, lpms)
               else (let lpm = lpm_init (the name) n in (Inr (Some lpm), lpms @ [lpm]))))"

text \<open>
  Freeing: the table to free is named by its place in the list; a pointer to
  nothing in the list is a place past its end, a null pointer is \<open>None\<close>.
\<close>

definition rte_lpm_free :: "nat option \<Rightarrow> rte_lpm list \<Rightarrow> rte_lpm list" where
  "rte_lpm_free lpm lpms =
    (case lpm of None \<Rightarrow> lpms
     | Some i \<Rightarrow> if i < length lpms then take i lpms @ drop (Suc i) lpms else lpms)"

section \<open>The rule table\<close>

abbreviation rule_used :: "rte_lpm \<Rightarrow> nat \<Rightarrow> nat" where
  "rule_used lpm i \<equiv> used_rules (rule_info lpm i)"
abbreviation rule_first :: "rte_lpm \<Rightarrow> nat \<Rightarrow> nat" where
  "rule_first lpm i \<equiv> first_rule (rule_info lpm i)"
abbreviation set_first :: "nat \<Rightarrow> nat \<Rightarrow> rte_lpm \<Rightarrow> rte_lpm" where
  "set_first i v lpm \<equiv> lpm\<lparr>rule_info := (rule_info lpm)(i := (rule_info lpm i)\<lparr>first_rule := v\<rparr>)\<rparr>"
abbreviation set_used :: "nat \<Rightarrow> nat \<Rightarrow> rte_lpm \<Rightarrow> rte_lpm" where
  "set_used i v lpm \<equiv> lpm\<lparr>rule_info := (rule_info lpm)(i := (rule_info lpm i)\<lparr>used_rules := v\<rparr>)\<rparr>"
abbreviation set_rule :: "nat \<Rightarrow> lpm_rule \<Rightarrow> rte_lpm \<Rightarrow> rte_lpm" where
  "set_rule i v lpm \<equiv> lpm\<lparr>rules_tbl := (rules_tbl lpm)(i := v)\<rparr>"

text \<open>The scan of one rule group for an address.\<close>

definition rule_scan :: "rte_lpm \<Rightarrow> u32 \<Rightarrow> nat \<Rightarrow> nat option" where
  "rule_scan lpm ip_masked depth =
    List.find (\<lambda>i. rule_ip (rules_tbl lpm i) = ip_masked)
      [rule_first lpm (depth - 1)..<rule_first lpm (depth - 1) + rule_used lpm (depth - 1)]"

text \<open>Where an empty group starts: behind the nearest group of a smaller depth.\<close>

fun rule_position :: "rte_lpm \<Rightarrow> nat \<Rightarrow> nat" where
  "rule_position lpm 0 = 0"
| "rule_position lpm (Suc i) =
    (if rule_used lpm i > 0 then rule_first lpm i + rule_used lpm i else rule_position lpm i)"

text \<open>
  The groups of greater depths, from the last one down, each move their first
  rule behind their last.  \<open>False\<close>: the table is full.
\<close>

fun rule_make_room :: "nat \<Rightarrow> nat \<Rightarrow> rte_lpm \<Rightarrow> bool \<times> rte_lpm" where
  "rule_make_room i depth lpm =
    (if i > depth then
       (if rule_first lpm (i - 1) + rule_used lpm (i - 1) = max_rules lpm then (False, lpm)
        else rule_make_room (i - 1) depth
          (if rule_used lpm (i - 1) > 0 then
             set_first (i - 1) (rule_first lpm (i - 1) + 1)
               (set_rule (rule_first lpm (i - 1) + rule_used lpm (i - 1))
                  (rules_tbl lpm (rule_first lpm (i - 1))) lpm)
           else lpm))
     else (True, lpm))"

declare rule_make_room.simps [simp del]

definition rule_insert :: "rte_lpm \<Rightarrow> nat \<Rightarrow> u32 \<Rightarrow> nat \<Rightarrow> u8 \<Rightarrow> int \<times> rte_lpm" where
  "rule_insert lpm rule_index ip_masked depth hop =
    (let (ok, lpm) = rule_make_room RTE_LPM_MAX_DEPTH depth lpm in
     if \<not> ok then (- ENOSPC, lpm)
     else (let lpm = set_rule rule_index \<lparr>rule_ip = ip_masked, rule_next_hop = hop\<rparr> lpm
           in (int rule_index, set_used (depth - 1) (rule_used lpm (depth - 1) + 1) lpm)))"

definition rule_add :: "rte_lpm \<Rightarrow> u32 \<Rightarrow> nat \<Rightarrow> u8 \<Rightarrow> int \<times> rte_lpm" where
  "rule_add lpm ip_masked depth hop =
    (if rule_used lpm (depth - 1) > 0 then
       (case rule_scan lpm ip_masked depth of
          Some rule_index \<Rightarrow>
            (int rule_index,
             set_rule rule_index ((rules_tbl lpm rule_index)\<lparr>rule_next_hop := hop\<rparr>) lpm)
        | None \<Rightarrow>
            (let rule_index = rule_first lpm (depth - 1) + rule_used lpm (depth - 1) in
             if rule_index = max_rules lpm then (- ENOSPC, lpm)
             else rule_insert lpm rule_index ip_masked depth hop))
     else
       (let rule_index = rule_position lpm (depth - 1) in
        if rule_index = max_rules lpm then (- ENOSPC, lpm)
        else rule_insert (set_first (depth - 1) rule_index lpm) rule_index ip_masked depth hop))"

definition rule_delete :: "rte_lpm \<Rightarrow> nat \<Rightarrow> nat \<Rightarrow> rte_lpm" where
  "rule_delete lpm rule_index depth =
    (let lpm = set_rule rule_index
           (rules_tbl lpm (rule_first lpm (depth - 1) + rule_used lpm (depth - 1) - 1)) lpm;
         lpm = for_range depth RTE_LPM_MAX_DEPTH (\<lambda>i lpm.
           if rule_used lpm i > 0 then
             set_first i (rule_first lpm i - 1)
               (set_rule (rule_first lpm i - 1)
                  (rules_tbl lpm (rule_first lpm i + rule_used lpm i - 1)) lpm)
           else lpm) lpm
     in set_used (depth - 1) (rule_used lpm (depth - 1) - 1) lpm)"

definition rule_find :: "rte_lpm \<Rightarrow> u32 \<Rightarrow> nat \<Rightarrow> int" where
  "rule_find lpm ip_masked depth =
    (case rule_scan lpm ip_masked depth of Some i \<Rightarrow> int i | None \<Rightarrow> - EINVAL)"

section \<open>Groups of tbl8\<close>

definition tbl8_alloc :: "(nat \<Rightarrow> tbl8_entry) \<Rightarrow> int \<times> (nat \<Rightarrow> tbl8_entry)" where
  "tbl8_alloc t8 =
    (case List.find (\<lambda>g. \<not> t8_valid_group (t8 (g * RTE_LPM_TBL8_GROUP_NUM_ENTRIES)))
            [0..<RTE_LPM_TBL8_NUM_GROUPS] of
       Some g \<Rightarrow>
         (let start = g * RTE_LPM_TBL8_GROUP_NUM_ENTRIES;
              t8 = for_range start (start + RTE_LPM_TBL8_GROUP_NUM_ENTRIES)
                     (\<lambda>i t8. t8(i := zero_tbl8)) t8
          in (int g, t8(start := (t8 start)\<lparr>t8_valid_group := True\<rparr>)))
     | None \<Rightarrow> (- ENOSPC, t8))"

definition tbl8_free :: "(nat \<Rightarrow> tbl8_entry) \<Rightarrow> nat \<Rightarrow> (nat \<Rightarrow> tbl8_entry)" where
  "tbl8_free t8 start = t8(start := (t8 start)\<lparr>t8_valid_group := False\<rparr>)"

section \<open>Adding a route\<close>

definition add_depth_small :: "rte_lpm \<Rightarrow> u32 \<Rightarrow> nat \<Rightarrow> u8 \<Rightarrow> rte_lpm" where
  "add_depth_small lpm ip depth hop =
    (let tbl24_index = unat (drop_bit 8 ip); tbl24_range = depth_to_range depth in
     for_range tbl24_index (tbl24_index + tbl24_range) (\<lambda>i lpm.
       if \<not> t24_valid (tbl24 lpm i) \<or> \<not> t24_ext (tbl24 lpm i) \<and> t24_depth (tbl24 lpm i) \<le> depth then
         lpm\<lparr>tbl24 := (tbl24 lpm)(i :=
           \<lparr>t24_hop = hop, t24_valid = True, t24_ext = False, t24_depth = depth\<rparr>)\<rparr>
       else if t24_ext (tbl24 lpm i) then
         (let tbl8_index = unat (t24_hop (tbl24 lpm i)) * RTE_LPM_TBL8_GROUP_NUM_ENTRIES;
              tbl8_group_end = tbl8_index + RTE_LPM_TBL8_GROUP_NUM_ENTRIES
          in lpm\<lparr>tbl8 := for_range tbl8_index tbl8_group_end (\<lambda>j t8.
               if \<not> t8_valid (t8 j) \<or> t8_depth (t8 j) \<le> depth then
                 t8(j := \<lparr>t8_hop = hop, t8_valid = True, t8_valid_group = True, t8_depth = depth\<rparr>)
               else t8) (tbl8 lpm)\<rparr>)
       else lpm) lpm)"

text \<open>The three cases of \<open>add_depth_big\<close>: the /24 block is unused, direct, or extended.\<close>

definition ext_tbl24 :: "nat \<Rightarrow> tbl24_entry" where
  "ext_tbl24 g = \<lparr>t24_hop = of_nat g, t24_valid = True, t24_ext = True, t24_depth = 0\<rparr>"

definition add_depth_big :: "rte_lpm \<Rightarrow> u32 \<Rightarrow> nat \<Rightarrow> u8 \<Rightarrow> int \<times> rte_lpm" where
  "add_depth_big lpm ip_masked depth hop =
    (let tbl24_index = unat (drop_bit 8 ip_masked); tbl8_range = depth_to_range depth in
     if \<not> t24_valid (tbl24 lpm tbl24_index) then
       (let (g, t8) = tbl8_alloc (tbl8 lpm) in
        if g < 0 then (g, lpm)
        else
          (let tbl8_index = nat g * RTE_LPM_TBL8_GROUP_NUM_ENTRIES + unat (ip_masked AND 0xFF);
               t8 = for_range tbl8_index (tbl8_index + tbl8_range) (\<lambda>i t8.
                 t8(i := (t8 i)\<lparr>t8_depth := depth, t8_hop := hop, t8_valid := True\<rparr>)) t8
           in (0, lpm\<lparr>tbl8 := t8, tbl24 := (tbl24 lpm)(tbl24_index := ext_tbl24 (nat g))\<rparr>)))
     else if \<not> t24_ext (tbl24 lpm tbl24_index) then
       (let (g, t8) = tbl8_alloc (tbl8 lpm) in
        if g < 0 then (g, lpm)
        else
          (let start = nat g * RTE_LPM_TBL8_GROUP_NUM_ENTRIES;
               old = tbl24 lpm tbl24_index;
               t8 = for_range start (start + RTE_LPM_TBL8_GROUP_NUM_ENTRIES) (\<lambda>i t8.
                 t8(i := (t8 i)\<lparr>t8_valid := True, t8_depth := t24_depth old, t8_hop := t24_hop old\<rparr>)) t8;
               tbl8_index = start + unat (ip_masked AND 0xFF);
               t8 = for_range tbl8_index (tbl8_index + tbl8_range) (\<lambda>i t8.
                 if \<not> t8_valid (t8 i) \<or> t8_depth (t8 i) \<le> depth then
                   t8(i := (t8 i)\<lparr>t8_valid := True, t8_depth := depth, t8_hop := hop\<rparr>)
                 else t8) t8
           in (0, lpm\<lparr>tbl8 := t8, tbl24 := (tbl24 lpm)(tbl24_index := ext_tbl24 (nat g))\<rparr>)))
     else
       (let start = unat (t24_hop (tbl24 lpm tbl24_index)) * RTE_LPM_TBL8_GROUP_NUM_ENTRIES;
            tbl8_index = start + unat (ip_masked AND 0xFF);
            t8 = for_range tbl8_index (tbl8_index + tbl8_range) (\<lambda>i t8.
              if \<not> t8_valid (t8 i) \<or> t8_depth (t8 i) \<le> depth then
                t8(i := \<lparr>t8_hop = hop, t8_valid = True,
                         t8_valid_group = t8_valid_group (t8 i), t8_depth = depth\<rparr>)
              else t8) (tbl8 lpm)
        in (0, lpm\<lparr>tbl8 := t8\<rparr>)))"

definition rte_lpm_add :: "rte_lpm \<Rightarrow> u32 \<Rightarrow> nat \<Rightarrow> u8 \<Rightarrow> int \<times> rte_lpm" where
  "rte_lpm_add lpm ip depth hop =
    (if depth < 1 \<or> depth > RTE_LPM_MAX_DEPTH then (- EINVAL, lpm)
     else
       (let ip_masked = ip AND depth_to_mask depth;
            (rule_index, lpm) = rule_add lpm ip_masked depth hop
        in if rule_index < 0 then (rule_index, lpm)
           else if depth \<le> MAX_DEPTH_TBL24 then (0, add_depth_small lpm ip_masked depth hop)
           else
             (let (status, lpm) = add_depth_big lpm ip_masked depth hop
              in if status < 0 then (status, rule_delete lpm (nat rule_index) depth)
                 else (0, lpm))))"

definition rte_lpm_is_rule_present :: "rte_lpm \<Rightarrow> u32 \<Rightarrow> nat \<Rightarrow> int \<times> u8 option" where
  "rte_lpm_is_rule_present lpm ip depth =
    (if depth < 1 \<or> depth > RTE_LPM_MAX_DEPTH then (- EINVAL, None)
     else
       (let ip_masked = ip AND depth_to_mask depth; rule_index = rule_find lpm ip_masked depth
        in if rule_index \<ge> 0 then (1, Some (rule_next_hop (rules_tbl lpm (nat rule_index))))
           else (0, None)))"

section \<open>Deleting a route\<close>

text \<open>The loop of \<open>find_previous_rule\<close>, from depth \<open>n\<close> down: the index (or -1) and the depth.\<close>

fun find_previous_from :: "rte_lpm \<Rightarrow> u32 \<Rightarrow> nat \<Rightarrow> int \<times> nat" where
  "find_previous_from lpm ip 0 = (- 1, 0)"
| "find_previous_from lpm ip (Suc prev) =
    (let ip_masked = ip AND depth_to_mask (Suc prev);
         rule_index = rule_find lpm ip_masked (Suc prev)
     in if rule_index \<ge> 0 then (rule_index, Suc prev) else find_previous_from lpm ip prev)"

definition find_previous_rule :: "rte_lpm \<Rightarrow> u32 \<Rightarrow> nat \<Rightarrow> int \<times> nat" where
  "find_previous_rule lpm ip depth = find_previous_from lpm ip (depth - 1)"

definition delete_depth_small :: "rte_lpm \<Rightarrow> u32 \<Rightarrow> nat \<Rightarrow> int \<Rightarrow> nat \<Rightarrow> rte_lpm" where
  "delete_depth_small lpm ip_masked depth sub_rule_index sub_rule_depth =
    (let tbl24_range = depth_to_range depth; tbl24_index = unat (drop_bit 8 ip_masked) in
     if sub_rule_index < 0 then
       for_range tbl24_index (tbl24_index + tbl24_range) (\<lambda>i lpm.
         if \<not> t24_ext (tbl24 lpm i) \<and> t24_depth (tbl24 lpm i) \<le> depth then
           lpm\<lparr>tbl24 := (tbl24 lpm)(i := (tbl24 lpm i)\<lparr>t24_valid := False\<rparr>)\<rparr>
         else
           (let tbl8_index = unat (t24_hop (tbl24 lpm i)) * RTE_LPM_TBL8_GROUP_NUM_ENTRIES
            in lpm\<lparr>tbl8 := for_range tbl8_index (tbl8_index + RTE_LPM_TBL8_GROUP_NUM_ENTRIES)
                 (\<lambda>j t8. if t8_depth (t8 j) \<le> depth then t8(j := (t8 j)\<lparr>t8_valid := False\<rparr>)
                         else t8) (tbl8 lpm)\<rparr>)) lpm
     else
       (let hop = rule_next_hop (rules_tbl lpm (nat sub_rule_index));
            new24 = \<lparr>t24_hop = hop, t24_valid = True, t24_ext = False, t24_depth = sub_rule_depth\<rparr>;
            new8 = \<lparr>t8_hop = hop, t8_valid = True, t8_valid_group = False, t8_depth = sub_rule_depth\<rparr>
        in for_range tbl24_index (tbl24_index + tbl24_range) (\<lambda>i lpm.
             if \<not> t24_ext (tbl24 lpm i) \<and> t24_depth (tbl24 lpm i) \<le> depth then
               lpm\<lparr>tbl24 := (tbl24 lpm)(i := new24)\<rparr>
             else
               (let tbl8_index = unat (t24_hop (tbl24 lpm i)) * RTE_LPM_TBL8_GROUP_NUM_ENTRIES
                in lpm\<lparr>tbl8 := for_range tbl8_index (tbl8_index + RTE_LPM_TBL8_GROUP_NUM_ENTRIES)
                     (\<lambda>j t8. if t8_depth (t8 j) \<le> depth then t8(j := new8) else t8)
                     (tbl8 lpm)\<rparr>)) lpm))"

definition tbl8_recycle_check :: "(nat \<Rightarrow> tbl8_entry) \<Rightarrow> nat \<Rightarrow> int" where
  "tbl8_recycle_check t8 start =
    (let rest = [start + 1..<start + RTE_LPM_TBL8_GROUP_NUM_ENTRIES] in
     if t8_valid (t8 start) then
       (if t8_depth (t8 start) < MAX_DEPTH_TBL24 then
          (if \<exists>i \<in> set rest. t8_depth (t8 i) \<noteq> t8_depth (t8 start) then - EEXIST
           else int start)
        else - EEXIST)
     else if \<exists>i \<in> set rest. t8_valid (t8 i) then - EEXIST
     else - EINVAL)"

definition delete_depth_big :: "rte_lpm \<Rightarrow> u32 \<Rightarrow> nat \<Rightarrow> int \<Rightarrow> nat \<Rightarrow> rte_lpm" where
  "delete_depth_big lpm ip_masked depth sub_rule_index sub_rule_depth =
    (let tbl24_index = unat (drop_bit 8 ip_masked);
         start = unat (t24_hop (tbl24 lpm tbl24_index)) * RTE_LPM_TBL8_GROUP_NUM_ENTRIES;
         tbl8_index = start + unat (ip_masked AND 0xFF);
         tbl8_range = depth_to_range depth;
         t8 = (if sub_rule_index < 0 then
                 for_range tbl8_index (tbl8_index + tbl8_range) (\<lambda>i t8.
                   if t8_depth (t8 i) \<le> depth then t8(i := (t8 i)\<lparr>t8_valid := False\<rparr>) else t8)
                   (tbl8 lpm)
               else
                 (let new8 = \<lparr>t8_hop = rule_next_hop (rules_tbl lpm (nat sub_rule_index)),
                        t8_valid = True, t8_valid_group = t8_valid_group (tbl8 lpm start),
                        t8_depth = sub_rule_depth\<rparr>
                  in for_range tbl8_index (tbl8_index + tbl8_range) (\<lambda>i t8.
                       if t8_depth (t8 i) \<le> depth then t8(i := new8) else t8) (tbl8 lpm)));
         lpm = lpm\<lparr>tbl8 := t8\<rparr>;
         recycle = tbl8_recycle_check (tbl8 lpm) start
     in if recycle = - EINVAL then
          lpm\<lparr>tbl24 := (tbl24 lpm)(tbl24_index := (tbl24 lpm tbl24_index)\<lparr>t24_valid := False\<rparr>),
              tbl8 := tbl8_free (tbl8 lpm) start\<rparr>
        else if recycle > - 1 then
          lpm\<lparr>tbl24 := (tbl24 lpm)(tbl24_index :=
                \<lparr>t24_hop = t8_hop (tbl8 lpm (nat recycle)), t24_valid = True, t24_ext = False,
                 t24_depth = t8_depth (tbl8 lpm (nat recycle))\<rparr>),
              tbl8 := tbl8_free (tbl8 lpm) start\<rparr>
        else lpm)"

definition rte_lpm_delete :: "rte_lpm \<Rightarrow> u32 \<Rightarrow> nat \<Rightarrow> int \<times> rte_lpm" where
  "rte_lpm_delete lpm ip depth =
    (if depth < 1 \<or> depth > RTE_LPM_MAX_DEPTH then (- EINVAL, lpm)
     else
       (let ip_masked = ip AND depth_to_mask depth;
            rule_to_delete_index = rule_find lpm ip_masked depth
        in if rule_to_delete_index < 0 then (- EINVAL, lpm)
           else
             (let lpm = rule_delete lpm (nat rule_to_delete_index) depth;
                  (sub_rule_index, sub_rule_depth) = find_previous_rule lpm ip depth
              in if depth \<le> MAX_DEPTH_TBL24
                 then (0, delete_depth_small lpm ip_masked depth sub_rule_index sub_rule_depth)
                 else (0, delete_depth_big lpm ip_masked depth sub_rule_index sub_rule_depth))))"

definition rte_lpm_delete_all :: "rte_lpm \<Rightarrow> rte_lpm" where
  "rte_lpm_delete_all lpm =
    lpm\<lparr>rule_info := (\<lambda>i. if i < RTE_LPM_MAX_DEPTH then zero_rule_info else rule_info lpm i),
        tbl24 := (\<lambda>i. if i < 2 ^ 24 then zero_tbl24 else tbl24 lpm i),
        tbl8 := (\<lambda>i. if i < RTE_LPM_TBL8_NUM_GROUPS * RTE_LPM_TBL8_GROUP_NUM_ENTRIES
                     then zero_tbl8 else tbl8 lpm i),
        rules_tbl := (\<lambda>i. if i < max_rules lpm then zero_rule else rules_tbl lpm i)\<rparr>"

section \<open>Lookup\<close>

text \<open>
  The lookups read an entry as one 16-bit word: the next hop in the low byte,
  then the valid bit, the ext_entry (or valid_group) bit and the depth
  (little-endian layout).
\<close>

definition RTE_LPM_VALID_EXT_ENTRY_BITMASK :: u16 where
  "RTE_LPM_VALID_EXT_ENTRY_BITMASK = 0x0300"
definition RTE_LPM_LOOKUP_SUCCESS :: u16 where
  "RTE_LPM_LOOKUP_SUCCESS = 0x0100"

definition entry_word :: "u8 \<Rightarrow> bool \<Rightarrow> bool \<Rightarrow> nat \<Rightarrow> u16" where
  "entry_word hop valid ext depth =
    ucast hop OR push_bit 8 (of_bool valid) OR push_bit 9 (of_bool ext) OR push_bit 10 (of_nat depth)"

definition tbl24_word :: "tbl24_entry \<Rightarrow> u16" where
  "tbl24_word e = entry_word (t24_hop e) (t24_valid e) (t24_ext e) (t24_depth e)"
definition tbl8_word :: "tbl8_entry \<Rightarrow> u16" where
  "tbl8_word e = entry_word (t8_hop e) (t8_valid e) (t8_valid_group e) (t8_depth e)"

definition lpm_load :: "rte_lpm \<Rightarrow> u32 \<Rightarrow> u16" where
  "lpm_load lpm ip =
    (let tbl_entry = tbl24_word (tbl24 lpm (unat (drop_bit 8 ip)))
     in if tbl_entry AND RTE_LPM_VALID_EXT_ENTRY_BITMASK = RTE_LPM_VALID_EXT_ENTRY_BITMASK
        then (let tbl8_index = unat (ucast ip :: u8) +
                    unat (ucast tbl_entry :: u8) * RTE_LPM_TBL8_GROUP_NUM_ENTRIES
              in tbl8_word (tbl8 lpm tbl8_index))
        else tbl_entry)"

definition rte_lpm_lookup :: "rte_lpm \<Rightarrow> u32 \<Rightarrow> int \<times> u8" where
  "rte_lpm_lookup lpm ip =
    (let tbl_entry = lpm_load lpm ip
     in (if tbl_entry AND RTE_LPM_LOOKUP_SUCCESS \<noteq> 0 then 0 else - ENOENT, ucast tbl_entry))"

definition rte_lpm_lookup_bulk_func :: "rte_lpm \<Rightarrow> u32 list \<Rightarrow> u16 list" where
  "rte_lpm_lookup_bulk_func lpm ips =
    (let tbl24_indexes = map (\<lambda>ip. unat (drop_bit 8 ip)) ips
     in map2 (\<lambda>ip i.
          (let next_hop = tbl24_word (tbl24 lpm i)
           in if next_hop AND RTE_LPM_VALID_EXT_ENTRY_BITMASK = RTE_LPM_VALID_EXT_ENTRY_BITMASK
              then tbl8_word (tbl8 lpm (unat (ucast ip :: u8) +
                     unat (ucast next_hop :: u8) * RTE_LPM_TBL8_GROUP_NUM_ENTRIES))
              else next_hop)) ips tbl24_indexes)"

text \<open>
  Four lookups at once.  The four 16-bit entries are also packed into one
  64-bit word \<open>pt\<close>, which is tested against two masks.
\<close>

definition rte_lpm_lookupx4 :: "rte_lpm \<Rightarrow> u32 \<Rightarrow> u32 \<Rightarrow> u32 \<Rightarrow> u32 \<Rightarrow> u16 \<Rightarrow> u16 list" where
  "rte_lpm_lookupx4 lpm ip0 ip1 ip2 ip3 defv =
    (let ext = (ucast RTE_LPM_VALID_EXT_ENTRY_BITMASK :: u64);
         ok = (ucast RTE_LPM_LOOKUP_SUCCESS :: u64);
         mask_xv = ext OR push_bit 16 ext OR push_bit 32 ext OR push_bit 48 ext;
         mask_v = ok OR push_bit 16 ok OR push_bit 32 ok OR push_bit 48 ok;
         load = (\<lambda>ip. tbl24_word (tbl24 lpm (unat (drop_bit 8 ip))));
         t0 = load ip0; t1 = load ip1; t2 = load ip2; t3 = load ip3;
         pt = (ucast t0 :: u64) OR push_bit 16 (ucast t1) OR push_bit 32 (ucast t2)
                OR push_bit 48 (ucast t3)
     in if pt AND mask_xv = mask_v then
          (let hops = pt AND 0x00ff00ff00ff00ff
           in [ucast hops, ucast (drop_bit 16 hops), ucast (drop_bit 32 hops),
               ucast (drop_bit 48 hops)])
        else
          (let step = (\<lambda>sh t ip. if drop_bit sh pt AND ext = ext
                 then tbl8_word (tbl8 lpm (unat (ip AND 0xFF) +
                        unat (ucast t :: u8) * RTE_LPM_TBL8_GROUP_NUM_ENTRIES))
                 else t);
               u0 = step 0 t0 ip0; u1 = step 16 t1 ip1; u2 = step 32 t2 ip2; u3 = step 48 t3 ip3;
               hop = (\<lambda>t. if t AND RTE_LPM_LOOKUP_SUCCESS \<noteq> 0 then ucast (ucast t :: u8) else defv)
           in [hop u0, hop u1, hop u2, hop u3]))"

end
