(* ===== verification/Lpm_Prefix.thy ===== *)
theory Lpm_Prefix
  imports Rte_Lpm
begin

unbundle bit_operations_syntax

text \<open>
  Prefixes and longest matches, apart from any table: the masks of
  \<open>depth_to_mask\<close> as arithmetic, the addresses a prefix covers, and the
  specification \<open>longest\<close> that the lookup tables implement.
\<close>

section \<open>Masks\<close>

lemma bit_depth_to_mask:
  assumes "1 \<le> d" "d \<le> 32"
  shows "bit (depth_to_mask d) n \<longleftrightarrow> 32 - d \<le> n \<and> n < 32"
proof -
  have "(0x80000000 :: u32) = 2 ^ 31" by simp
  then have top: "bit (0x80000000 :: u32) k \<longleftrightarrow> k = 31" for k
    by (simp only: bit_exp_iff) auto
  show ?thesis
    using assms unfolding depth_to_mask_def bit_signed_drop_bit_iff top by auto
qed

lemma and_depth_to_mask:
  assumes "1 \<le> d" "d \<le> 32"
  shows "ip AND depth_to_mask d = push_bit (32 - d) (drop_bit (32 - d) ip)"
  by (rule bit_word_eqI)
    (use assms in \<open>auto simp: bit_and_iff bit_depth_to_mask bit_push_bit_iff bit_drop_bit_eq\<close>)

lemma unat_and_depth_to_mask:
  assumes "1 \<le> d" "d \<le> 32"
  shows "unat (ip AND depth_to_mask d) = unat ip div 2 ^ (32 - d) * 2 ^ (32 - d)"
proof -
  have "unat (ip AND depth_to_mask d) = take_bit 32 (push_bit (32 - d) (unat (drop_bit (32 - d) ip)))"
    by (simp add: and_depth_to_mask [OF assms] unsigned_push_bit_eq)
  also have "unat (drop_bit (32 - d) ip) = drop_bit (32 - d) (unat ip)" by (rule unat_drop_bit_eq)
  also have "take_bit 32 (push_bit (32 - d) (drop_bit (32 - d) (unat ip))) =
      push_bit (32 - d) (drop_bit (32 - d) (unat ip))"
  proof (rule take_bit_nat_eq_self)
    have "unat ip div 2 ^ (32 - d) * 2 ^ (32 - d) \<le> unat ip" by (rule div_times_less_eq_dividend)
    also have "unat ip < 2 ^ 32" using unsigned_less [of ip, where 'a = nat] by simp
    finally show "push_bit (32 - d) (drop_bit (32 - d) (unat ip)) < 2 ^ 32"
      by (simp only: push_bit_eq_mult drop_bit_eq_div)
  qed
  finally show ?thesis by (simp add: push_bit_eq_mult drop_bit_eq_div)
qed

lemma unat_drop_8: "unat (drop_bit 8 (ip :: u32)) = unat ip div 256"
  by (simp add: drop_bit_eq_div unat_div)

lemma unat_and_FF: "unat (ip AND 0xFF :: u32) = unat ip mod 256"
  using unat_and_mask [of ip 8] by simp

lemma unat_ucast_u8: "unat (ucast (ip :: u32) :: u8) = unat ip mod 256"
  by (simp add: unsigned_ucast_eq take_bit_eq_mod)

section \<open>Longest matches\<close>

text \<open>The longest match for an address among the routes of depth at most \<open>n\<close>.\<close>

fun longest :: "(nat \<Rightarrow> u32 \<Rightarrow> 'h option) \<Rightarrow> u32 \<Rightarrow> nat \<Rightarrow> ('h \<times> nat) option" where
  "longest R ip 0 = None"
| "longest R ip (Suc n) =
    (case R (Suc n) (ip AND depth_to_mask (Suc n)) of
       Some h \<Rightarrow> Some (h, Suc n) | None \<Rightarrow> longest R ip n)"

lemma longest_SomeD:
  "longest R ip n = Some (h, d) \<Longrightarrow> 1 \<le> d \<and> d \<le> n \<and> R d (ip AND depth_to_mask d) = Some h"
  by (induction n) (auto split: option.splits)

lemma longest_ge:
  "longest R ip n = Some (h, d') \<Longrightarrow> R d (ip AND depth_to_mask d) \<noteq> None \<Longrightarrow> 1 \<le> d \<Longrightarrow> d \<le> n \<Longrightarrow> d \<le> d'"
  by (induction n) (auto split: option.splits simp: le_Suc_eq)

lemma longest_None_iff:
  "longest R ip n = None \<longleftrightarrow> (\<forall>d. 1 \<le> d \<and> d \<le> n \<longrightarrow> R d (ip AND depth_to_mask d) = None)"
  by (induction n) (auto split: option.splits simp: le_Suc_eq)

text \<open>What a table entry becomes when the routes of depth \<open>d\<close> over it change.\<close>

definition supersede :: "nat \<Rightarrow> ('h \<times> nat) option \<Rightarrow> ('h \<times> nat) option \<Rightarrow> ('h \<times> nat) option" where
  "supersede d old new = (case old of Some (h, d') \<Rightarrow> if d < d' then old else new | None \<Rightarrow> new)"

lemma longest_upd:
  assumes "1 \<le> d" "d \<le> n"
  shows "longest (R(d := (R d)(p := v))) ip n =
    (if ip AND depth_to_mask d = p
     then supersede d (longest R ip n)
       (case v of Some h \<Rightarrow> Some (h, d) | None \<Rightarrow> longest R ip (d - 1))
     else longest R ip n)"
proof -
  define R' where "R' = R(d := (R d)(p := v))"
  have R': "R' d' x = (if d' = d \<and> x = p then v else R d' x)" for d' x by (simp add: R'_def)
  have "longest R' ip n = (if ip AND depth_to_mask d = p
     then supersede d (longest R ip n)
       (case v of Some h \<Rightarrow> Some (h, d) | None \<Rightarrow> longest R ip (d - 1))
     else longest R ip n)"
    using assms(2)
  proof (induction n rule: dec_induct)
    case base
    obtain c where c: "d = Suc c" using assms(1) by (cases d) auto
    have below: "longest R' ip m = longest R ip m" if "m < d" for m
    proof (use that in \<open>induction m\<close>)
      case (Suc m)
      then show ?case using R' [of "Suc m"] by (auto split: option.splits)
    qed simp
    have le: "d' \<le> c" if "longest R ip c = Some (h, d')" for h d'
      using longest_SomeD [OF that] by simp
    show ?case using below [of c] le
      by (auto simp: c R' [of "Suc c"] supersede_def split: option.splits dest: longest_SomeD)
  next
    case (step n)
    then show ?case by (auto simp: R' [of "Suc n"] supersede_def split: option.splits)
  qed
  then show ?thesis by (simp only: R'_def)
qed

section \<open>The addresses of a prefix\<close>

lemma mask_mask:
  assumes "1 \<le> d'" "d' \<le> d" "d \<le> 32"
  shows "depth_to_mask d AND depth_to_mask d' = depth_to_mask d'"
  by (rule bit_word_eqI) (use assms in \<open>auto simp: bit_and_iff bit_depth_to_mask\<close>)

lemma same_prefix_shorter:
  assumes "ip AND depth_to_mask d = ip' AND depth_to_mask d" "1 \<le> d'" "d' \<le> d" "d \<le> 32"
  shows "ip AND depth_to_mask d' = ip' AND depth_to_mask d'"
  using assms mask_mask [OF assms(2-4)] by (metis and.assoc)

lemma longest_same_prefix:
  assumes "ip AND depth_to_mask d = ip' AND depth_to_mask d" "n \<le> d" "d \<le> 32"
  shows "longest R ip n = longest R ip' n"
  using assms(2)
proof (induction n)
  case (Suc n)
  then have "ip AND depth_to_mask (Suc n) = ip' AND depth_to_mask (Suc n)"
    by (intro same_prefix_shorter [OF assms(1)]) (use assms(3) in auto)
  then show ?case using Suc by (simp split: option.splits)
qed simp

lemma div_range_iff: "0 < m \<Longrightarrow> (x div m = q) \<longleftrightarrow> q * m \<le> x \<and> x < q * m + m" for m :: nat
  by (metis add.commute div_nat_eqI div_times_less_eq_dividend dividend_less_div_times mult.commute mult_Suc)

lemma masked_eq_iff:
  assumes "1 \<le> d" "d \<le> 32" "p AND depth_to_mask d = p"
  shows "ip AND depth_to_mask d = p \<longleftrightarrow> unat p \<le> unat ip \<and> unat ip < unat p + 2 ^ (32 - d)"
proof -
  let ?m = "2 ^ (32 - d) :: nat"
  have p: "unat p = unat p div ?m * ?m" using unat_and_depth_to_mask [OF assms(1,2), of p] assms(3) by simp
  have "ip AND depth_to_mask d = p \<longleftrightarrow> unat (ip AND depth_to_mask d) = unat p"
    by (simp add: word_unat_eq_iff)
  also have "\<dots> \<longleftrightarrow> unat ip div ?m * ?m = unat p div ?m * ?m"
    using unat_and_depth_to_mask [OF assms(1,2)] p by metis
  also have "\<dots> \<longleftrightarrow> unat ip div ?m = unat p div ?m" by simp
  also have "\<dots> \<longleftrightarrow> unat p \<le> unat ip \<and> unat ip < unat p + ?m"
    by (subst div_range_iff) (use p in auto)
  finally show ?thesis .
qed

text \<open>A prefix of depth at most 24 is a run of /24 blocks; a longer one is a run inside a block.\<close>

lemma covers_small:
  assumes "1 \<le> d" "d \<le> 24" "p AND depth_to_mask d = p"
  shows "ip AND depth_to_mask d = p \<longleftrightarrow>
    unat p div 256 \<le> unat ip div 256 \<and> unat ip div 256 < unat p div 256 + 2 ^ (24 - d)"
proof -
  let ?q = "2 ^ (24 - d) :: nat"
  have m: "2 ^ (32 - d) = ?q * (256 :: nat)"
  proof -
    have "32 - d = (24 - d) + 8" using assms(2) by simp
    then show ?thesis by (simp only: power_add) simp
  qed
  have "unat p = unat p div (?q * 256) * (?q * 256)"
    using unat_and_depth_to_mask [of d p] assms m by simp
  then obtain P where P: "unat p = P * ?q * 256" by (metis mult.assoc)
  have "ip AND depth_to_mask d = p \<longleftrightarrow> P * ?q * 256 \<le> unat ip \<and> unat ip < P * ?q * 256 + ?q * 256"
    using masked_eq_iff [of d p ip] assms m P by simp
  also have "\<dots> \<longleftrightarrow> P * ?q \<le> unat ip div 256 \<and> unat ip div 256 < P * ?q + ?q"
    using less_eq_div_iff_mult_less_eq [of 256 "P * ?q" "unat ip"]
      div_less_iff_less_mult [of 256 "unat ip" "P * ?q + ?q"] by (simp add: add_mult_distrib)
  finally show ?thesis using P by simp
qed

lemma block_in_range:
  assumes "1 \<le> d" "d \<le> 24" "p AND depth_to_mask d = p"
  shows "unat p div 256 + 2 ^ (24 - d) \<le> 2 ^ 24"
proof -
  let ?q = "2 ^ (24 - d) :: nat"
  have "2 ^ (32 - d) = ?q * (256 :: nat)"
  proof -
    have "32 - d = (24 - d) + 8" using assms(2) by simp
    then show ?thesis by (simp only: power_add) simp
  qed
  then have "unat p = unat p div (?q * 256) * (?q * 256)"
    using unat_and_depth_to_mask [of d p] assms by simp
  then obtain P where P: "unat p = P * ?q * 256" by (metis mult.assoc)
  have two: "?q * 2 ^ d = 2 ^ 24" using assms(2) by (metis le_add_diff_inverse2 power_add)
  have "unat p < 2 ^ 32" using unsigned_less [of p, where 'a = nat] by simp
  then have "P * ?q < 2 ^ d * ?q" using P two by (simp add: mult.commute)
  then have "P < 2 ^ d" by simp
  then have "Suc P * ?q \<le> 2 ^ d * ?q" by (intro mult_le_mono1) simp
  then show ?thesis using P two by (simp add: mult.commute)
qed

lemma covers_big:
  assumes "24 < d" "d \<le> 32" "p AND depth_to_mask d = p"
  shows "unat p mod 256 + 2 ^ (32 - d) \<le> 256"
    "ip AND depth_to_mask d = p \<longleftrightarrow>
    unat ip div 256 = unat p div 256 \<and>
    unat p mod 256 \<le> unat ip mod 256 \<and> unat ip mod 256 < unat p mod 256 + 2 ^ (32 - d)"
proof -
  let ?m = "2 ^ (32 - d) :: nat" and ?r = "2 ^ (d - 24) :: nat"
  have m: "256 = ?m * ?r" 
  proof -
    have "32 - d + (d - 24) = 8" using assms by simp
    then have "?m * ?r = 2 ^ 8" by (metis power_add)
    then show ?thesis by simp
  qed
  have mpos: "0 < ?m" "?m dvd 256" unfolding m by simp_all
  have "unat p = unat p div ?m * ?m"
    using unat_and_depth_to_mask [of d p] assms by simp
  then have pd: "?m dvd unat p" by (metis dvd_triv_right)
  then have pmd: "?m dvd unat p mod 256" using mpos by (simp add: dvd_mod)
  show le: "unat p mod 256 + ?m \<le> 256"
  proof -
    obtain a where a: "unat p mod 256 = ?m * a" using pmd by auto
    have "?m * a < ?m * ?r" using a m mod_less_divisor [of 256 "unat p"] by simp
    then have "?m * Suc a \<le> ?m * ?r" by (intro mult_le_mono2) simp
    then show ?thesis using a m by simp
  qed
  show "ip AND depth_to_mask d = p \<longleftrightarrow>
    unat ip div 256 = unat p div 256 \<and>
    unat p mod 256 \<le> unat ip mod 256 \<and> unat ip mod 256 < unat p mod 256 + ?m"
  proof -
    have "ip AND depth_to_mask d = p \<longleftrightarrow> unat p \<le> unat ip \<and> unat ip < unat p + ?m"
      using masked_eq_iff [of d p ip] assms by simp
    moreover have "unat p = 256 * (unat p div 256) + unat p mod 256"
      "unat ip = 256 * (unat ip div 256) + unat ip mod 256" by simp_all
    moreover have "unat ip mod 256 < 256" by simp
    moreover have "(256 * B + L \<le> 256 * b + l \<and> 256 * b + l < 256 * B + L + k) \<longleftrightarrow> b = B \<and> L \<le> l \<and> l < L + k"
      if "L + k \<le> 256" "l < 256" for B L b l k :: nat
    proof -
      have "b = B" if "256 * B + L \<le> 256 * b + l" "256 * b + l < 256 * B + L + k"
        using that \<open>L + k \<le> 256\<close> \<open>l < 256\<close> by linarith
      then show ?thesis by auto
    qed
    ultimately show ?thesis using le by metis
  qed
qed

end
