(* ===== verification/Route_Table.thy ===== *)
theory Route_Table
  imports Lpm_Prefix
begin

unbundle bit_operations_syntax

text \<open>
  The contract of a longest-prefix-match table, as the clients of
  \<open>rte_lpm_add\<close>, \<open>rte_lpm_delete\<close>, \<open>rte_lpm_is_rule_present\<close> and
  \<open>rte_lpm_lookup\<close> rely on it: the table is a map \<open>routes\<close> from a depth and a
  masked address to a next hop, an addition changes it at one point or fails
  without effect, and a lookup returns the longest match.  \<open>safe\<close> is the
  condition under which the provider promises a deletion.
\<close>

locale route_table =
  fixes ok :: "'t \<Rightarrow> bool"
    and routes :: "'t \<Rightarrow> nat \<Rightarrow> u32 \<Rightarrow> u8 option"
    and add :: "'t \<Rightarrow> u32 \<Rightarrow> nat \<Rightarrow> u8 \<Rightarrow> int \<times> 't"
    and del :: "'t \<Rightarrow> u32 \<Rightarrow> nat \<Rightarrow> int \<times> 't"
    and present :: "'t \<Rightarrow> u32 \<Rightarrow> nat \<Rightarrow> int \<times> u8 option"
    and lookup :: "'t \<Rightarrow> u32 \<Rightarrow> int \<times> u8"
    and safe :: "'t \<Rightarrow> u32 \<Rightarrow> nat \<Rightarrow> bool"
  assumes add_cases: "ok t \<Longrightarrow> 1 \<le> d \<Longrightarrow> d \<le> 32 \<Longrightarrow> add t ip d h = (r, t') \<Longrightarrow> ok t' \<and>
      (r = 0 \<and> routes t' = (routes t)(d := (routes t d)(ip AND depth_to_mask d \<mapsto> h)) \<or>
       r < 0 \<and> routes t' = routes t \<and> routes t d (ip AND depth_to_mask d) = None)"
    and del_safe: "ok t \<Longrightarrow> 1 \<le> d \<Longrightarrow> d \<le> 32 \<Longrightarrow> routes t d (ip AND depth_to_mask d) \<noteq> None \<Longrightarrow>
      safe t ip d \<Longrightarrow> \<exists>t'. del t ip d = (0, t') \<and> ok t' \<and>
        routes t' = (routes t)(d := (routes t d)(ip AND depth_to_mask d := None))"
    and present_eq: "ok t \<Longrightarrow> 1 \<le> d \<Longrightarrow> d \<le> 32 \<Longrightarrow>
      present t ip d = (case routes t d (ip AND depth_to_mask d) of None \<Rightarrow> (0, None) | Some h \<Rightarrow> (1, Some h))"
    and lookup_eq: "ok t \<Longrightarrow> case longest (routes t) ip 32 of
        None \<Rightarrow> fst (lookup t ip) < 0 | Some (h, d) \<Rightarrow> lookup t ip = (0, h)"
begin

lemma lookup_None: "ok t \<Longrightarrow> fst (lookup t ip) < 0 \<longleftrightarrow> longest (routes t) ip 32 = None"
  using lookup_eq [of t ip] by (auto split: option.splits)

lemma lookup_Some: "ok t \<Longrightarrow> longest (routes t) ip 32 = Some (h, d) \<Longrightarrow> lookup t ip = (0, h)"
  using lookup_eq [of t ip] by simp

text \<open>A next hop found by a lookup is the next hop of some route.\<close>

lemma lookup_hop:
  assumes "ok t" "lookup t ip = (0, h)"
  shows "\<exists>d. 1 \<le> d \<and> d \<le> 32 \<and> routes t d (ip AND depth_to_mask d) = Some h"
proof -
  have "longest (routes t) ip 32 \<noteq> None" using lookup_None [OF assms(1), of ip] assms(2) by simp
  then obtain h' d where l: "longest (routes t) ip 32 = Some (h', d)" by auto
  then show ?thesis using lookup_Some [OF assms(1) l] assms(2) longest_SomeD [OF l] by auto
qed

text \<open>A successful addition answers for its prefix, except where a deeper route does.\<close>

lemma lookup_add:
  assumes "ok t" "1 \<le> d" "d \<le> 32" "add t ip d h = (0, t')" "x AND depth_to_mask d = ip AND depth_to_mask d"
  shows "lookup t' x = (case longest (routes t) x 32 of
      Some (h', d') \<Rightarrow> if d < d' then (0, h') else (0, h) | None \<Rightarrow> (0, h))"
proof -
  have ok': "ok t'" and r: "routes t' = (routes t)(d := (routes t d)(ip AND depth_to_mask d \<mapsto> h))"
    using add_cases [OF assms(1-4)] by auto
  have l: "longest (routes t') x 32 = supersede d (longest (routes t) x 32) (Some (h, d))"
    unfolding r longest_upd [OF assms(2,3)] using assms(5) by simp
  then obtain h' d' where "longest (routes t') x 32 = Some (h', d')"
    by (auto simp: supersede_def split: option.splits if_splits)
  from lookup_Some [OF ok' this] l this show ?thesis
    by (auto simp: supersede_def split: option.splits if_splits)
qed

lemma longest_add_outside:
  assumes "ok t" "1 \<le> d" "d \<le> 32" "add t ip d h = (r, t')" "x AND depth_to_mask d \<noteq> ip AND depth_to_mask d"
  shows "longest (routes t') x 32 = longest (routes t) x 32"
  using add_cases [OF assms(1-4)] assms(5) longest_upd [OF assms(2,3), where R = "routes t"] by auto

text \<open>Deleting a route just added, where there was none, restores the routes.\<close>

lemma add_del:
  assumes "ok t" "1 \<le> d" "d \<le> 32" "add t ip d h = (0, t')" "routes t d (ip AND depth_to_mask d) = None"
    and "safe t' ip d"
  shows "\<exists>t''. del t' ip d = (0, t'') \<and> ok t'' \<and> routes t'' = routes t"
proof -
  have ok': "ok t'" and r: "routes t' = (routes t)(d := (routes t d)(ip AND depth_to_mask d \<mapsto> h))"
    using add_cases [OF assms(1-4)] by auto
  have ne: "routes t' d (ip AND depth_to_mask d) \<noteq> None" by (simp add: r)
  obtain t'' where t'': "del t' ip d = (0, t'')" "ok t''"
    "routes t'' = (routes t')(d := (routes t' d)(ip AND depth_to_mask d := None))"
    using del_safe [OF ok' assms(2,3) ne assms(6)] by blast
  have "routes t'' = routes t" using t''(3) assms(5) by (auto simp: r fun_eq_iff)
  then show ?thesis using t'' by blast
qed

end

section \<open>Reference counts over a route table\<close>

text \<open>The number of routes to a next hop.\<close>

definition hop_users :: "(nat \<Rightarrow> u32 \<Rightarrow> u8 option) \<Rightarrow> u8 \<Rightarrow> nat" where
  "hop_users R h = card {(d, p). R d p = Some h}"

definition route_set :: "(nat \<Rightarrow> u32 \<Rightarrow> u8 option) \<Rightarrow> (nat \<times> u32) set" where
  "route_set R = {(d, p). R d p \<noteq> None}"

lemma hop_set_finite: "finite (route_set R) \<Longrightarrow> finite {(d, p). R d p = Some h}"
  by (rule finite_subset [of _ "route_set R"]) (auto simp: route_set_def)

lemma hop_users_le: "finite (route_set R) \<Longrightarrow> hop_users R h \<le> card (route_set R)"
  unfolding hop_users_def by (rule card_mono) (auto simp: route_set_def)

lemma hop_users_0: "finite (route_set R) \<Longrightarrow> hop_users R h = 0 \<longleftrightarrow> (\<forall>d p. R d p \<noteq> Some h)"
  using hop_set_finite [of R h] by (auto simp: hop_users_def)

lemma hop_users_empty [simp]: "hop_users (\<lambda>_ _. None) h = 0"
  by (simp add: hop_users_def)

lemma card_if_insert:
  "finite A \<Longrightarrow> x \<notin> A \<Longrightarrow> card (if c then insert x A else A) = card A + (if c then 1 else 0)"
  by simp

lemma hop_users_split:
  assumes "finite (route_set R)"
  shows "hop_users R g = card ({(d, p). R d p = Some g} - {(d, p)}) + (if R d p = Some g then 1 else 0)"
proof -
  have "{(d, p). R d p = Some g} =
    (if R d p = Some g then insert (d, p) ({(d, p). R d p = Some g} - {(d, p)})
     else {(d, p). R d p = Some g} - {(d, p)})" by (auto split: if_splits)
  then have "hop_users R g = card (if R d p = Some g
    then insert (d, p) ({(d, p). R d p = Some g} - {(d, p)}) else {(d, p). R d p = Some g} - {(d, p)})"
    unfolding hop_users_def by (rule arg_cong)
  then show ?thesis using hop_set_finite [OF assms, of g] by (subst (asm) card_if_insert) auto
qed

lemma hop_users_upd:
  assumes "finite (route_set R)"
  shows "hop_users (R(d := (R d)(p \<mapsto> h))) g + (if R d p = Some g then 1 else 0) =
    hop_users R g + (if g = h then 1 else 0)"
proof -
  let ?R = "R(d := (R d)(p \<mapsto> h))"
  have "finite (route_set ?R)"
    by (rule finite_subset [of _ "insert (d, p) (route_set R)"]) (use assms in \<open>auto simp: route_set_def split: if_splits\<close>)
  note hop_users_split [OF this, of g d p] hop_users_split [OF assms, of g d p]
  moreover have "{(d', p'). ?R d' p' = Some g} - {(d, p)} = {(d', p'). R d' p' = Some g} - {(d, p)}"
    by (auto split: if_splits)
  ultimately show ?thesis by auto
qed

lemma hop_users_clear:
  assumes "finite (route_set R)"
  shows "hop_users (R(d := (R d)(p := None))) g + (if R d p = Some g then 1 else 0) = hop_users R g"
proof -
  let ?R = "R(d := (R d)(p := None))"
  have "finite (route_set ?R)"
    by (rule finite_subset [OF _ assms]) (auto simp: route_set_def split: if_splits)
  note hop_users_split [OF this, of g d p] hop_users_split [OF assms, of g d p]
  moreover have "{(d', p'). ?R d' p' = Some g} - {(d, p)} = {(d', p'). R d' p' = Some g} - {(d, p)}"
    by (auto split: if_splits)
  ultimately show ?thesis by auto
qed

text \<open>
  A client that counts the users of each next hop in 32-bit words needs the
  table to stay below \<open>2 ^ 32\<close> routes.
\<close>

locale counted_route_table = route_table +
  assumes few: "ok t \<Longrightarrow> finite (route_set (routes t)) \<and> card (route_set (routes t)) < 2 ^ 32"
begin

lemma users_positive:
  assumes "ok t"
  shows "(of_nat (hop_users (routes t) h) :: u32) = 0 \<longleftrightarrow> (\<forall>d p. routes t d p \<noteq> Some h)"
proof -
  have "hop_users (routes t) h < 2 ^ 32"
    using hop_users_le [of "routes t" h] few [OF assms] by simp
  then have "(of_nat (hop_users (routes t) h) :: u32) = 0 \<longleftrightarrow> hop_users (routes t) h = 0"
    by (simp add: word_of_nat_eq_0_iff) (metis gr0I nat_dvd_not_less dvd_0_right)
  then show ?thesis using few [OF assms] by (simp add: hop_users_0)
qed

lemma users_add:
  assumes "ok t" "1 \<le> d" "d \<le> 32" "add t ip d h = (0, t')"
  shows "(of_nat (hop_users (routes t') g) :: u32) =
    of_nat (hop_users (routes t) g) + (if g = h then 1 else 0)
      - (if routes t d (ip AND depth_to_mask d) = Some g then 1 else 0)"
proof -
  have r: "routes t' = (routes t)(d := (routes t d)(ip AND depth_to_mask d \<mapsto> h))"
    using add_cases [OF assms] by auto
  have "of_nat (hop_users (routes t') g + (if routes t d (ip AND depth_to_mask d) = Some g then 1 else 0)) =
    (of_nat (hop_users (routes t) g + (if g = h then 1 else 0)) :: u32)"
    unfolding r using hop_users_upd [of "routes t" d "ip AND depth_to_mask d" h g] few [OF assms(1)] by simp
  then show ?thesis by (auto simp: algebra_simps split: if_splits)
qed

lemma users_del:
  assumes "ok t" "1 \<le> d" "d \<le> 32" "routes t d (ip AND depth_to_mask d) = Some h" "safe t ip d"
  shows "\<exists>t'. del t ip d = (0, t') \<and> ok t' \<and>
    routes t' = (routes t)(d := (routes t d)(ip AND depth_to_mask d := None)) \<and>
    (\<forall>g. (of_nat (hop_users (routes t') g) :: u32) = of_nat (hop_users (routes t) g) - (if g = h then 1 else 0))"
proof -
  obtain t' where t': "del t ip d = (0, t')" "ok t'"
    "routes t' = (routes t)(d := (routes t d)(ip AND depth_to_mask d := None))"
    using del_safe [OF assms(1-3) _ assms(5)] assms(4) by auto
  have "hop_users (routes t') g + (if g = h then 1 else 0) = hop_users (routes t) g" for g
    unfolding t'(3) using hop_users_clear [of "routes t" d "ip AND depth_to_mask d" g] few [OF assms(1)] assms(4)
    by (auto split: if_splits)
  then have "(of_nat (hop_users (routes t') g) :: u32) = of_nat (hop_users (routes t) g) - (if g = h then 1 else 0)" for g
    by (subst (asm) eq_commute) (simp only: of_nat_add, simp split: if_splits)
  then show ?thesis using t' by blast
qed

end

end
