(* ===== verification/Rte_Lpm_Rules.thy ===== *)
theory Rte_Lpm_Rules
  imports Rte_Lpm "HOL-Library.Multiset"
begin

unbundle bit_operations_syntax

text \<open>
  The rule table of \<open>Rte_Lpm\<close>: the rules of each depth stand in one run of the
  array, the runs in order of depth without gaps.  An added rule makes room by
  moving one rule of every deeper run, a deleted rule is filled up the same way.
  The abstraction \<open>routes\<close> forgets the places: it maps a depth and a masked
  address to a next hop, and the operations are updates of that map.
\<close>

section \<open>Runs of the rule array\<close>

definition seg :: "(nat \<Rightarrow> 'a) \<Rightarrow> nat \<Rightarrow> nat \<Rightarrow> 'a list" where
  "seg t a n = map t [a..<a + n]"

lemma length_seg [simp]: "length (seg t a n) = n"
  by (simp add: seg_def)

lemma seg_nth [simp]: "k < n \<Longrightarrow> seg t a n ! k = t (a + k)"
  by (simp add: seg_def)

lemma seg_upd_out: "p < a \<or> a + n \<le> p \<Longrightarrow> seg (t(p := v)) a n = seg t a n"
  by (auto simp: seg_def)

lemma seg_0 [simp]: "seg t a 0 = []"
  by (simp add: seg_def)

lemma seg_Suc: "seg t a (Suc n) = seg t a n @ [t (a + n)]"
  by (simp add: seg_def)

lemma seg_fill: "k < n \<Longrightarrow> seg (t(a + k := v)) a n = (seg t a n)[k := v]"
  by (rule nth_equalityI) (auto simp: nth_list_update)

lemma seg_rotate: "0 < n \<Longrightarrow> seg (t(a + n := t a)) (a + 1) n = rotate1 (seg t a n)"
  by (rule nth_equalityI) (auto simp: nth_rotate1 mod_Suc)

lemma seg_rotate_back:
  assumes "0 < n" "0 < a"
  shows "seg t a n = rotate1 (seg (t(a - 1 := t (a + n - 1))) (a - 1) n)"
  using assms by (intro nth_equalityI) (auto simp: nth_rotate1 mod_Suc)

lemma seg_cong: "(\<And>k. k < n \<Longrightarrow> t (a + k) = t' (a + k)) \<Longrightarrow> seg t a n = seg t' a n"
  by (rule nth_equalityI) auto

section \<open>Invariant\<close>

definition rule_group :: "rte_lpm \<Rightarrow> nat \<Rightarrow> lpm_rule list" where
  "rule_group lpm i = seg (rules_tbl lpm) (rule_first lpm i) (rule_used lpm i)"

text \<open>The number of rules in the groups before group \<open>i\<close>.\<close>

definition rules_before :: "(nat \<Rightarrow> nat) \<Rightarrow> nat \<Rightarrow> nat" where
  "rules_before u i = sum u {..<i}"

lemma rules_before_simps [simp]:
  "rules_before u 0 = 0" "rules_before u (Suc i) = rules_before u i + u i"
  by (simp_all add: rules_before_def)

lemma rules_before_mono: "i \<le> j \<Longrightarrow> rules_before u i \<le> rules_before u j"
  by (induction j rule: dec_induct) auto

lemma rules_before_end: "i < j \<Longrightarrow> rules_before u i + u i \<le> rules_before u j"
  using rules_before_mono [of "Suc i" j u] by simp

lemma rules_before_upd:
  "rules_before (u(d := v)) i = (if d < i then rules_before u i - u d + v else rules_before u i)"
proof (induction i)
  case (Suc i)
  then show ?case using rules_before_end [of d i u] by (auto simp: less_Suc_eq)
qed simp

abbreviation rules_total :: "rte_lpm \<Rightarrow> nat" where
  "rules_total lpm \<equiv> rules_before (rule_used lpm) 32"

definition rules_ok :: "rte_lpm \<Rightarrow> bool" where
  "rules_ok lpm \<longleftrightarrow>
     (\<forall>e < 32. rule_used lpm e > 0 \<longrightarrow> rule_first lpm e = rules_before (rule_used lpm) e) \<and>
     (\<forall>e < 32. rule_used lpm e = 0 \<longrightarrow> rule_first lpm e < max_rules lpm) \<and>
     rules_total lpm \<le> max_rules lpm \<and>
     (\<forall>e < 32. distinct (map rule_ip (rule_group lpm e)))"

lemma mset_rotate1: "mset (rotate1 xs) = mset xs"
  by (cases xs) auto

lemma rule_make_room_ok:
  assumes "depth \<le> i" "i \<le> 32"
    and "\<forall>e < 32. u e > 0 \<longrightarrow> rule_first lpm e = rules_before u e + (if e \<ge> i then 1 else 0)"
    and "\<forall>e < 32. u e = 0 \<longrightarrow> rule_first lpm e < max_rules lpm"
    and "\<forall>e < 32. rule_used lpm e = u e"
    and "rules_before u 32 < max_rules lpm"
  shows "\<exists>ri rt. rule_make_room i depth lpm = (True, lpm\<lparr>rule_info := ri, rules_tbl := rt\<rparr>) \<and>
    (\<forall>e. used_rules (ri e) = rule_used lpm e) \<and>
    (\<forall>e < 32. u e > 0 \<longrightarrow> first_rule (ri e) = rules_before u e + (if e \<ge> depth then 1 else 0)) \<and>
    (\<forall>e < 32. u e = 0 \<longrightarrow> first_rule (ri e) = rule_first lpm e) \<and>
    (\<forall>e < 32. mset (seg rt (first_rule (ri e)) (u e)) = mset (rule_group lpm e))"
  using assms
proof (induction i depth lpm rule: rule_make_room.induct)
  case (1 i depth lpm)
  note h = 1
  show ?case
  proof (cases "depth < i")
    case False
    then show ?thesis using h(2-)
      by (intro exI [of _ "rule_info lpm"] exI [of _ "rules_tbl lpm"])
        (auto simp: rule_make_room.simps [of i] rule_group_def)
  next
    case True
    define j where "j = i - 1"
    have j: "i = Suc j" "j < 32" "depth \<le> j" using True h(3) by (auto simp: j_def)
    let ?p = "rule_first lpm j + rule_used lpm j"
    have "rules_before u j + u j \<le> rules_before u 32" by (rule rules_before_end) (rule j)
    then have room: "?p \<noteq> max_rules lpm"
      using h(4-) j by (cases "u j > 0") auto
    define lpm1 where "lpm1 = (if rule_used lpm j > 0 then
             set_first j (rule_first lpm j + 1) (set_rule ?p (rules_tbl lpm (rule_first lpm j)) lpm)
           else lpm)"
    have step: "rule_make_room i depth lpm = rule_make_room j depth lpm1"
      using True room by (simp add: rule_make_room.simps [of i] lpm1_def j_def)
    have shape: "lpm1 = lpm\<lparr>rule_info := rule_info lpm1, rules_tbl := rules_tbl lpm1\<rparr>"
      by (simp add: lpm1_def)
    have used: "rule_used lpm1 e = rule_used lpm e" for e by (simp add: lpm1_def)
    have first: "rule_first lpm1 e = (if e = j \<and> u j > 0 then rule_first lpm e + 1 else rule_first lpm e)" for e
      using h(6) j by (simp add: lpm1_def)
    have groups: "mset (rule_group lpm1 e) = mset (rule_group lpm e)" if "e < 32" for e
    proof (cases "u j = 0")
      case True
      then show ?thesis using h(6) j by (simp add: lpm1_def)
    next
      case pos: False
      have pj: "?p = rules_before u j + u j" using pos h(4,6) j by auto
      consider "e = j" | "u e = 0" | "e \<noteq> j" "u e > 0" by auto
      then show ?thesis
      proof cases
        case 1
        then show ?thesis using pos h(6) j
          by (simp add: rule_group_def lpm1_def seg_rotate [simplified] mset_rotate1)
      next
        case 2
        then show ?thesis using \<open>e < 32\<close> used [of e] h(6) by (simp add: rule_group_def)
      next
        case 3
        have "?p < rule_first lpm e \<or> rule_first lpm e + rule_used lpm e \<le> ?p"
        proof (cases "e < j")
          case True
          then have "rule_first lpm e + rule_used lpm e = rules_before u e + u e"
            using h(4,6) 3 \<open>e < 32\<close> j by auto
          then show ?thesis using rules_before_end [OF True, of u] pj by simp
        next
          case False
          then have "j < e" using 3 by simp
          then have "rule_first lpm e = rules_before u e + 1" using h(4) 3 \<open>e < 32\<close> j by auto
          then show ?thesis using rules_before_end [OF \<open>j < e\<close>, of u] pj by simp
        qed
        then show ?thesis using 3 by (simp add: rule_group_def lpm1_def seg_upd_out)
      qed
    qed
    have "\<exists>ri rt. rule_make_room j depth lpm1 = (True, lpm1\<lparr>rule_info := ri, rules_tbl := rt\<rparr>) \<and>
      (\<forall>e. used_rules (ri e) = rule_used lpm1 e) \<and>
      (\<forall>e < 32. u e > 0 \<longrightarrow> first_rule (ri e) = rules_before u e + (if e \<ge> depth then 1 else 0)) \<and>
      (\<forall>e < 32. u e = 0 \<longrightarrow> first_rule (ri e) = rule_first lpm1 e) \<and>
      (\<forall>e < 32. mset (seg rt (first_rule (ri e)) (u e)) = mset (rule_group lpm1 e))"
    proof -
      have ih: "depth \<le> j \<Longrightarrow> j \<le> 32 \<Longrightarrow>
        \<forall>e < 32. u e > 0 \<longrightarrow> rule_first lpm1 e = rules_before u e + (if e \<ge> j then 1 else 0) \<Longrightarrow>
        \<forall>e < 32. u e = 0 \<longrightarrow> rule_first lpm1 e < max_rules lpm1 \<Longrightarrow>
        \<forall>e < 32. rule_used lpm1 e = u e \<Longrightarrow> rules_before u 32 < max_rules lpm1 \<Longrightarrow> ?thesis"
        using h(1) True room unfolding lpm1_def j_def by simp
      have fi: "\<forall>e < 32. u e > 0 \<longrightarrow> rule_first lpm1 e = rules_before u e + (if e \<ge> j then 1 else 0)"
      proof (intro allI impI)
        fix e assume "e < 32" "u e > 0"
        with h(4) have "rule_first lpm e = rules_before u e + (if e \<ge> i then 1 else 0)" by blast
        then show "rule_first lpm1 e = rules_before u e + (if e \<ge> j then 1 else 0)"
          using \<open>u e > 0\<close> j(1) by (cases "e = j") (simp_all add: first le_less)
      qed
      have "max_rules lpm1 = max_rules lpm" by (simp add: lpm1_def)
      then show ?thesis using ih j fi h(5-7) by (simp add: used first)
    qed
    then obtain ri rt where r: "rule_make_room j depth lpm1 = (True, lpm1\<lparr>rule_info := ri, rules_tbl := rt\<rparr>)"
      "\<forall>e. used_rules (ri e) = rule_used lpm1 e"
      "\<forall>e < 32. u e > 0 \<longrightarrow> first_rule (ri e) = rules_before u e + (if e \<ge> depth then 1 else 0)"
      "\<forall>e < 32. u e = 0 \<longrightarrow> first_rule (ri e) = rule_first lpm1 e"
      "\<forall>e < 32. mset (seg rt (first_rule (ri e)) (u e)) = mset (rule_group lpm1 e)" by blast
    have "lpm1\<lparr>rule_info := ri, rules_tbl := rt\<rparr> = lpm\<lparr>rule_info := ri, rules_tbl := rt\<rparr>"
      by (subst shape) simp
    then show ?thesis using r step used groups first by (intro exI [of _ ri] exI [of _ rt]) simp
  qed
qed

lemma rule_make_room_full:
  assumes "depth \<le> i" "i \<le> 32"
    and "\<forall>e < 32. rule_used lpm e > 0 \<longrightarrow> rule_first lpm e = rules_before (rule_used lpm) e"
    and "rules_before (rule_used lpm) i = max_rules lpm"
    and "rules_before (rule_used lpm) depth < max_rules lpm"
  shows "rule_make_room i depth lpm = (False, lpm)"
  using assms
proof (induction "i - depth" arbitrary: i)
  case 0
  then show ?case by simp
next
  case (Suc n)
  then obtain j where j: "i = Suc j" "j < 32" "depth \<le> j" by (cases i) auto
  show ?case
  proof (cases "rule_used lpm j > 0")
    case True
    then have "rule_first lpm j + rule_used lpm j = max_rules lpm" using Suc.prems j by auto
    then show ?thesis using j by (simp add: rule_make_room.simps [of "Suc j"])
  next
    case False
    then have "rule_make_room j depth lpm = (False, lpm)" using Suc j by simp
    then show ?thesis using j False by (simp add: rule_make_room.simps [of "Suc j"])
  qed
qed

section \<open>Routes\<close>

text \<open>The rules as a map from a depth and a masked address to a next hop.\<close>

definition routes :: "rte_lpm \<Rightarrow> nat \<Rightarrow> u32 \<Rightarrow> u8 option" where
  "routes lpm d ip =
    (if 1 \<le> d \<and> d \<le> 32
     then map_of (map (\<lambda>r. (rule_ip r, rule_next_hop r)) (rule_group lpm (d - 1))) ip else None)"

lemma find_map_of:
  "map_of (map (\<lambda>i. (f i, g i)) xs) k = map_option g (List.find (\<lambda>i. f i = k) xs)"
  by (induction xs) auto

lemma routes_scan:
  "1 \<le> d \<Longrightarrow> d \<le> 32 \<Longrightarrow>
    routes lpm d ip = map_option (\<lambda>i. rule_next_hop (rules_tbl lpm i)) (rule_scan lpm ip d)"
  by (simp add: routes_def rule_scan_def rule_group_def seg_def comp_def find_map_of)

lemma rule_scan_SomeD:
  assumes "rule_scan lpm ip d = Some i"
  obtains k where "k < rule_used lpm (d - 1)" "i = rule_first lpm (d - 1) + k"
    "rule_ip (rules_tbl lpm i) = ip"
proof -
  have i: "i \<in> set [rule_first lpm (d - 1)..<rule_first lpm (d - 1) + rule_used lpm (d - 1)]"
    and ip: "rule_ip (rules_tbl lpm i) = ip"
    using assms by (auto simp: rule_scan_def find_Some_iff in_set_conv_nth)
  show ?thesis by (rule that [of "i - rule_first lpm (d - 1)"]) (use i ip in auto)
qed

lemma rule_scan_None:
  "rule_scan lpm ip d = None \<longleftrightarrow> ip \<notin> rule_ip ` set (rule_group lpm (d - 1))"
  by (auto simp: rule_scan_def find_None_iff rule_group_def seg_def image_iff)

lemma rule_scan_unique:
  assumes "distinct (map rule_ip (rule_group lpm (d - 1)))" "k < rule_used lpm (d - 1)"
    and "rule_ip (rules_tbl lpm (rule_first lpm (d - 1) + k)) = ip"
  shows "rule_scan lpm ip d = Some (rule_first lpm (d - 1) + k)"
proof (cases "rule_scan lpm ip d")
  case None
  have "rules_tbl lpm (rule_first lpm (d - 1) + k) \<in> set (rule_group lpm (d - 1))"
    using assms(2) by (auto simp: rule_group_def seg_def)
  then show ?thesis using None assms(3) by (auto simp: rule_scan_None)
next
  case (Some i)
  then obtain k' where k': "k' < rule_used lpm (d - 1)" "i = rule_first lpm (d - 1) + k'"
    "rule_ip (rules_tbl lpm i) = ip" by (rule rule_scan_SomeD)
  then have "map rule_ip (rule_group lpm (d - 1)) ! k' = map rule_ip (rule_group lpm (d - 1)) ! k"
    using assms(2,3) by (simp add: rule_group_def)
  then have "k' = k" using assms(1,2) k'(1)
    by (subst (asm) nth_eq_iff_index_eq) (auto simp: rule_group_def)
  then show ?thesis using Some k' by simp
qed

lemma map_of_mset_cong:
  assumes "mset xs = mset ys" "distinct (map f xs)"
  shows "map_of (map (\<lambda>r. (f r, g r)) xs) = map_of (map (\<lambda>r. (f r, g r)) ys)"
proof
  fix k
  have "distinct (map f ys)" using assms by (metis mset_eq_imp_distinct_iff mset_map)
  moreover have "set xs = set ys" using assms(1) by (rule mset_eq_setD)
  ultimately have "map_of (map (\<lambda>r. (f r, g r)) xs) k = Some v \<longleftrightarrow>
      map_of (map (\<lambda>r. (f r, g r)) ys) k = Some v" for v
    using assms(2) by (simp add: map_of_eq_Some_iff comp_def)
  then show "map_of (map (\<lambda>r. (f r, g r)) xs) k = map_of (map (\<lambda>r. (f r, g r)) ys) k"
    by (metis not_None_eq)
qed

lemma rule_position_eq:
  assumes "\<forall>e < 32. rule_used lpm e > 0 \<longrightarrow> rule_first lpm e = rules_before (rule_used lpm) e" "i \<le> 32"
  shows "rule_position lpm i = rules_before (rule_used lpm) i"
  using assms by (induction i) auto

text \<open>Groups that agree up to order give the same routes.\<close>

lemma routes_mset_cong:
  assumes "\<forall>e < 32. mset (rule_group lpm' e) = mset (rule_group lpm e)"
    and "\<forall>e < 32. distinct (map rule_ip (rule_group lpm e))"
  shows "routes lpm' = routes lpm" "\<forall>e < 32. distinct (map rule_ip (rule_group lpm' e))"
proof -
  have "routes lpm' d ip = routes lpm d ip" for d ip
    using assms map_of_mset_cong [of "rule_group lpm (d - 1)" "rule_group lpm' (d - 1)" rule_ip rule_next_hop]
    by (auto simp: routes_def)
  then show "routes lpm' = routes lpm" by blast
  show "\<forall>e < 32. distinct (map rule_ip (rule_group lpm' e))"
    using assms by (metis mset_eq_imp_distinct_iff mset_map)
qed

lemma routes_push:
  assumes "1 \<le> d" "d \<le> 32"
    and "\<forall>e < 32. e \<noteq> d - 1 \<longrightarrow> mset (rule_group lpm' e) = mset (rule_group lpm e)"
    and "mset (rule_group lpm' (d - 1)) = add_mset \<lparr>rule_ip = ip, rule_next_hop = hop\<rparr> (mset (rule_group lpm (d - 1)))"
    and "\<forall>e < 32. distinct (map rule_ip (rule_group lpm e))"
    and "ip \<notin> rule_ip ` set (rule_group lpm (d - 1))"
  shows "routes lpm' = (routes lpm)(d := (routes lpm d)(ip \<mapsto> hop))"
    "\<forall>e < 32. distinct (map rule_ip (rule_group lpm' e))"
proof -
  let ?r = "\<lparr>rule_ip = ip, rule_next_hop = hop\<rparr>"
  have m: "mset (rule_group lpm' (d - 1)) = mset (?r # rule_group lpm (d - 1))" using assms(4) by simp
  have dist: "distinct (map rule_ip (?r # rule_group lpm (d - 1)))" using assms by simp
  have "routes lpm' d' x = ((routes lpm)(d := (routes lpm d)(ip \<mapsto> hop))) d' x" for d' x
  proof (cases "d' = d")
    case True
    then show ?thesis using assms(1,2) map_of_mset_cong [OF m [symmetric] dist, of rule_next_hop, THEN fun_cong, of x]
      by (auto simp: routes_def split: if_splits)
  next
    case False
    then show ?thesis
      using assms(1-3,5) map_of_mset_cong [of "rule_group lpm (d' - 1)" "rule_group lpm' (d' - 1)" rule_ip rule_next_hop]
      by (auto simp: routes_def)
  qed
  then show "routes lpm' = (routes lpm)(d := (routes lpm d)(ip \<mapsto> hop))" by blast
  show "\<forall>e < 32. distinct (map rule_ip (rule_group lpm' e))"
  proof (intro allI impI)
    fix e :: nat assume "e < 32"
    then show "distinct (map rule_ip (rule_group lpm' e))"
      using assms(3,5) dist m by (cases "e = d - 1") (metis mset_eq_imp_distinct_iff mset_map)+
  qed
qed

section \<open>Adding a rule\<close>

lemma rules_ok_firstD:
  "rules_ok lpm \<Longrightarrow> \<forall>e < 32. rule_used lpm e > 0 \<longrightarrow> rule_first lpm e = rules_before (rule_used lpm) e"
  by (simp add: rules_ok_def)

lemma rule_insert_ok:
  assumes ok: "rules_ok lpm" and d: "1 \<le> d" "d \<le> 32" and room: "rules_total lpm < max_rules lpm"
    and first: "rule_first lpm (d - 1) = rules_before (rule_used lpm) (d - 1)"
    and new: "ip \<notin> rule_ip ` set (rule_group lpm (d - 1))"
    and i: "i = rules_before (rule_used lpm) d"
  shows "\<exists>ri rt. rule_insert lpm i ip d hop = (int i, lpm\<lparr>rule_info := ri, rules_tbl := rt\<rparr>) \<and>
    rules_ok (lpm\<lparr>rule_info := ri, rules_tbl := rt\<rparr>) \<and>
    routes (lpm\<lparr>rule_info := ri, rules_tbl := rt\<rparr>) = (routes lpm)(d := (routes lpm d)(ip \<mapsto> hop)) \<and>
    rule_scan (lpm\<lparr>rule_info := ri, rules_tbl := rt\<rparr>) ip d = Some i"
proof -
  let ?u = "rule_used lpm" and ?r = "\<lparr>rule_ip = ip, rule_next_hop = hop\<rparr>"
  obtain c where c: "d = Suc c" "c < 32" using d by (cases d) auto
  obtain ri rt where mr: "rule_make_room 32 d lpm = (True, lpm\<lparr>rule_info := ri, rules_tbl := rt\<rparr>)"
    and used: "\<forall>e. used_rules (ri e) = ?u e"
    and fst1: "\<forall>e < 32. ?u e > 0 \<longrightarrow> first_rule (ri e) = rules_before ?u e + (if e \<ge> d then 1 else 0)"
    and fst0: "\<forall>e < 32. ?u e = 0 \<longrightarrow> first_rule (ri e) = rule_first lpm e"
    and grp: "\<forall>e < 32. mset (seg rt (first_rule (ri e)) (?u e)) = mset (rule_group lpm e)"
    using rule_make_room_ok [of d 32 ?u lpm] ok d room by (auto simp: rules_ok_def)
  have fc: "first_rule (ri c) = rules_before ?u c"
    using fst0 fst1 c first by (cases "?u c = 0") auto
  have ic: "i = rules_before ?u c + ?u c" using i c by simp
  let ?ri = "ri(c := (ri c)\<lparr>used_rules := ?u c + 1\<rparr>)" and ?rt = "rt(i := ?r)"
  let ?l = "lpm\<lparr>rule_info := ?ri, rules_tbl := ?rt\<rparr>"
  have run: "rule_insert lpm i ip d hop = (int i, ?l)"
    using mr c used by (simp add: rule_insert_def)
  have same: "rule_group ?l e = seg rt (first_rule (ri e)) (?u e)" if e: "e < 32" "e \<noteq> c" for e
  proof (cases "?u e = 0")
    case True
    then show ?thesis using e used by (simp add: rule_group_def)
  next
    case False
    have "i < first_rule (ri e) \<or> first_rule (ri e) + ?u e \<le> i"
    proof (cases "e < c")
      case True
      then show ?thesis using fst1 e False rules_before_end [OF True, of ?u] c ic by auto
    next
      case ge: False
      then have "c < e" using e by simp
      then show ?thesis using fst1 e False rules_before_end [OF \<open>c < e\<close>, of ?u] c ic by auto
    qed
    then show ?thesis using e used by (simp add: rule_group_def seg_upd_out)
  qed
  have grown: "rule_group ?l c = seg rt (first_rule (ri c)) (?u c) @ [?r]"
    using fc ic by (simp add: rule_group_def seg_Suc seg_upd_out)
  have dist0: "\<forall>e < 32. distinct (map rule_ip (rule_group lpm e))" using ok by (simp add: rules_ok_def)
  have m1: "\<forall>e < 32. e \<noteq> d - 1 \<longrightarrow> mset (rule_group ?l e) = mset (rule_group lpm e)"
    using same grp c by simp
  have m2: "mset (rule_group ?l (d - 1)) = add_mset ?r (mset (rule_group lpm (d - 1)))"
    using grown grp c by simp
  have push: "routes ?l = (routes lpm)(d := (routes lpm d)(ip \<mapsto> hop))"
    "\<forall>e < 32. distinct (map rule_ip (rule_group ?l e))"
    using routes_push [OF d m1 m2 dist0 new] by blast+
  have u': "rule_used ?l = ?u(c := ?u c + 1)" using used by auto
  have before': "rules_before (rule_used ?l) e = rules_before ?u e + (if c < e then 1 else 0)" for e
    unfolding u' rules_before_upd using rules_before_end [of c e ?u] by auto
  have "rules_ok ?l"
    unfolding rules_ok_def before'
  proof (intro conjI allI impI)
    fix e :: nat assume e: "e < 32"
    { assume "rule_used ?l e > 0"
      then show "rule_first ?l e = rules_before ?u e + (if c < e then 1 else 0)"
        using e fst1 fc c used by (cases "e = c") auto }
    { assume "rule_used ?l e = 0"
      then show "rule_first ?l e < max_rules ?l"
        using e fst0 ok c used by (cases "e = c") (auto simp: rules_ok_def) }
    show "distinct (map rule_ip (rule_group ?l e))" using push(2) e by blast
  next
    show "rules_before ?u 32 + (if c < 32 then 1 else 0) \<le> max_rules ?l" using room by auto
  qed
  moreover have "rule_scan ?l ip d = Some i"
    using rule_scan_unique [of ?l d "?u c" ip] push(2) c fc ic by auto
  ultimately show ?thesis using run push(1) by blast
qed

lemma routes_None_iff:
  "1 \<le> d \<Longrightarrow> d \<le> 32 \<Longrightarrow> routes lpm d ip = None \<longleftrightarrow> ip \<notin> rule_ip ` set (rule_group lpm (d - 1))"
  by (simp add: routes_scan rule_scan_None)

lemma rules_group_bound:
  assumes "rules_ok lpm" "e < 32" "k < rule_used lpm e"
  shows "rule_first lpm e + k < rules_total lpm"
  using assms rules_before_end [of e 32 "rule_used lpm"] by (auto simp: rules_ok_def)

text \<open>Two positions of the table that hold rules of different groups differ.\<close>

lemma rules_disjoint:
  assumes "rules_ok lpm" "e < 32" "e' < 32" "e \<noteq> e'" "k < rule_used lpm e" "k' < rule_used lpm e'"
  shows "rule_first lpm e + k \<noteq> rule_first lpm e' + k'"
proof -
  have "rule_first lpm e = rules_before (rule_used lpm) e"
    "rule_first lpm e' = rules_before (rule_used lpm) e'"
    using assms by (auto simp: rules_ok_def)
  then show ?thesis
    using assms(4-6) rules_before_end [of e e' "rule_used lpm"] rules_before_end [of e' e "rule_used lpm"]
    by (cases "e < e'") auto
qed

lemma rule_update_ok:
  fixes hop :: u8
  assumes ok: "rules_ok lpm" and d: "1 \<le> d" "d \<le> 32" and sc: "rule_scan lpm ip d = Some i"
  defines "lpm' \<equiv> set_rule i ((rules_tbl lpm i)\<lparr>rule_next_hop := hop\<rparr>) lpm"
  shows "rules_ok lpm'" "routes lpm' = (routes lpm)(d := (routes lpm d)(ip \<mapsto> hop))"
    "rule_scan lpm' ip d = Some i"
proof -
  obtain k where k: "k < rule_used lpm (d - 1)" "i = rule_first lpm (d - 1) + k"
    "rule_ip (rules_tbl lpm i) = ip" using sc by (rule rule_scan_SomeD)
  have ips: "rule_ip (rules_tbl lpm' j) = rule_ip (rules_tbl lpm j)" for j by (simp add: lpm'_def)
  have info: "rule_info lpm' = rule_info lpm" "max_rules lpm' = max_rules lpm" by (simp_all add: lpm'_def)
  have mg: "map rule_ip (rule_group lpm' e) = map rule_ip (rule_group lpm e)" for e
    by (rule nth_equalityI) (simp_all add: rule_group_def ips info)
  show "rules_ok lpm'" using ok by (simp add: rules_ok_def mg info)
  have scan: "rule_scan lpm' x d' = rule_scan lpm x d'" for x d'
    by (simp add: rule_scan_def ips info)
  then show "rule_scan lpm' ip d = Some i" using sc by simp
  have "routes lpm' d' x = ((routes lpm)(d := (routes lpm d)(ip \<mapsto> hop))) d' x" for d' x
  proof (cases "1 \<le> d' \<and> d' \<le> 32")
    case False
    then show ?thesis using d by (auto simp: routes_def)
  next
    case True
    show ?thesis
    proof (cases "rule_scan lpm x d'")
      case None
      then show ?thesis using True sc by (auto simp: routes_scan scan)
    next
      case (Some j)
      then obtain k' where k': "k' < rule_used lpm (d' - 1)" "j = rule_first lpm (d' - 1) + k'"
        "rule_ip (rules_tbl lpm j) = x" by (rule rule_scan_SomeD)
      show ?thesis
      proof (cases "d' = d")
        case True
        show ?thesis
        proof (cases "x = ip")
          case xe: True
          then show ?thesis using True d sc scan [of ip d] by (simp add: routes_scan) (simp add: lpm'_def)
        next
          case False
          then have "j \<noteq> i" using k(3) k'(3) by blast
          then show ?thesis using True False Some d scan [of x d] by (simp add: routes_scan) (simp add: lpm'_def)
        qed
      next
        case False
        then have "j \<noteq> i"
        proof -
          have "d' - 1 < 32" "d - 1 < 32" "d' - 1 \<noteq> d - 1" using True False d by linarith+
          then show ?thesis
            using rules_disjoint [OF ok, of "d' - 1" "d - 1" k' k] k(1,2) k'(1,2) by blast
        qed
        then show ?thesis using Some True False scan [of x d']
          by (simp add: routes_scan) (simp add: lpm'_def)
      qed
    qed
  qed
  then show "routes lpm' = (routes lpm)(d := (routes lpm d)(ip \<mapsto> hop))" by blast
qed

lemma rules_ok_set_first:
  assumes "rules_ok lpm" "rule_used lpm c = 0" "v < max_rules lpm"
  shows "rules_ok (set_first c v lpm)" "routes (set_first c v lpm) = routes lpm"
proof -
  have u: "rule_used (set_first c v lpm) = rule_used lpm" by auto
  have g: "rule_group (set_first c v lpm) e = rule_group lpm e" for e
    using assms(2) by (simp add: rule_group_def)
  show "rules_ok (set_first c v lpm)"
    unfolding rules_ok_def u g using assms by (auto simp: rules_ok_def)
  show "routes (set_first c v lpm) = routes lpm"
    unfolding routes_def g by (rule refl)
qed

lemma rule_add_ok:
  assumes ok: "rules_ok lpm" and d: "1 \<le> d" "d \<le> 32"
    and room: "routes lpm d ip \<noteq> None \<or> rules_total lpm < max_rules lpm"
  obtains i ri rt where "rule_add lpm ip d hop = (int i, lpm\<lparr>rule_info := ri, rules_tbl := rt\<rparr>)"
    "rules_ok (lpm\<lparr>rule_info := ri, rules_tbl := rt\<rparr>)"
    "routes (lpm\<lparr>rule_info := ri, rules_tbl := rt\<rparr>) = (routes lpm)(d := (routes lpm d)(ip \<mapsto> hop))"
    "rule_scan (lpm\<lparr>rule_info := ri, rules_tbl := rt\<rparr>) ip d = Some i"
proof (cases "rule_scan lpm ip d")
  case (Some i)
  then have "rule_used lpm (d - 1) > 0" by (auto elim: rule_scan_SomeD)
  then have "rule_add lpm ip d hop =
      (int i, lpm\<lparr>rule_info := rule_info lpm,
        rules_tbl := (rules_tbl lpm)(i := (rules_tbl lpm i)\<lparr>rule_next_hop := hop\<rparr>)\<rparr>)"
    using Some by (simp add: rule_add_def)
  then show ?thesis
    using that [of i "(rules_tbl lpm)(i := (rules_tbl lpm i)\<lparr>rule_next_hop := hop\<rparr>)" "rule_info lpm"]
      rule_update_ok [OF ok d Some, of hop] by simp
next
  case None
  then have tot: "rules_total lpm < max_rules lpm" using room d by (simp add: routes_scan)
  have new: "ip \<notin> rule_ip ` set (rule_group lpm (d - 1))" using None by (simp add: rule_scan_None)
  obtain c where c: "d = Suc c" "c < 32" using d by (cases d) auto
  let ?b = "rules_before (rule_used lpm) c"
  have lt: "?b + rule_used lpm c < max_rules lpm"
    using rules_before_end [of c 32 "rule_used lpm"] c tot by simp
  show ?thesis
  proof (cases "rule_used lpm c > 0")
    case True
    then have first: "rule_first lpm c = ?b" using ok c by (auto simp: rules_ok_def)
    then have "rule_add lpm ip d hop = rule_insert lpm (?b + rule_used lpm c) ip d hop"
      using True None lt c by (simp add: rule_add_def)
    then have "rule_add lpm ip d hop = rule_insert lpm (rules_before (rule_used lpm) d) ip d hop"
      using c by simp
    moreover have "rule_first lpm (d - 1) = rules_before (rule_used lpm) (d - 1)" using first c by simp
    ultimately show ?thesis using rule_insert_ok [OF ok d tot _ new refl, of hop] that by metis
  next
    case False
    let ?l = "set_first c ?b lpm"
    have okl: "rules_ok ?l" "routes ?l = routes lpm"
      using rules_ok_set_first [OF ok, of c ?b] False lt by auto
    have u: "rule_used ?l = rule_used lpm" by auto
    have new': "ip \<notin> rule_ip ` set (rule_group ?l (d - 1))"
      using False c by (simp add: rule_group_def)
    have "rule_add lpm ip d hop = rule_insert ?l ?b ip d hop"
      using False lt c rule_position_eq [OF rules_ok_firstD [OF ok], of c] by (simp add: rule_add_def Let_def)
    moreover have "rules_total ?l < max_rules ?l" unfolding u using tot by simp
    moreover have "rule_first ?l (d - 1) = rules_before (rule_used ?l) (d - 1)" unfolding u using c by simp
    moreover have "?b = rules_before (rule_used ?l) d" unfolding u using c False by simp
    ultimately have "\<exists>ri rt. rule_add lpm ip d hop = (int ?b, ?l\<lparr>rule_info := ri, rules_tbl := rt\<rparr>) \<and>
      rules_ok (?l\<lparr>rule_info := ri, rules_tbl := rt\<rparr>) \<and>
      routes (?l\<lparr>rule_info := ri, rules_tbl := rt\<rparr>) = (routes lpm)(d := (routes lpm d)(ip \<mapsto> hop)) \<and>
      rule_scan (?l\<lparr>rule_info := ri, rules_tbl := rt\<rparr>) ip d = Some ?b"
      using rule_insert_ok [OF okl(1) d _ _ new', of ?b hop] unfolding okl(2) by metis
    then show ?thesis using that by (elim exE conjE) (simp add: fun_upd_def)
  qed
qed

lemma rule_add_full:
  assumes ok: "rules_ok lpm" and d: "1 \<le> d" "d \<le> 32"
    and "routes lpm d ip = None" "rules_total lpm = max_rules lpm"
  obtains ri where "rule_add lpm ip d hop = (- ENOSPC, lpm\<lparr>rule_info := ri\<rparr>)"
    "rules_ok (lpm\<lparr>rule_info := ri\<rparr>)" "routes (lpm\<lparr>rule_info := ri\<rparr>) = routes lpm"
proof -
  have None: "rule_scan lpm ip d = None" using assms by (simp add: routes_scan)
  obtain c where c: "d = Suc c" "c < 32" using d by (cases d) auto
  let ?b = "rules_before (rule_used lpm)"
  note pos = rule_position_eq [OF rules_ok_firstD [OF ok], of c]
  show ?thesis
  proof (cases "rule_used lpm c > 0")
    case True
    then have first: "rule_first lpm c = ?b c" using ok c by (auto simp: rules_ok_def)
    show ?thesis
    proof (cases "?b d = max_rules lpm")
      case True': True
      then have "rule_add lpm ip d hop = (- ENOSPC, lpm)"
        using True None c first by (simp add: rule_add_def)
      then show ?thesis using that [of "rule_info lpm"] ok by simp
    next
      case False
      then have "?b d < max_rules lpm" using rules_before_mono [of d 32 "rule_used lpm"] d assms(5) by simp
      then have "rule_make_room 32 d lpm = (False, lpm)"
        using rule_make_room_full [OF d(2) _ rules_ok_firstD [OF ok]] assms(5) by simp
      then have "rule_add lpm ip d hop = (- ENOSPC, lpm)"
        using True None c first False by (simp add: rule_add_def rule_insert_def)
      then show ?thesis using that [of "rule_info lpm"] ok by simp
    qed
  next
    case False
    then have bd: "?b d = ?b c" using c by simp
    let ?l = "set_first c (?b c) lpm"
    have u: "rule_used ?l = rule_used lpm" by auto
    show ?thesis
    proof (cases "?b c = max_rules lpm")
      case True
      then have "rule_add lpm ip d hop = (- ENOSPC, lpm)"
        using False None c pos by (simp add: rule_add_def)
      then show ?thesis using that [of "rule_info lpm"] ok by simp
    next
      case ne: False
      then have lt: "?b c < max_rules lpm" using rules_before_mono [of c 32 "rule_used lpm"] c assms(5) by simp
      note okl = rules_ok_set_first [OF ok, of c "?b c"]
      have okl: "rules_ok ?l" "routes ?l = routes lpm" using okl False lt by auto
      have "rule_make_room 32 d ?l = (False, ?l)"
        using rule_make_room_full [OF d(2) _ rules_ok_firstD [OF okl(1)], unfolded u] assms(5) lt bd by simp
      then have "rule_add lpm ip d hop = (- ENOSPC, ?l)"
        using False ne c pos by (simp add: rule_add_def rule_insert_def)
      then show ?thesis using that okl by simp
    qed
  qed
qed

section \<open>Deleting a rule\<close>

lemma mset_drop_at:
  assumes "k < length xs"
  shows "mset xs = add_mset (xs ! k) (mset (butlast (xs[k := last xs])))"
proof -
  have "mset (xs[k := last xs]) = add_mset (last xs) (mset xs - {#xs ! k#})"
    using assms by (rule mset_update)
  moreover have "xs[k := last xs] = butlast (xs[k := last xs]) @ [last xs]"
  proof -
    have ne: "xs[k := last xs] \<noteq> []" using assms by auto
    moreover have "last (xs[k := last xs]) = last xs"
      using assms ne by (simp add: last_list_update)
    ultimately show ?thesis by (metis append_butlast_last_id)
  qed
  then have "mset (xs[k := last xs]) = add_mset (last xs) (mset (butlast (xs[k := last xs])))"
    by (metis mset_append union_mset_add_mset_right add.right_neutral mset.simps)
  ultimately have "mset (butlast (xs[k := last xs])) = mset xs - {#xs ! k#}" by simp
  then show ?thesis using assms by (simp add: nth_mem)
qed

definition rule_close_step :: "nat \<Rightarrow> rte_lpm \<Rightarrow> rte_lpm" where
  "rule_close_step i lpm =
    (if rule_used lpm i > 0 then
       set_first i (rule_first lpm i - 1)
         (set_rule (rule_first lpm i - 1)
            (rules_tbl lpm (rule_first lpm i + rule_used lpm i - 1)) lpm)
     else lpm)"

lemma rule_close_up:
  assumes c: "c < 32" "u c > 0"
    and laid: "\<forall>e < 32. u e > 0 \<longrightarrow> rule_first lpm e = rules_before u e"
    and used: "\<forall>e. rule_used lpm e = u e" and j: "Suc c \<le> j" "j \<le> 32"
  shows "\<exists>ri rt. for_range (Suc c) j rule_close_step lpm = lpm\<lparr>rule_info := ri, rules_tbl := rt\<rparr> \<and>
    (\<forall>e. used_rules (ri e) = u e) \<and>
    (\<forall>e < 32. u e > 0 \<longrightarrow> first_rule (ri e) = rules_before u e - (if c < e \<and> e < j then 1 else 0)) \<and>
    (\<forall>e < 32. u e = 0 \<longrightarrow> first_rule (ri e) = rule_first lpm e) \<and>
    (\<forall>e < 32. e \<noteq> c \<longrightarrow> mset (seg rt (first_rule (ri e)) (u e)) = mset (rule_group lpm e)) \<and>
    seg rt (first_rule (ri c)) (u c - 1) = seg (rules_tbl lpm) (rule_first lpm c) (u c - 1)"
  using j
proof (induction j rule: dec_induct)
  case base
  show ?case
    using laid used by (intro exI [of _ "rule_info lpm"] exI [of _ "rules_tbl lpm"]) (simp add: rule_group_def)
next
  case (step j)
  then obtain ri rt where r: "for_range (Suc c) j rule_close_step lpm = lpm\<lparr>rule_info := ri, rules_tbl := rt\<rparr>"
    "\<forall>e. used_rules (ri e) = u e"
    "\<forall>e < 32. u e > 0 \<longrightarrow> first_rule (ri e) = rules_before u e - (if c < e \<and> e < j then 1 else 0)"
    "\<forall>e < 32. u e = 0 \<longrightarrow> first_rule (ri e) = rule_first lpm e"
    "\<forall>e < 32. e \<noteq> c \<longrightarrow> mset (seg rt (first_rule (ri e)) (u e)) = mset (rule_group lpm e)"
    "seg rt (first_rule (ri c)) (u c - 1) = seg (rules_tbl lpm) (rule_first lpm c) (u c - 1)" by auto
  have unfold: "for_range (Suc c) (Suc j) rule_close_step lpm =
      rule_close_step j (lpm\<lparr>rule_info := ri, rules_tbl := rt\<rparr>)"
    using step r(1) by (simp add: for_range_last)
  show ?case
  proof (cases "u j = 0")
    case True
    have ih3: "\<forall>e < 32. u e > 0 \<longrightarrow> first_rule (ri e) = rules_before u e - (if c < e \<and> e < Suc j then 1 else 0)"
    proof (intro allI impI)
      fix e :: nat assume e: "e < 32" "0 < u e"
      then have "e \<noteq> j" using True by auto
      then show "first_rule (ri e) = rules_before u e - (if c < e \<and> e < Suc j then 1 else 0)"
        using r(3) e by (simp add: less_Suc_eq)
    qed
    have "rule_close_step j (lpm\<lparr>rule_info := ri, rules_tbl := rt\<rparr>) = lpm\<lparr>rule_info := ri, rules_tbl := rt\<rparr>"
      using True r(2) by (simp add: rule_close_step_def)
    then show ?thesis
      using r(2,4,5,6) ih3 unfold by (intro exI [of _ ri] exI [of _ rt]) simp
  next
    case False
    let ?f = "rules_before u"
    have jj: "c < j" "j < 32" using step by auto
    have bc: "?f c + u c \<le> ?f j" by (rule rules_before_end) (rule jj)
    have fj: "first_rule (ri j) = ?f j" using r(3) False jj by auto
    let ?ri = "ri(j := (ri j)\<lparr>first_rule := ?f j - 1\<rparr>)"
    let ?rt = "rt(?f j - 1 := rt (?f j + u j - 1))"
    have run: "for_range (Suc c) (Suc j) rule_close_step lpm = lpm\<lparr>rule_info := ?ri, rules_tbl := ?rt\<rparr>"
      using False r(2) fj by (simp add: unfold rule_close_step_def)
    have out: "seg ?rt a n = seg rt a n" if "a + n \<le> ?f j - 1 \<or> ?f j \<le> a" for a n
      using that c bc by (intro seg_upd_out) auto
    have pos: "0 < ?f j" using bc c by simp
    have g: "mset (seg ?rt (first_rule (?ri e)) (u e)) = mset (rule_group lpm e)" if e: "e < 32" "e \<noteq> c" for e
    proof -
      consider "e = j" | "u e = 0" | "e \<noteq> j" "u e > 0" by auto
      then show ?thesis
      proof cases
        case 1
        then have "mset (seg ?rt (?f j - 1) (u j)) = mset (seg rt (?f j) (u j))"
          using seg_rotate_back [of "u j" "?f j" rt] False pos by (simp add: mset_rotate1)
        then show ?thesis using 1 r(5) [rule_format, of j] e fj by simp
      next
        case 2
        then show ?thesis using r(5) e by auto
      next
        case 3
        have "first_rule (ri e) + u e \<le> ?f j - 1 \<or> ?f j \<le> first_rule (ri e)"
        proof (cases "e < j")
          case True
          have "?f e + u e \<le> ?f j" by (rule rules_before_end [OF True])
          moreover have "?f e + u e \<le> ?f c" if "e < c" using that by (rule rules_before_end)
          moreover have "?f c + u c \<le> ?f e" if "c < e" using that by (rule rules_before_end)
          ultimately show ?thesis using r(3) e 3 True c bc by (cases "c < e") auto
        next
          case f: False
          then have "j < e" using 3 by simp
          then show ?thesis using r(3) e 3 rules_before_end [OF \<open>j < e\<close>, of u] by auto
        qed
        then show ?thesis using out r(5) e 3 by simp
      qed
    qed
    have gc: "seg ?rt (first_rule (?ri c)) (u c - 1) = seg (rules_tbl lpm) (rule_first lpm c) (u c - 1)"
      using out [of "first_rule (ri c)" "u c - 1"] r(3,6) c bc jj by auto
    have i2: "\<forall>e. used_rules (?ri e) = u e" using r(2) by simp
    have i3: "\<forall>e < 32. u e > 0 \<longrightarrow> first_rule (?ri e) = ?f e - (if c < e \<and> e < Suc j then 1 else 0)"
      using r(3) jj by (auto simp: less_Suc_eq)
    have i4: "\<forall>e < 32. u e = 0 \<longrightarrow> first_rule (?ri e) = rule_first lpm e" using r(4) False by auto
    have i5: "\<forall>e < 32. e \<noteq> c \<longrightarrow> mset (seg ?rt (first_rule (?ri e)) (u e)) = mset (rule_group lpm e)"
      using g by blast
    show ?thesis
      by (intro exI [of _ ?ri] exI [of _ ?rt] conjI run i2 i3 i4 i5 gc)
  qed
qed

lemma rule_delete_ok:
  assumes ok: "rules_ok lpm" and d: "1 \<le> d" "d \<le> 32" and sc: "rule_scan lpm ip d = Some i"
  obtains ri rt where "rule_delete lpm i d = lpm\<lparr>rule_info := ri, rules_tbl := rt\<rparr>"
    "rules_ok (lpm\<lparr>rule_info := ri, rules_tbl := rt\<rparr>)"
    "routes (lpm\<lparr>rule_info := ri, rules_tbl := rt\<rparr>) = (routes lpm)(d := (routes lpm d)(ip := None))"
proof -
  let ?u = "rule_used lpm"
  let ?f = "rules_before ?u"
  obtain c where c: "d = Suc c" "c < 32" using d by (cases d) auto
  obtain k where k: "k < ?u c" "i = rule_first lpm c + k" "rule_ip (rules_tbl lpm i) = ip"
    using sc c by (auto elim: rule_scan_SomeD)
  have uc: "?u c > 0" using k(1) by simp
  have laid: "\<forall>e < 32. ?u e > 0 \<longrightarrow> rule_first lpm e = ?f e" using ok by (rule rules_ok_firstD)
  have fc: "rule_first lpm c = ?f c" using laid c uc by blast
  define l0 where "l0 = set_rule i (rules_tbl lpm (rule_first lpm c + ?u c - 1)) lpm"
  have l0: "rule_info l0 = rule_info lpm" "max_rules l0 = max_rules lpm" by (simp_all add: l0_def)
  have g0: "rule_group l0 e = rule_group lpm e" if "e < 32" "e \<noteq> c" for e
  proof (cases "?u e = 0")
    case False
    then have "rule_first lpm e = ?f e" using laid that by blast
    moreover have "i < ?f e \<or> ?f e + ?u e \<le> i"
      using that k(1,2) fc rules_before_end [of e c ?u] rules_before_end [of c e ?u]
      by (cases "e < c") auto
    ultimately show ?thesis by (simp add: rule_group_def l0_def seg_upd_out)
  qed (simp add: rule_group_def l0)
  have grpc: "rule_group lpm c = seg (rules_tbl lpm) (rule_first lpm c) (?u c)" by (simp add: rule_group_def)
  have lastc: "rules_tbl lpm (rule_first lpm c + ?u c - 1) = last (rule_group lpm c)"
    using uc by (cases "?u c") (simp_all add: grpc seg_Suc)
  have gc0: "rule_group l0 c = (rule_group lpm c)[k := last (rule_group lpm c)]"
    unfolding lastc [symmetric] using k(1,2) by (simp add: l0_def rule_group_def seg_fill)
  have short: "seg (rules_tbl l0) (rule_first l0 c) (?u c - 1) = butlast (rule_group l0 c)"
    using uc by (cases "?u c") (simp_all add: rule_group_def l0 seg_Suc)
  have ms: "mset (rule_group lpm c) =
      add_mset (rule_group lpm c ! k) (mset (seg (rules_tbl l0) (rule_first l0 c) (?u c - 1)))"
    unfolding short gc0 by (rule mset_drop_at) (simp add: grpc k(1))
  obtain ri rt where loop: "for_range (Suc c) 32 rule_close_step l0 = l0\<lparr>rule_info := ri, rules_tbl := rt\<rparr>"
    and r2: "\<forall>e. used_rules (ri e) = ?u e"
    and r3: "\<forall>e < 32. ?u e > 0 \<longrightarrow> first_rule (ri e) = ?f e - (if c < e \<and> e < 32 then 1 else 0)"
    and r4: "\<forall>e < 32. ?u e = 0 \<longrightarrow> first_rule (ri e) = rule_first l0 e"
    and r5: "\<forall>e < 32. e \<noteq> c \<longrightarrow> mset (seg rt (first_rule (ri e)) (?u e)) = mset (rule_group l0 e)"
    and r6: "seg rt (first_rule (ri c)) (?u c - 1) = seg (rules_tbl l0) (rule_first l0 c) (?u c - 1)"
    using rule_close_up [of c ?u l0 32] c uc laid l0 by auto
  let ?ri = "ri(c := (ri c)\<lparr>used_rules := ?u c - 1\<rparr>)"
  let ?l = "lpm\<lparr>rule_info := ?ri, rules_tbl := rt\<rparr>"
  have "rule_delete lpm i d = set_used c (used_rules (ri c) - 1) (l0\<lparr>rule_info := ri, rules_tbl := rt\<rparr>)"
  proof -
    have "rule_delete lpm i d =
        (let lpm = for_range (Suc c) 32 rule_close_step l0 in set_used c (rule_used lpm c - 1) lpm)"
      unfolding rule_delete_def rule_close_step_def [abs_def] l0_def Let_def using c by simp
    then show ?thesis unfolding loop by simp
  qed
  also have "\<dots> = ?l" using r2 by (simp add: l0_def)
  finally have run: "rule_delete lpm i d = ?l" .
  have same: "mset (rule_group ?l e) = mset (rule_group lpm e)" if "e < 32" "e \<noteq> c" for e
    using r5 r2 g0 that by (simp add: rule_group_def)
  have gc: "rule_group ?l c = seg (rules_tbl l0) (rule_first l0 c) (?u c - 1)"
    using r6 by (simp add: rule_group_def)
  have kth: "rule_group lpm c ! k = \<lparr>rule_ip = ip, rule_next_hop = rule_next_hop (rules_tbl lpm i)\<rparr>"
    using k by (simp add: grpc)
  have dist0: "\<forall>e < 32. distinct (map rule_ip (rule_group lpm e))" using ok by (simp add: rules_ok_def)
  have distl: "distinct (ip # map rule_ip (rule_group ?l c))"
  proof -
    have "mset (ip # map rule_ip (rule_group ?l c)) = mset (map rule_ip (rule_group lpm c))"
      using ms kth gc by simp
    then show ?thesis using dist0 c by (metis mset_eq_imp_distinct_iff)
  qed
  have dist1: "\<forall>e < 32. distinct (map rule_ip (rule_group ?l e))"
  proof (intro allI impI)
    fix e :: nat assume e: "e < 32"
    show "distinct (map rule_ip (rule_group ?l e))"
    proof (cases "e = c")
      case False
      then show ?thesis using dist0 same [OF e False] e by (metis mset_eq_imp_distinct_iff mset_map)
    qed (use distl in simp)
  qed
  have m1: "\<forall>e < 32. e \<noteq> d - 1 \<longrightarrow> mset (rule_group lpm e) = mset (rule_group ?l e)"
    using same c by simp
  have m2: "mset (rule_group lpm (d - 1)) =
      add_mset \<lparr>rule_ip = ip, rule_next_hop = rule_next_hop (rules_tbl lpm i)\<rparr> (mset (rule_group ?l (d - 1)))"
    using ms kth gc c by simp
  have new: "ip \<notin> rule_ip ` set (rule_group ?l (d - 1))" using distl c by auto
  have "routes lpm = (routes ?l)(d := (routes ?l d)(ip \<mapsto> rule_next_hop (rules_tbl lpm i)))"
    by (rule routes_push(1) [OF d m1 m2 dist1 new])
  moreover have "routes ?l d ip = None" using new d by (simp add: routes_None_iff)
  ultimately have rts: "routes ?l = (routes lpm)(d := (routes lpm d)(ip := None))"
    by (auto simp: fun_eq_iff)
  have u': "rule_used ?l = ?u(c := ?u c - 1)" using r2 by auto
  have before': "rules_before (rule_used ?l) e = ?f e - (if c < e then 1 else 0)" for e
    unfolding u' rules_before_upd using rules_before_end [of c e ?u] uc by auto
  have "rules_ok ?l"
    unfolding rules_ok_def before'
  proof (intro conjI allI impI)
    fix e :: nat assume e: "e < 32"
    { assume "rule_used ?l e > 0"
      then show "rule_first ?l e = ?f e - (if c < e then 1 else 0)"
        using e r3 uc r2 by (cases "e = c") auto }
    { assume "rule_used ?l e = 0"
      then show "rule_first ?l e < max_rules ?l"
      proof (cases "e = c")
        case True
        have "?f c < ?f 32" using rules_before_end [of c 32 ?u] c uc by simp
        then show ?thesis using True r3 c uc ok by (auto simp: rules_ok_def)
      next
        case False
        then show ?thesis using \<open>rule_used ?l e = 0\<close> r4 r2 e ok l0 by (auto simp: rules_ok_def)
      qed }
    show "distinct (map rule_ip (rule_group ?l e))" using dist1 e by blast
  next
    show "?f 32 - (if c < 32 then 1 else 0) \<le> max_rules ?l" using ok by (auto simp: rules_ok_def)
  qed
  then show ?thesis using that run rts by blast
qed

end
