(* ===== verification/Rte_Lpm_Tables.thy ===== *)
theory Rte_Lpm_Tables
  imports Rte_Lpm_Rules Lpm_Prefix
begin

unbundle bit_operations_syntax

text \<open>
  The lookup tables of \<open>Rte_Lpm\<close> hold, for every address, the longest match of
  the rule table.  The invariant \<open>lpm_ok\<close> says so; each way of adding or
  deleting a prefix is shown to be the same pointwise change of the entries.
\<close>

section \<open>Entries and the invariant\<close>

definition t8_value :: "tbl8_entry \<Rightarrow> (u8 \<times> nat) option" where
  "t8_value e = (if t8_valid e then Some (t8_hop e, t8_depth e) else None)"

text \<open>What the tables hold for the address at offset \<open>l\<close> of block \<open>b\<close>.\<close>

definition block_entry :: "rte_lpm \<Rightarrow> nat \<Rightarrow> nat \<Rightarrow> (u8 \<times> nat) option" where
  "block_entry lpm b l =
    (let e = tbl24 lpm b in
     if t24_valid e then
       if t24_ext e then t8_value (tbl8 lpm (unat (t24_hop e) * 256 + l))
       else Some (t24_hop e, t24_depth e)
     else None)"

abbreviation lpm_entry :: "rte_lpm \<Rightarrow> u32 \<Rightarrow> (u8 \<times> nat) option" where
  "lpm_entry lpm ip \<equiv> block_entry lpm (unat ip div 256) (unat ip mod 256)"

definition block_ext :: "rte_lpm \<Rightarrow> nat \<Rightarrow> bool" where
  "block_ext lpm b \<longleftrightarrow> t24_valid (tbl24 lpm b) \<and> t24_ext (tbl24 lpm b)"

definition block_group :: "rte_lpm \<Rightarrow> nat \<Rightarrow> nat" where
  "block_group lpm b = unat (t24_hop (tbl24 lpm b))"

text \<open>Every extended block has a group of its own, marked as taken.\<close>

definition groups_ok :: "rte_lpm \<Rightarrow> bool" where
  "groups_ok lpm \<longleftrightarrow>
     (\<forall>b < 2 ^ 24. block_ext lpm b \<longrightarrow> t8_valid_group (tbl8 lpm (block_group lpm b * 256))) \<and>
     (\<forall>b < 2 ^ 24. \<forall>b' < 2 ^ 24. block_ext lpm b \<longrightarrow> block_ext lpm b' \<longrightarrow>
        block_group lpm b = block_group lpm b' \<longrightarrow> b = b') \<and>
     (\<forall>b < 2 ^ 24. t24_valid (tbl24 lpm b) \<longrightarrow> \<not> t24_ext (tbl24 lpm b) \<longrightarrow>
        t24_depth (tbl24 lpm b) \<le> 24)"

definition lpm_ok :: "rte_lpm \<Rightarrow> bool" where
  "lpm_ok lpm \<longleftrightarrow> rules_ok lpm \<and>
     (\<forall>d ip. routes lpm d ip \<noteq> None \<longrightarrow> ip AND depth_to_mask d = ip) \<and>
     (\<forall>ip. lpm_entry lpm ip = longest (routes lpm) ip 32) \<and>
     groups_ok lpm"

lemma block_lt: "unat (ip :: u32) div 256 < 2 ^ 24"
  using unsigned_less [of ip, where 'a = nat] by (simp add: div_less_iff_less_mult)

lemma group_lt: "block_group lpm b < 256"
  using unsigned_less [of "t24_hop (tbl24 lpm b)", where 'a = nat] by (simp add: block_group_def)

text \<open>The rules do not see the tables.\<close>

lemma rules_tables [simp]:
  "rules_ok (lpm\<lparr>tbl24 := a\<rparr>) = rules_ok lpm" "rules_ok (lpm\<lparr>tbl8 := b\<rparr>) = rules_ok lpm"
  "routes (lpm\<lparr>tbl24 := a\<rparr>) = routes lpm" "routes (lpm\<lparr>tbl8 := b\<rparr>) = routes lpm"
  unfolding rules_ok_def rule_group_def routes_def by (simp_all cong: if_cong)

text \<open>Nor the tables the rules.\<close>

lemma tables_rules [simp]:
  "block_entry (lpm\<lparr>rule_info := ri\<rparr>) = block_entry lpm" "block_entry (lpm\<lparr>rules_tbl := rt\<rparr>) = block_entry lpm"
  "block_ext (lpm\<lparr>rule_info := ri\<rparr>) = block_ext lpm" "block_ext (lpm\<lparr>rules_tbl := rt\<rparr>) = block_ext lpm"
  "block_group (lpm\<lparr>rule_info := ri\<rparr>) = block_group lpm" "block_group (lpm\<lparr>rules_tbl := rt\<rparr>) = block_group lpm"
  "groups_ok (lpm\<lparr>rule_info := ri\<rparr>) = groups_ok lpm" "groups_ok (lpm\<lparr>rules_tbl := rt\<rparr>) = groups_ok lpm"
  unfolding block_entry_def block_ext_def block_group_def groups_ok_def Let_def by (simp_all cong: if_cong)

section \<open>Sweeping a run of blocks\<close>

text \<open>
  The loops of \<open>add_depth_small\<close> and \<open>delete_depth_small\<close>: each block of the
  run changes its own entry when \<open>A\<close> holds of it, and otherwise, when \<open>E\<close>
  holds, the entries of its group that satisfy \<open>C\<close>.
\<close>

definition sweep_step where
  "sweep_step A n24 E C n8 i lpm =
    (if A (tbl24 lpm i) then lpm\<lparr>tbl24 := (tbl24 lpm)(i := n24 (tbl24 lpm i))\<rparr>
     else if E (tbl24 lpm i) then
       lpm\<lparr>tbl8 := for_range (block_group lpm i * 256) (block_group lpm i * 256 + 256)
         (\<lambda>j t8. if C (t8 j) then t8(j := n8 (t8 j)) else t8) (tbl8 lpm)\<rparr>
     else lpm)"

lemma div_256_iff: "(a * 256 \<le> j \<and> j < a * 256 + 256) \<longleftrightarrow> j div 256 = (a::nat)"
  by (subst div_range_iff) auto

lemma sweep_eq:
  fixes n24 :: "tbl24_entry \<Rightarrow> tbl24_entry" and n8 :: "tbl8_entry \<Rightarrow> tbl8_entry"
  assumes idem: "\<And>x. C x \<Longrightarrow> C (n8 x) \<Longrightarrow> n8 (n8 x) = n8 x"
  shows "for_range a b (sweep_step A n24 E C n8) lpm = lpm\<lparr>
    tbl24 := (\<lambda>i. if a \<le> i \<and> i < b \<and> A (tbl24 lpm i) then n24 (tbl24 lpm i) else tbl24 lpm i),
    tbl8 := (\<lambda>j. if (\<exists>i. a \<le> i \<and> i < b \<and> \<not> A (tbl24 lpm i) \<and> E (tbl24 lpm i) \<and>
                      j div 256 = block_group lpm i) \<and> C (tbl8 lpm j)
                 then n8 (tbl8 lpm j) else tbl8 lpm j)\<rparr>"
proof (cases "a \<le> b")
  case True
  then show ?thesis
  proof (induction b rule: dec_induct)
    case base
    show ?case by (intro rte_lpm.equality) (auto simp: fun_eq_iff)
  next
    case (step n)
    have twice: "(if p \<and> C (if s \<and> C x then n8 x else x) then n8 (if s \<and> C x then n8 x else x)
        else (if s \<and> C x then n8 x else x)) = (if (s \<or> p) \<and> C x then n8 x else x)" for p s x
      using idem [of x] by auto
    let ?S = "\<lambda>m j. \<exists>i. a \<le> i \<and> i < m \<and> \<not> A (tbl24 lpm i) \<and> E (tbl24 lpm i) \<and> j div 256 = block_group lpm i"
    let ?t24 = "\<lambda>m i. if a \<le> i \<and> i < m \<and> A (tbl24 lpm i) then n24 (tbl24 lpm i) else tbl24 lpm i"
    let ?t8 = "\<lambda>m j. if ?S m j \<and> C (tbl8 lpm j) then n8 (tbl8 lpm j) else tbl8 lpm j"
    let ?l = "lpm\<lparr>tbl24 := ?t24 n, tbl8 := ?t8 n\<rparr>"
    have IH: "for_range a n (sweep_step A n24 E C n8) lpm = ?l" using step by simp
    have t24n: "tbl24 ?l n = tbl24 lpm n" by simp
    have gn: "block_group ?l n = block_group lpm n" by (simp add: block_group_def)
    have S: "?S (Suc n) j \<longleftrightarrow> ?S n j \<or> (\<not> A (tbl24 lpm n) \<and> E (tbl24 lpm n) \<and> j div 256 = block_group lpm n)" for j
      using step by (auto simp: less_Suc_eq)
    have "sweep_step A n24 E C n8 n ?l = lpm\<lparr>tbl24 := ?t24 (Suc n), tbl8 := ?t8 (Suc n)\<rparr>"
    proof (cases "A (tbl24 lpm n)")
      case True
      have "(?t24 n)(n := n24 (tbl24 lpm n)) = ?t24 (Suc n)"
        using True step by (auto simp: fun_eq_iff less_Suc_eq)
      moreover have "?t8 (Suc n) = ?t8 n" using S True by simp
      ultimately show ?thesis using True t24n unfolding sweep_step_def by simp
    next
      case False
      then have same24: "?t24 (Suc n) = ?t24 n" by (auto simp: fun_eq_iff less_Suc_eq)
      show ?thesis
      proof (cases "E (tbl24 lpm n)")
        case False': False
        then have "?t8 (Suc n) = ?t8 n" using S by simp
        then show ?thesis using False False' t24n same24 unfolding sweep_step_def by simp
      next
        case True
        have "for_range (block_group lpm n * 256) (block_group lpm n * 256 + 256)
          (\<lambda>j t8. if C (t8 j) then t8(j := n8 (t8 j)) else t8) (?t8 n) = ?t8 (Suc n)"
          unfolding for_range_pointwise [of _ _ "\<lambda>_. C" "\<lambda>_. n8"]
        proof
          fix j
          have r: "(block_group lpm n * 256 \<le> j \<and> j < block_group lpm n * 256 + 256 \<and> Q) =
              (j div 256 = block_group lpm n \<and> Q)" for Q
            using div_256_iff [of "block_group lpm n" j] by blast
          have S': "?S (Suc n) j = (?S n j \<or> j div 256 = block_group lpm n)"
            using S [of j] True False by simp
          show "(if block_group lpm n * 256 \<le> j \<and> j < block_group lpm n * 256 + 256 \<and> C (?t8 n j)
              then n8 (?t8 n j) else ?t8 n j) = ?t8 (Suc n) j"
            unfolding r S' by (rule twice)
        qed
        then show ?thesis using False True t24n gn same24 unfolding sweep_step_def by simp
      qed
    qed
    then show ?case using IH step(1) by (simp only: for_range_last)
  qed
next
  case False
  then show ?thesis by (intro rte_lpm.equality) (auto simp: fun_eq_iff)
qed

section \<open>Prefixes of at most 24 bits\<close>

definition in_run :: "u32 \<Rightarrow> nat \<Rightarrow> nat \<Rightarrow> bool" where
  "in_run p d b \<longleftrightarrow> unat p div 256 \<le> b \<and> b < unat p div 256 + 2 ^ (24 - d)"

lemma add_depth_small_sweep:
  assumes "d \<le> 24"
  shows "add_depth_small lpm p d hop =
    for_range (unat p div 256) (unat p div 256 + 2 ^ (24 - d))
      (sweep_step (\<lambda>e. \<not> t24_valid e \<or> \<not> t24_ext e \<and> t24_depth e \<le> d)
        (\<lambda>_. \<lparr>t24_hop = hop, t24_valid = True, t24_ext = False, t24_depth = d\<rparr>) t24_ext
        (\<lambda>x. \<not> t8_valid x \<or> t8_depth x \<le> d)
        (\<lambda>_. \<lparr>t8_hop = hop, t8_valid = True, t8_valid_group = True, t8_depth = d\<rparr>)) lpm"
  using assms unfolding add_depth_small_def Let_def
  by (simp add: depth_to_range_def unat_drop_8 sweep_step_def [abs_def] block_group_def cong: if_cong)

lemma in_run_lt:
  assumes "1 \<le> d" "d \<le> 24" "p AND depth_to_mask d = p" "in_run p d b"
  shows "b < 2 ^ 24"
  using block_in_range [OF assms(1-3)] assms(4) unfolding in_run_def by linarith

lemma groups_inj:
  "groups_ok lpm \<Longrightarrow> b < 2 ^ 24 \<Longrightarrow> b' < 2 ^ 24 \<Longrightarrow> block_ext lpm b \<Longrightarrow> block_ext lpm b' \<Longrightarrow>
    block_group lpm b = block_group lpm b' \<Longrightarrow> b = b'"
  unfolding groups_ok_def by blast

lemma sweep_groups_ok:
  assumes ok: "groups_ok lpm" and lpm': "lpm' = lpm\<lparr>tbl24 := t24, tbl8 := t8\<rparr>"
    and ext: "\<And>b. block_ext lpm' b \<longleftrightarrow> block_ext lpm b"
    and grp: "\<And>b. block_ext lpm b \<Longrightarrow> t24_hop (t24 b) = t24_hop (tbl24 lpm b)"
    and direct: "\<And>b. b < 2 ^ 24 \<Longrightarrow> t24_valid (t24 b) \<Longrightarrow> \<not> t24_ext (t24 b) \<Longrightarrow> t24_depth (t24 b) \<le> 24"
    and keep: "\<And>b. b < 2 ^ 24 \<Longrightarrow> block_ext lpm b \<Longrightarrow> t8_valid_group (t8 (block_group lpm b * 256))"
  shows "groups_ok lpm'"
proof -
  have g: "block_group lpm' b = block_group lpm b" if "block_ext lpm b" for b
    using grp [OF that] by (simp add: block_group_def lpm')
  show ?thesis
    unfolding groups_ok_def ext
  proof (intro conjI allI impI)
    fix b assume "b < 2 ^ 24" "block_ext lpm b"
    then show "t8_valid_group (tbl8 lpm' (block_group lpm' b * 256))"
      using keep g by (simp add: lpm')
  next
    fix b b' assume "b < 2 ^ 24" "b' < 2 ^ 24" "block_ext lpm b" "block_ext lpm b'"
      "block_group lpm' b = block_group lpm' b'"
    then show "b = b'" using ok g unfolding groups_ok_def by metis
  next
    fix b assume "b < 2 ^ 24" "t24_valid (tbl24 lpm' b)" "\<not> t24_ext (tbl24 lpm' b)"
    then show "t24_depth (tbl24 lpm' b) \<le> 24" using direct [of b] by (simp add: lpm')
  qed
qed

lemma add_depth_small_ok:
  assumes ok: "groups_ok lpm" and d: "1 \<le> d" "d \<le> 24" and p: "p AND depth_to_mask d = p"
  obtains t24 t8 where "add_depth_small lpm p d hop = lpm\<lparr>tbl24 := t24, tbl8 := t8\<rparr>"
    "groups_ok (lpm\<lparr>tbl24 := t24, tbl8 := t8\<rparr>)"
    "\<And>b l. b < 2 ^ 24 \<Longrightarrow> l < 256 \<Longrightarrow> block_entry (lpm\<lparr>tbl24 := t24, tbl8 := t8\<rparr>) b l =
      (if in_run p d b then supersede d (block_entry lpm b l) (Some (hop, d)) else block_entry lpm b l)"
proof -
  let ?A = "\<lambda>e. \<not> t24_valid e \<or> \<not> t24_ext e \<and> t24_depth e \<le> d"
  let ?C = "\<lambda>x. \<not> t8_valid x \<or> t8_depth x \<le> d"
  let ?n24 = "\<lparr>t24_hop = hop, t24_valid = True, t24_ext = False, t24_depth = d\<rparr>"
  let ?n8 = "\<lparr>t8_hop = hop, t8_valid = True, t8_valid_group = True, t8_depth = d\<rparr>"
  define t24 where "t24 = (\<lambda>i. if in_run p d i \<and> ?A (tbl24 lpm i) then ?n24 else tbl24 lpm i)"
  define t8 where "t8 = (\<lambda>j. if (\<exists>i. in_run p d i \<and> \<not> ?A (tbl24 lpm i) \<and> t24_ext (tbl24 lpm i) \<and>
      j div 256 = block_group lpm i) \<and> ?C (tbl8 lpm j) then ?n8 else tbl8 lpm j)"
  let ?l = "lpm\<lparr>tbl24 := t24, tbl8 := t8\<rparr>"
  have "add_depth_small lpm p d hop = ?l"
    unfolding add_depth_small_sweep [OF d(2)]
    by (subst sweep_eq) (simp_all add: t24_def t8_def in_run_def conj_assoc cong: if_cong)
  moreover have "groups_ok ?l"
  proof (rule sweep_groups_ok [OF ok refl])
    show "block_ext ?l b \<longleftrightarrow> block_ext lpm b" for b by (auto simp: block_ext_def t24_def)
    show "block_ext lpm b \<Longrightarrow> t24_hop (t24 b) = t24_hop (tbl24 lpm b)" for b
      by (auto simp: block_ext_def t24_def)
    show "t24_depth (t24 b) \<le> 24" if "b < 2 ^ 24" "t24_valid (t24 b)" "\<not> t24_ext (t24 b)" for b
      using that d ok by (auto simp: t24_def groups_ok_def split: if_splits)
    show "t8_valid_group (t8 (block_group lpm b * 256))" if "b < 2 ^ 24" "block_ext lpm b" for b
      using that ok by (simp add: t8_def groups_ok_def)
  qed
  moreover have "block_entry ?l b l =
      (if in_run p d b then supersede d (block_entry lpm b l) (Some (hop, d)) else block_entry lpm b l)"
    if bl: "b < 2 ^ 24" "l < 256" for b l
  proof (cases "block_ext lpm b")
    case False
    then show ?thesis
      by (auto simp: block_entry_def block_ext_def t24_def supersede_def Let_def)
  next
    case True
    let ?j = "block_group lpm b * 256 + l"
    have jd: "?j div 256 = block_group lpm b" using bl by simp
    have t24b: "t24 b = tbl24 lpm b" using True by (simp add: t24_def block_ext_def)
    have "(\<exists>i. in_run p d i \<and> \<not> ?A (tbl24 lpm i) \<and> t24_ext (tbl24 lpm i) \<and> ?j div 256 = block_group lpm i)
      \<longleftrightarrow> in_run p d b"
    proof
      assume "\<exists>i. in_run p d i \<and> \<not> ?A (tbl24 lpm i) \<and> t24_ext (tbl24 lpm i) \<and> ?j div 256 = block_group lpm i"
      then obtain i where i: "in_run p d i" "block_ext lpm i" "block_group lpm b = block_group lpm i"
        unfolding jd by (auto simp: block_ext_def)
      then show "in_run p d b" using groups_inj [OF ok bl(1) in_run_lt [OF d p i(1)] True] by simp
    next
      assume "in_run p d b"
      then show "\<exists>i. in_run p d i \<and> \<not> ?A (tbl24 lpm i) \<and> t24_ext (tbl24 lpm i) \<and> ?j div 256 = block_group lpm i"
        unfolding jd using True by (auto simp: block_ext_def)
    qed
    then have "t8 ?j = (if in_run p d b \<and> ?C (tbl8 lpm ?j) then ?n8 else tbl8 lpm ?j)"
      unfolding t8_def by simp
    then show ?thesis
      using True by (auto simp: block_entry_def block_ext_def t24b t8_value_def supersede_def block_group_def Let_def)
  qed
  ultimately show ?thesis using that by blast
qed

section \<open>Prefixes of more than 24 bits\<close>

definition in_sub :: "u32 \<Rightarrow> nat \<Rightarrow> nat \<Rightarrow> bool" where
  "in_sub p d l \<longleftrightarrow> unat p mod 256 \<le> l \<and> l < unat p mod 256 + 2 ^ (32 - d)"

text \<open>Some group is free.\<close>

definition tbl8_room :: "(nat \<Rightarrow> tbl8_entry) \<Rightarrow> bool" where
  "tbl8_room t8 \<longleftrightarrow> (\<exists>g < 256. \<not> t8_valid_group (t8 (g * 256)))"

lemma tbl8_alloc_full: "\<not> tbl8_room t8 \<Longrightarrow> tbl8_alloc t8 = (- ENOSPC, t8)"
  by (auto simp: tbl8_alloc_def tbl8_room_def find_None_iff split: option.splits dest!: find_Some_iff [THEN iffD1])

lemma tbl8_alloc_ok:
  assumes "tbl8_room t8"
  obtains g where "g < 256" "\<not> t8_valid_group (t8 (g * 256))"
    "tbl8_alloc t8 = (int g, \<lambda>j. if j div 256 = g
       then (if j = g * 256 then zero_tbl8\<lparr>t8_valid_group := True\<rparr> else zero_tbl8) else t8 j)"
proof -
  obtain g where g: "List.find (\<lambda>g. \<not> t8_valid_group (t8 (g * 256))) [0..<256] = Some g"
    using assms by (cases "List.find (\<lambda>g. \<not> t8_valid_group (t8 (g * 256))) [0..<256]")
      (auto simp: tbl8_room_def find_None_iff)
  then have "g \<in> set [0..<256]" and free: "\<not> t8_valid_group (t8 (g * 256))"
    by (auto simp: find_Some_iff in_set_conv_nth)
  then have "g < 256" by simp
  have "tbl8_alloc t8 = (int g, \<lambda>j. if j div 256 = g
       then (if j = g * 256 then zero_tbl8\<lparr>t8_valid_group := True\<rparr> else zero_tbl8) else t8 j)"
    using g by (simp add: tbl8_alloc_def Let_def for_range_pointwise_all [of _ _ "\<lambda>_ _. zero_tbl8"]
      div_256_iff fun_eq_iff)
  then show ?thesis using that \<open>g < 256\<close> free by blast
qed

lemma swap_tables: "lpm\<lparr>tbl8 := t8, tbl24 := t24\<rparr> = lpm\<lparr>tbl24 := t24, tbl8 := t8\<rparr>"
  by simp

text \<open>A group nobody owns becomes the group of a block that was not extended.\<close>

lemma install_group:
  assumes ok: "groups_ok lpm" and g: "g < 256" "\<not> t8_valid_group (tbl8 lpm (g * 256))"
    and b0: "b0 < 2 ^ 24" "\<not> block_ext lpm b0"
    and other: "\<And>j. j div 256 \<noteq> g \<Longrightarrow> t8 j = tbl8 lpm j" and own: "t8_valid_group (t8 (g * 256))"
    and val: "\<And>l. l < 256 \<Longrightarrow> t8_value (t8 (g * 256 + l)) = V l"
  defines "lpm' \<equiv> lpm\<lparr>tbl24 := (tbl24 lpm)(b0 := ext_tbl24 g), tbl8 := t8\<rparr>"
  shows "groups_ok lpm'"
    "\<And>b l. b < 2 ^ 24 \<Longrightarrow> l < 256 \<Longrightarrow> block_entry lpm' b l = (if b = b0 then V l else block_entry lpm b l)"
proof -
  have ug: "unat (of_nat g :: u8) = g" using g(1) by (simp add: unat_of_nat)
  have ext: "block_ext lpm' b \<longleftrightarrow> b = b0 \<or> block_ext lpm b" for b
    by (simp add: block_ext_def lpm'_def ext_tbl24_def)
  have grp: "block_group lpm' b = (if b = b0 then g else block_group lpm b)" for b
    by (simp add: block_group_def lpm'_def ext_tbl24_def ug)
  have ne: "block_group lpm b \<noteq> g" if "block_ext lpm b" "b < 2 ^ 24" for b
    using ok g(2) that unfolding groups_ok_def by metis
  show "groups_ok lpm'"
    unfolding groups_ok_def ext grp
  proof (intro conjI allI impI)
    fix b assume b: "b < 2 ^ 24" "b = b0 \<or> block_ext lpm b"
    show "t8_valid_group (tbl8 lpm' ((if b = b0 then g else block_group lpm b) * 256))"
    proof (cases "b = b0")
      case False
      then have "t8 (block_group lpm b * 256) = tbl8 lpm (block_group lpm b * 256)"
        using ne b by (intro other) auto
      then show ?thesis using False b ok by (simp add: lpm'_def groups_ok_def)
    qed (use own in \<open>simp add: lpm'_def\<close>)
  next
    fix b b' assume "b < 2 ^ 24" "b' < 2 ^ 24" "b = b0 \<or> block_ext lpm b" "b' = b0 \<or> block_ext lpm b'"
      "(if b = b0 then g else block_group lpm b) = (if b' = b0 then g else block_group lpm b')"
    then show "b = b'" using ne groups_inj [OF ok] by (auto split: if_splits)
  next
    fix b assume "b < 2 ^ 24" "t24_valid (tbl24 lpm' b)" "\<not> t24_ext (tbl24 lpm' b)"
    then show "t24_depth (tbl24 lpm' b) \<le> 24"
      using ok by (auto simp: lpm'_def groups_ok_def ext_tbl24_def split: if_splits)
  qed
  show "block_entry lpm' b l = (if b = b0 then V l else block_entry lpm b l)" if "b < 2 ^ 24" "l < 256" for b l
  proof (cases "b = b0")
    case True
    then show ?thesis using val that by (simp add: block_entry_def lpm'_def ext_tbl24_def ug)
  next
    case False
    have "t8 (block_group lpm b * 256 + l) = tbl8 lpm (block_group lpm b * 256 + l)" if "block_ext lpm b"
      using ne [OF that \<open>b < 2 ^ 24\<close>] \<open>l < 256\<close> by (intro other) simp
    then show ?thesis using False by (auto simp: block_entry_def lpm'_def block_ext_def block_group_def Let_def)
  qed
qed

lemma sub_index:
  assumes "24 < d" "d \<le> 32" "p AND depth_to_mask d = p"
  shows "(g * 256 + unat p mod 256 \<le> j \<and> j < g * 256 + unat p mod 256 + 2 ^ (32 - d)) \<longleftrightarrow>
    j div 256 = g \<and> in_sub p d (j mod 256)"
proof -
  have "unat p mod 256 + 2 ^ (32 - d) \<le> 256" by (rule covers_big(1) [OF assms])
  moreover have "j = j div 256 * 256 + j mod 256" "j mod 256 < 256" by simp_all
  moreover have "(g * 256 + L \<le> a * 256 + l \<and> a * 256 + l < g * 256 + L + k) \<longleftrightarrow> a = g \<and> L \<le> l \<and> l < L + k"
    if "L + k \<le> 256" "l < 256" for L k a l :: nat
  proof -
    have "a = g" if "g * 256 + L \<le> a * 256 + l" "a * 256 + l < g * 256 + L + k"
      using that \<open>L + k \<le> 256\<close> \<open>l < 256\<close> by linarith
    then show ?thesis by auto
  qed
  ultimately show ?thesis unfolding in_sub_def by metis
qed

lemma add_depth_big_ok:
  assumes ok: "groups_ok lpm" and d: "24 < d" "d \<le> 32" and p: "p AND depth_to_mask d = p"
    and room: "block_ext lpm (unat p div 256) \<or> tbl8_room (tbl8 lpm)"
  obtains t24 t8 where "add_depth_big lpm p d hop = (0, lpm\<lparr>tbl24 := t24, tbl8 := t8\<rparr>)"
    "groups_ok (lpm\<lparr>tbl24 := t24, tbl8 := t8\<rparr>)"
    "\<And>b l. b < 2 ^ 24 \<Longrightarrow> l < 256 \<Longrightarrow> block_entry (lpm\<lparr>tbl24 := t24, tbl8 := t8\<rparr>) b l =
      (if b = unat p div 256 \<and> in_sub p d l then supersede d (block_entry lpm b l) (Some (hop, d))
       else block_entry lpm b l)"
proof -
  let ?b = "unat p div 256"
  have b: "?b < 2 ^ 24" by (rule block_lt)
  have rng: "depth_to_range d = 2 ^ (32 - d)" using d by (simp add: depth_to_range_def)
  note sub = sub_index [OF d p]
  consider "\<not> t24_valid (tbl24 lpm ?b)" | "t24_valid (tbl24 lpm ?b)" "\<not> t24_ext (tbl24 lpm ?b)"
    | "block_ext lpm ?b" by (auto simp: block_ext_def)
  then show ?thesis
  proof cases
    case 1
    then have ne: "\<not> block_ext lpm ?b" by (simp add: block_ext_def)
    with room have free: "tbl8_room (tbl8 lpm)" by simp
    obtain g where g: "g < 256" "\<not> t8_valid_group (tbl8 lpm (g * 256))"
      and al: "tbl8_alloc (tbl8 lpm) = (int g, \<lambda>j. if j div 256 = g
       then (if j = g * 256 then zero_tbl8\<lparr>t8_valid_group := True\<rparr> else zero_tbl8) else tbl8 lpm j)"
      by (rule tbl8_alloc_ok [OF free])
    define t0 where "t0 = (\<lambda>j. if j div 256 = g
       then (if j = g * 256 then zero_tbl8\<lparr>t8_valid_group := True\<rparr> else zero_tbl8) else tbl8 lpm j)"
    define t8 where "t8 = (\<lambda>j. if j div 256 = g \<and> in_sub p d (j mod 256)
      then (t0 j)\<lparr>t8_depth := d, t8_hop := hop, t8_valid := True\<rparr> else t0 j)"
    have loop: "for_range (g * 256 + unat p mod 256) (g * 256 + unat p mod 256 + 2 ^ (32 - d))
        (\<lambda>i t8. t8(i := (t8 i)\<lparr>t8_depth := d, t8_hop := hop, t8_valid := True\<rparr>)) t0 = t8"
      unfolding for_range_pointwise_all [of _ _ "\<lambda>_ x. x\<lparr>t8_depth := d, t8_hop := hop, t8_valid := True\<rparr>"]
        sub t8_def ..
    have run: "add_depth_big lpm p d hop =
        (0, lpm\<lparr>tbl24 := (tbl24 lpm)(?b := ext_tbl24 g), tbl8 := t8\<rparr>)"
      using 1 unfolding add_depth_big_def al t0_def [symmetric]
      by (simp add: unat_drop_8 rng unat_and_FF loop swap_tables)
    let ?V = "\<lambda>l. if in_sub p d l then Some (hop, d) else None"
    have inst: "groups_ok (lpm\<lparr>tbl24 := (tbl24 lpm)(?b := ext_tbl24 g), tbl8 := t8\<rparr>)"
      "\<And>b' l. b' < 2 ^ 24 \<Longrightarrow> l < 256 \<Longrightarrow>
        block_entry (lpm\<lparr>tbl24 := (tbl24 lpm)(?b := ext_tbl24 g), tbl8 := t8\<rparr>) b' l =
        (if b' = ?b then ?V l else block_entry lpm b' l)"
      using install_group [OF ok g b ne, of t8 ?V]
      by (simp_all add: t8_def t0_def t8_value_def zero_tbl8_def)
    have "block_entry lpm ?b l = None" for l using 1 by (simp add: block_entry_def)
    then show ?thesis
      using that [of t8 "(tbl24 lpm)(?b := ext_tbl24 g)"] run inst
      by (auto simp: supersede_def)
  next
    case 2
    then have ne: "\<not> block_ext lpm ?b" by (simp add: block_ext_def)
    with room have free: "tbl8_room (tbl8 lpm)" by simp
    obtain g where g: "g < 256" "\<not> t8_valid_group (tbl8 lpm (g * 256))"
      and al: "tbl8_alloc (tbl8 lpm) = (int g, \<lambda>j. if j div 256 = g
       then (if j = g * 256 then zero_tbl8\<lparr>t8_valid_group := True\<rparr> else zero_tbl8) else tbl8 lpm j)"
      by (rule tbl8_alloc_ok [OF free])
    let ?old = "tbl24 lpm ?b"
    have dep: "t24_depth ?old \<le> 24" using ok b 2 by (simp add: groups_ok_def)
    define t0 where "t0 = (\<lambda>j. if j div 256 = g
       then (if j = g * 256 then zero_tbl8\<lparr>t8_valid_group := True\<rparr> else zero_tbl8) else tbl8 lpm j)"
    define t1 where "t1 = (\<lambda>j. if j div 256 = g
      then (t0 j)\<lparr>t8_valid := True, t8_depth := t24_depth ?old, t8_hop := t24_hop ?old\<rparr> else t0 j)"
    define t8 where "t8 = (\<lambda>j. if (j div 256 = g \<and> in_sub p d (j mod 256)) \<and> (\<not> t8_valid (t1 j) \<or> t8_depth (t1 j) \<le> d)
      then (t1 j)\<lparr>t8_valid := True, t8_depth := d, t8_hop := hop\<rparr> else t1 j)"
    have fill: "for_range (g * 256) (g * 256 + 256) (\<lambda>i t8.
        t8(i := (t8 i)\<lparr>t8_valid := True, t8_depth := t24_depth ?old, t8_hop := t24_hop ?old\<rparr>)) t0 = t1"
      unfolding for_range_pointwise_all [of _ _
          "\<lambda>_ x. x\<lparr>t8_valid := True, t8_depth := t24_depth ?old, t8_hop := t24_hop ?old\<rparr>"]
        div_256_iff t1_def ..
    have loop: "for_range (g * 256 + unat p mod 256) (g * 256 + unat p mod 256 + 2 ^ (32 - d))
        (\<lambda>i t8. if \<not> t8_valid (t8 i) \<or> t8_depth (t8 i) \<le> d
          then t8(i := (t8 i)\<lparr>t8_valid := True, t8_depth := d, t8_hop := hop\<rparr>) else t8) t1 = t8"
      unfolding for_range_pointwise [of _ _ "\<lambda>_ x. \<not> t8_valid x \<or> t8_depth x \<le> d"
          "\<lambda>_ x. x\<lparr>t8_valid := True, t8_depth := d, t8_hop := hop\<rparr>"]
        t8_def sub [symmetric] by (simp only: conj_assoc)
    have run: "add_depth_big lpm p d hop =
        (0, lpm\<lparr>tbl24 := (tbl24 lpm)(?b := ext_tbl24 g), tbl8 := t8\<rparr>)"
      using 2 loop unfolding add_depth_big_def al t0_def [symmetric]
      by (simp add: unat_drop_8 rng fill unat_and_FF swap_tables Let_def)
    let ?V = "\<lambda>l. if in_sub p d l then Some (hop, d) else Some (t24_hop ?old, t24_depth ?old)"
    have inst: "groups_ok (lpm\<lparr>tbl24 := (tbl24 lpm)(?b := ext_tbl24 g), tbl8 := t8\<rparr>)"
      "\<And>b' l. b' < 2 ^ 24 \<Longrightarrow> l < 256 \<Longrightarrow>
        block_entry (lpm\<lparr>tbl24 := (tbl24 lpm)(?b := ext_tbl24 g), tbl8 := t8\<rparr>) b' l =
        (if b' = ?b then ?V l else block_entry lpm b' l)"
      using install_group [OF ok g b ne, of t8 ?V] dep d
      by (simp_all add: t8_def t1_def t0_def t8_value_def zero_tbl8_def)
    have "block_entry lpm ?b l = Some (t24_hop ?old, t24_depth ?old)" for l
      using 2 by (simp add: block_entry_def Let_def)
    then show ?thesis
      using that [of t8 "(tbl24 lpm)(?b := ext_tbl24 g)"] run inst dep d
      by (auto simp: supersede_def)
  next
    case 3
    let ?g = "block_group lpm ?b"
    define t8 where "t8 = (\<lambda>j. if (j div 256 = ?g \<and> in_sub p d (j mod 256)) \<and>
        (\<not> t8_valid (tbl8 lpm j) \<or> t8_depth (tbl8 lpm j) \<le> d)
      then \<lparr>t8_hop = hop, t8_valid = True, t8_valid_group = t8_valid_group (tbl8 lpm j), t8_depth = d\<rparr>
      else tbl8 lpm j)"
    let ?l = "lpm\<lparr>tbl24 := tbl24 lpm, tbl8 := t8\<rparr>"
    have loop: "for_range (?g * 256 + unat p mod 256) (?g * 256 + unat p mod 256 + 2 ^ (32 - d))
        (\<lambda>i t8. if \<not> t8_valid (t8 i) \<or> t8_depth (t8 i) \<le> d
          then t8(i := \<lparr>t8_hop = hop, t8_valid = True,
                         t8_valid_group = t8_valid_group (t8 i), t8_depth = d\<rparr>) else t8) (tbl8 lpm) = t8"
      unfolding for_range_pointwise [of _ _ "\<lambda>_ x. \<not> t8_valid x \<or> t8_depth x \<le> d"
          "\<lambda>_ x. \<lparr>t8_hop = hop, t8_valid = True, t8_valid_group = t8_valid_group x, t8_depth = d\<rparr>"]
        t8_def sub [symmetric] by (simp only: conj_assoc)
    have "add_depth_big lpm p d hop = (0, ?l)"
      using 3 loop unfolding add_depth_big_def block_group_def
      by (simp add: unat_drop_8 rng block_ext_def unat_and_FF)
    moreover have keep: "t8_valid_group (t8 j) = t8_valid_group (tbl8 lpm j)" for j by (simp add: t8_def)
    moreover have "groups_ok ?l"
    proof (rule sweep_groups_ok [OF ok refl])
      show "t8_valid_group (t8 (block_group lpm b * 256))" if "b < 2 ^ 24" "block_ext lpm b" for b
        using that ok unfolding keep groups_ok_def by blast
    qed (use ok in \<open>auto simp: block_ext_def groups_ok_def\<close>)
    moreover have "block_entry ?l b l =
        (if b = ?b \<and> in_sub p d l then supersede d (block_entry lpm b l) (Some (hop, d))
         else block_entry lpm b l)" if "b < 2 ^ 24" "l < 256" for b l
    proof (cases "block_ext lpm b")
      case False
      then show ?thesis using 3 by (auto simp: block_entry_def block_ext_def Let_def)
    next
      case True
      have "block_group lpm b = ?g \<longleftrightarrow> b = ?b"
        using groups_inj [OF ok that(1) _ True 3] \<open>?b < 2 ^ 24\<close> by blast
      then have "t8 (block_group lpm b * 256 + l) =
        (let x = tbl8 lpm (block_group lpm b * 256 + l) in
         if b = ?b \<and> in_sub p d l \<and> (\<not> t8_valid x \<or> t8_depth x \<le> d)
         then \<lparr>t8_hop = hop, t8_valid = True, t8_valid_group = t8_valid_group x, t8_depth = d\<rparr> else x)"
        using that by (simp add: t8_def Let_def)
      then show ?thesis using True
        by (auto simp: block_entry_def block_ext_def t8_value_def supersede_def block_group_def Let_def)
    qed
    ultimately show ?thesis using that by blast
  qed
qed

lemma add_depth_big_full:
  assumes "\<not> block_ext lpm (unat p div 256)" "\<not> tbl8_room (tbl8 lpm)"
  shows "add_depth_big lpm p d hop = (- ENOSPC, lpm)"
  using assms by (simp add: add_depth_big_def unat_drop_8 tbl8_alloc_full block_ext_def Let_def)

section \<open>Deleting a short prefix\<close>

text \<open>
  \<open>delete_depth_small\<close> takes the \<open>else\<close> branch, meant for extended blocks, also
  for a direct entry of a deeper prefix, whose next hop it then uses as a group
  number; and a replacement rule is written to group entries with the
  \<open>valid_group\<close> mark cleared.  The deletion is safe when no such next hop is the
  group of a block and no first entry of a group is rewritten.
\<close>

definition hops_not_groups :: "rte_lpm \<Rightarrow> u32 \<Rightarrow> nat \<Rightarrow> bool" where
  "hops_not_groups lpm p d \<longleftrightarrow>
     (\<forall>b b'. in_run p d b \<and> \<not> t24_ext (tbl24 lpm b) \<and> d < t24_depth (tbl24 lpm b) \<and>
        b' < 2 ^ 24 \<and> block_ext lpm b' \<longrightarrow> block_group lpm b' \<noteq> block_group lpm b)"

definition firsts_deeper :: "rte_lpm \<Rightarrow> u32 \<Rightarrow> nat \<Rightarrow> bool" where
  "firsts_deeper lpm p d \<longleftrightarrow>
     (\<forall>b. in_run p d b \<and> block_ext lpm b \<longrightarrow> d < t8_depth (tbl8 lpm (block_group lpm b * 256)))"

lemma delete_sweep_ok:
  assumes ok: "groups_ok lpm" and d: "1 \<le> d" "d \<le> 24" and p: "p AND depth_to_mask d = p"
    and full: "\<And>b l. in_run p d b \<Longrightarrow> l < 256 \<Longrightarrow> block_entry lpm b l \<noteq> None"
    and safe: "hops_not_groups lpm p d"
    and n24: "\<And>e. \<not> t24_ext e \<Longrightarrow> \<not> t24_ext (n24 e)"
      "\<And>e. (if t24_valid (n24 e) then Some (t24_hop (n24 e), t24_depth (n24 e)) else None) = new"
    and n8: "\<And>x. t8_value (n8 x) = new"
    and idem: "\<And>x. t8_depth x \<le> d \<Longrightarrow> t8_depth (n8 x) \<le> d \<Longrightarrow> n8 (n8 x) = n8 x"
    and new: "\<And>h sd. new = Some (h, sd) \<Longrightarrow> sd \<le> 24"
    and keep: "\<And>b. in_run p d b \<Longrightarrow> block_ext lpm b \<Longrightarrow> t8_depth (tbl8 lpm (block_group lpm b * 256)) \<le> d \<Longrightarrow>
       t8_valid_group (n8 (tbl8 lpm (block_group lpm b * 256)))"
  obtains t24 t8 where
    "for_range (unat p div 256) (unat p div 256 + 2 ^ (24 - d))
      (sweep_step (\<lambda>e. \<not> t24_ext e \<and> t24_depth e \<le> d) n24 (\<lambda>_. True) (\<lambda>x. t8_depth x \<le> d) n8) lpm =
      lpm\<lparr>tbl24 := t24, tbl8 := t8\<rparr>"
    "groups_ok (lpm\<lparr>tbl24 := t24, tbl8 := t8\<rparr>)"
    "\<And>b l. b < 2 ^ 24 \<Longrightarrow> l < 256 \<Longrightarrow> block_entry (lpm\<lparr>tbl24 := t24, tbl8 := t8\<rparr>) b l =
      (if in_run p d b then supersede d (block_entry lpm b l) new else block_entry lpm b l)"
proof -
  let ?A = "\<lambda>e. \<not> t24_ext e \<and> t24_depth e \<le> d"
  let ?T = "\<lambda>j. \<exists>i. in_run p d i \<and> \<not> ?A (tbl24 lpm i) \<and> j div 256 = block_group lpm i"
  define t24 where "t24 = (\<lambda>i. if in_run p d i \<and> ?A (tbl24 lpm i) then n24 (tbl24 lpm i) else tbl24 lpm i)"
  define t8 where "t8 = (\<lambda>j. if ?T j \<and> t8_depth (tbl8 lpm j) \<le> d then n8 (tbl8 lpm j) else tbl8 lpm j)"
  let ?l = "lpm\<lparr>tbl24 := t24, tbl8 := t8\<rparr>"
  have valid: "t24_valid (tbl24 lpm b)" if "in_run p d b" for b
    using full [OF that, of 0] by (auto simp: block_entry_def Let_def split: if_splits)
  have touched: "?T j \<longleftrightarrow> in_run p d b"
    if b: "b < 2 ^ 24" "block_ext lpm b" "j div 256 = block_group lpm b" for b j
  proof
    assume "in_run p d b"
    then show "?T j" using b by (auto simp: block_ext_def)
  next
    assume "?T j"
    then obtain i where i: "in_run p d i" "\<not> ?A (tbl24 lpm i)" "block_group lpm b = block_group lpm i"
      using b(3) by auto
    have lt: "i < 2 ^ 24" by (rule in_run_lt [OF d p i(1)])
    show "in_run p d b"
    proof (cases "t24_ext (tbl24 lpm i)")
      case True
      then have "block_ext lpm i" using valid [OF i(1)] by (simp add: block_ext_def)
      then show ?thesis using groups_inj [OF ok b(1) lt b(2) _ i(3)] i(1) by simp
    next
      case False
      then have "d < t24_depth (tbl24 lpm i)" using i(2) by auto
      then show ?thesis using safe False i b unfolding hops_not_groups_def by blast
    qed
  qed
  have "for_range (unat p div 256) (unat p div 256 + 2 ^ (24 - d))
      (sweep_step ?A n24 (\<lambda>_. True) (\<lambda>x. t8_depth x \<le> d) n8) lpm = ?l"
    by (subst sweep_eq) (use idem in \<open>simp_all add: t24_def t8_def in_run_def conj_assoc cong: if_cong\<close>)
  moreover have "groups_ok ?l"
  proof (rule sweep_groups_ok [OF ok refl])
    show "block_ext ?l b \<longleftrightarrow> block_ext lpm b" for b using n24(1) by (auto simp: block_ext_def t24_def)
    show "block_ext lpm b \<Longrightarrow> t24_hop (t24 b) = t24_hop (tbl24 lpm b)" for b
      by (auto simp: block_ext_def t24_def)
    show "t24_depth (t24 b) \<le> 24" if "b < 2 ^ 24" "t24_valid (t24 b)" "\<not> t24_ext (t24 b)" for b
    proof (cases "in_run p d b \<and> ?A (tbl24 lpm b)")
      case True
      then have "new = Some (t24_hop (t24 b), t24_depth (t24 b))"
        using n24(2) [of "tbl24 lpm b"] that(2) by (simp add: t24_def)
      then show ?thesis by (rule new)
    next
      case False
      then have "t24 b = tbl24 lpm b" by (auto simp: t24_def)
      then show ?thesis using that ok unfolding groups_ok_def by metis
    qed
    show "t8_valid_group (t8 (block_group lpm b * 256))" if "b < 2 ^ 24" "block_ext lpm b" for b
    proof -
      have "t8_valid_group (tbl8 lpm (block_group lpm b * 256))" using that ok by (simp add: groups_ok_def)
      then show ?thesis using keep [of b] that touched [of b "block_group lpm b * 256"] by (simp add: t8_def)
    qed
  qed
  moreover have "block_entry ?l b l =
      (if in_run p d b then supersede d (block_entry lpm b l) new else block_entry lpm b l)"
    if bl: "b < 2 ^ 24" "l < 256" for b l
  proof (cases "block_ext lpm b")
    case False
    show ?thesis
    proof (cases "in_run p d b")
      case True
      then have v: "t24_valid (tbl24 lpm b)" "\<not> t24_ext (tbl24 lpm b)"
        using False valid by (auto simp: block_ext_def)
      show ?thesis
      proof (cases "t24_depth (tbl24 lpm b) \<le> d")
        case dep: True
        have "block_entry ?l b l = new"
          using n24(1) [OF v(2)] n24(2) [of "tbl24 lpm b"] v True dep
          by (auto simp: block_entry_def t24_def Let_def split: if_splits)
        then show ?thesis using True v dep by (simp add: supersede_def block_entry_def Let_def)
      next
        case dep: False
        then show ?thesis using True v by (simp add: supersede_def block_entry_def t24_def Let_def)
      qed
    qed (use False in \<open>auto simp: block_entry_def t24_def block_ext_def Let_def\<close>)
  next
    case True
    let ?j = "block_group lpm b * 256 + l"
    have "?T ?j \<longleftrightarrow> in_run p d b" by (rule touched) (use bl True in auto)
    then have t8j: "t8 ?j = (if in_run p d b \<and> t8_depth (tbl8 lpm ?j) \<le> d then n8 (tbl8 lpm ?j) else tbl8 lpm ?j)"
      unfolding t8_def by simp
    have old: "block_entry lpm b l = t8_value (tbl8 lpm ?j)" and now: "block_entry ?l b l = t8_value (t8 ?j)"
      using True by (simp_all add: block_entry_def block_ext_def block_group_def t24_def Let_def)
    show ?thesis
    proof (cases "in_run p d b")
      case run: True
      then have "t8_value (tbl8 lpm ?j) \<noteq> None" using full [of b l] bl unfolding old by blast
      then have "t8_value (tbl8 lpm ?j) = Some (t8_hop (tbl8 lpm ?j), t8_depth (tbl8 lpm ?j))"
        by (simp add: t8_value_def split: if_splits)
      then show ?thesis using run n8 unfolding old now t8j by (simp add: supersede_def)
    qed (simp add: old now t8j)
  qed
  ultimately show ?thesis using that by blast
qed

lemma delete_depth_small_ok:
  assumes ok: "groups_ok lpm" and d: "1 \<le> d" "d \<le> 24" and p: "p AND depth_to_mask d = p"
    and full: "\<And>b l. in_run p d b \<Longrightarrow> l < 256 \<Longrightarrow> block_entry lpm b l \<noteq> None"
    and safe: "hops_not_groups lpm p d" "sub < 0 \<or> firsts_deeper lpm p d" and sd: "sd \<le> 24"
  obtains t24 t8 where "delete_depth_small lpm p d sub sd = lpm\<lparr>tbl24 := t24, tbl8 := t8\<rparr>"
    "groups_ok (lpm\<lparr>tbl24 := t24, tbl8 := t8\<rparr>)"
    "\<And>b l. b < 2 ^ 24 \<Longrightarrow> l < 256 \<Longrightarrow> block_entry (lpm\<lparr>tbl24 := t24, tbl8 := t8\<rparr>) b l =
      (if in_run p d b
       then supersede d (block_entry lpm b l)
         (if sub < 0 then None else Some (rule_next_hop (rules_tbl lpm (nat sub)), sd))
       else block_entry lpm b l)"
proof (cases "sub < 0")
  case True
  let ?n24 = "\<lambda>e. e\<lparr>t24_valid := False\<rparr>" and ?n8 = "\<lambda>x. x\<lparr>t8_valid := False\<rparr>"
  have run: "delete_depth_small lpm p d sub sd =
      for_range (unat p div 256) (unat p div 256 + 2 ^ (24 - d))
        (sweep_step (\<lambda>e. \<not> t24_ext e \<and> t24_depth e \<le> d) ?n24 (\<lambda>_. True) (\<lambda>x. t8_depth x \<le> d) ?n8) lpm"
    using True d unfolding delete_depth_small_def Let_def
    by (simp add: depth_to_range_def unat_drop_8 sweep_step_def [abs_def] block_group_def cong: if_cong)
  show ?thesis
    by (rule delete_sweep_ok [OF ok d p full safe(1), of ?n24 None ?n8])
      (use True ok run that in_run_lt [OF d p] in \<open>auto simp: t8_value_def groups_ok_def\<close>)
next
  case False
  let ?hop = "rule_next_hop (rules_tbl lpm (nat sub))"
  let ?n24 = "\<lambda>_. \<lparr>t24_hop = ?hop, t24_valid = True, t24_ext = False, t24_depth = sd\<rparr>"
  let ?n8 = "\<lambda>_. \<lparr>t8_hop = ?hop, t8_valid = True, t8_valid_group = False, t8_depth = sd\<rparr>"
  have run: "delete_depth_small lpm p d sub sd =
      for_range (unat p div 256) (unat p div 256 + 2 ^ (24 - d))
        (sweep_step (\<lambda>e. \<not> t24_ext e \<and> t24_depth e \<le> d) ?n24 (\<lambda>_. True) (\<lambda>x. t8_depth x \<le> d) ?n8) lpm"
    using False d unfolding delete_depth_small_def Let_def
    by (simp add: depth_to_range_def unat_drop_8 sweep_step_def [abs_def] block_group_def cong: if_cong)
  have fd: "firsts_deeper lpm p d" using safe(2) False by simp
  show ?thesis
    by (rule delete_sweep_ok [OF ok d p full safe(1), of ?n24 "Some (?hop, sd)" ?n8])
      (use False fd sd run that in \<open>auto simp: t8_value_def firsts_deeper_def\<close>)
qed

section \<open>Deleting a long prefix\<close>

text \<open>A block gives up its group.\<close>

lemma release_group:
  assumes ok: "groups_ok lpm" and b0: "b0 < 2 ^ 24" "block_ext lpm b0"
    and e: "\<not> (t24_valid e \<and> t24_ext e)" "t24_valid e \<Longrightarrow> t24_depth e \<le> 24"
  defines "lpm' \<equiv> lpm\<lparr>tbl24 := (tbl24 lpm)(b0 := e), tbl8 := tbl8_free (tbl8 lpm) (block_group lpm b0 * 256)\<rparr>"
  shows "groups_ok lpm'"
    "\<And>b l. b < 2 ^ 24 \<Longrightarrow> l < 256 \<Longrightarrow> block_entry lpm' b l =
      (if b = b0 then (if t24_valid e then Some (t24_hop e, t24_depth e) else None) else block_entry lpm b l)"
proof -
  have ext: "block_ext lpm' b \<longleftrightarrow> b \<noteq> b0 \<and> block_ext lpm b" for b
    using e(1) by (auto simp: block_ext_def lpm'_def)
  have grp: "block_group lpm' b = block_group lpm b" if "b \<noteq> b0" for b
    using that by (simp add: block_group_def lpm'_def)
  have ne: "block_group lpm b \<noteq> block_group lpm b0" if "block_ext lpm b" "b < 2 ^ 24" "b \<noteq> b0" for b
    using groups_inj [OF ok that(2) b0(1) that(1) b0(2)] that(3) by blast
  have val: "t8_value (tbl8 lpm' j) = t8_value (tbl8 lpm j)" for j
    by (simp add: t8_value_def lpm'_def tbl8_free_def)
  show "groups_ok lpm'"
    unfolding groups_ok_def ext
  proof (intro conjI allI impI)
    fix b assume "b < 2 ^ 24" "b \<noteq> b0 \<and> block_ext lpm b"
    then show "t8_valid_group (tbl8 lpm' (block_group lpm' b * 256))"
      using ne [of b] ok grp by (simp add: lpm'_def tbl8_free_def groups_ok_def)
  next
    fix b b' assume "b < 2 ^ 24" "b' < 2 ^ 24" "b \<noteq> b0 \<and> block_ext lpm b" "b' \<noteq> b0 \<and> block_ext lpm b'"
      "block_group lpm' b = block_group lpm' b'"
    then show "b = b'" using groups_inj [OF ok] grp by metis
  next
    fix b assume "b < 2 ^ 24" "t24_valid (tbl24 lpm' b)" "\<not> t24_ext (tbl24 lpm' b)"
    then show "t24_depth (tbl24 lpm' b) \<le> 24"
      using ok e(2) by (auto simp: lpm'_def groups_ok_def split: if_splits)
  qed
  show "block_entry lpm' b l =
      (if b = b0 then (if t24_valid e then Some (t24_hop e, t24_depth e) else None) else block_entry lpm b l)"
    for b l
  proof (cases "b = b0")
    case True
    then show ?thesis using e(1) by (auto simp: block_entry_def lpm'_def Let_def)
  next
    case False
    have "tbl24 lpm' b = tbl24 lpm b" using False by (simp add: lpm'_def)
    then show ?thesis using False by (simp add: block_entry_def val Let_def)
  qed
qed

lemma recycle_cases:
  fixes t8 :: "nat \<Rightarrow> tbl8_entry" and g :: nat
  defines "r \<equiv> tbl8_recycle_check t8 (g * 256)"
  obtains "r = - EEXIST"
  | "r = - EINVAL" "\<And>l. l < 256 \<Longrightarrow> t8_value (t8 (g * 256 + l)) = None"
  | "r = int (g * 256)" "t8_valid (t8 (g * 256))" "t8_depth (t8 (g * 256)) < 24"
    "\<And>l. l < 256 \<Longrightarrow> t8_depth (t8 (g * 256 + l)) = t8_depth (t8 (g * 256))"
proof -
  have rest: "(\<forall>i \<in> set [g * 256 + 1..<g * 256 + 256]. P i) \<longleftrightarrow> (\<forall>l. 0 < l \<longrightarrow> l < 256 \<longrightarrow> P (g * 256 + l))" for P
  proof
    assume "\<forall>l. 0 < l \<longrightarrow> l < 256 \<longrightarrow> P (g * 256 + l)"
    then show "\<forall>i \<in> set [g * 256 + 1..<g * 256 + 256]. P i"
    proof (intro ballI)
      fix i assume h: "\<forall>l. 0 < l \<longrightarrow> l < 256 \<longrightarrow> P (g * 256 + l)" and "i \<in> set [g * 256 + 1..<g * 256 + 256]"
      then have "0 < i - g * 256" "i - g * 256 < 256" "i = g * 256 + (i - g * 256)" by auto
      then show "P i" using h by metis
    qed
  qed auto
  have neg: "\<not> (\<exists>i \<in> S. Q i) \<longleftrightarrow> (\<forall>i \<in> S. \<not> Q i)" for S :: "nat set" and Q by blast
  show ?thesis
  proof (cases "t8_valid (t8 (g * 256))")
    case True
    show ?thesis
    proof (cases "t8_depth (t8 (g * 256)) < 24 \<and>
        \<not> (\<exists>i \<in> set [g * 256 + 1..<g * 256 + 256]. t8_depth (t8 i) \<noteq> t8_depth (t8 (g * 256)))")
      case t: True
      then have "\<forall>l. 0 < l \<longrightarrow> l < 256 \<longrightarrow> t8_depth (t8 (g * 256 + l)) = t8_depth (t8 (g * 256))"
        unfolding neg rest by blast
      then have "\<And>l. l < 256 \<Longrightarrow> t8_depth (t8 (g * 256 + l)) = t8_depth (t8 (g * 256))"
        by (metis add.right_neutral gr0I)
      then show ?thesis
        using that(3) True t unfolding r_def tbl8_recycle_check_def Let_def by simp
    next
      case False
      then show ?thesis using that(1) True unfolding r_def tbl8_recycle_check_def Let_def by auto
    qed
  next
    case inv: False
    show ?thesis
    proof (cases "\<exists>i \<in> set [g * 256 + 1..<g * 256 + 256]. t8_valid (t8 i)")
      case True
      then show ?thesis using that(1) inv unfolding r_def tbl8_recycle_check_def Let_def by auto
    next
      case False
      then have "\<forall>l. 0 < l \<longrightarrow> l < 256 \<longrightarrow> \<not> t8_valid (t8 (g * 256 + l))" unfolding neg rest by blast
      then have "\<And>l. l < 256 \<Longrightarrow> t8_value (t8 (g * 256 + l)) = None"
        using inv unfolding t8_value_def by (metis add.right_neutral gr0I)
      then show ?thesis
        using that(2) inv False unfolding r_def tbl8_recycle_check_def Let_def by simp
    qed
  qed
qed

lemma delete_depth_big_ok:
  assumes ok: "groups_ok lpm" and d: "24 < d" "d \<le> 32" and p: "p AND depth_to_mask d = p"
    and ext: "block_ext lpm (unat p div 256)"
    and full: "\<And>l. in_sub p d l \<Longrightarrow> block_entry lpm (unat p div 256) l \<noteq> None"
    and new: "new = (if sub < 0 then None else Some (rule_next_hop (rules_tbl lpm (nat sub)), sd))"
    and V: "\<And>l. V l = (if in_sub p d l then supersede d (block_entry lpm (unat p div 256) l) new
        else block_entry lpm (unat p div 256) l)"
    and same: "\<And>h0 d0 l. V 0 = Some (h0, d0) \<Longrightarrow> d0 < 24 \<Longrightarrow> l < 256 \<Longrightarrow>
        \<exists>h' d'. V l = Some (h', d') \<and> (d' = d0 \<longrightarrow> h' = h0)"
  obtains t24 t8 where "delete_depth_big lpm p d sub sd = lpm\<lparr>tbl24 := t24, tbl8 := t8\<rparr>"
    "groups_ok (lpm\<lparr>tbl24 := t24, tbl8 := t8\<rparr>)"
    "\<And>b l. b < 2 ^ 24 \<Longrightarrow> l < 256 \<Longrightarrow> block_entry (lpm\<lparr>tbl24 := t24, tbl8 := t8\<rparr>) b l =
      (if b = unat p div 256 then V l else block_entry lpm b l)"
proof -
  let ?b = "unat p div 256"
  let ?g = "block_group lpm ?b"
  have b: "?b < 2 ^ 24" by (rule block_lt)
  have rng: "depth_to_range d = 2 ^ (32 - d)" using d by (simp add: depth_to_range_def)
  note sub = sub_index [OF d p]
  let ?hop = "rule_next_hop (rules_tbl lpm (nat sub))"
  define n8 where "n8 = (\<lambda>x. if sub < 0 then x\<lparr>t8_valid := False\<rparr>
    else \<lparr>t8_hop = ?hop, t8_valid = True, t8_valid_group = t8_valid_group (tbl8 lpm (?g * 256)), t8_depth = sd\<rparr>)"
  define t8 where "t8 = (\<lambda>j. if (j div 256 = ?g \<and> in_sub p d (j mod 256)) \<and> t8_depth (tbl8 lpm j) \<le> d
    then n8 (tbl8 lpm j) else tbl8 lpm j)"
  let ?l = "lpm\<lparr>tbl24 := tbl24 lpm, tbl8 := t8\<rparr>"
  have loop: "for_range (?g * 256 + unat p mod 256) (?g * 256 + unat p mod 256 + 2 ^ (32 - d))
      (\<lambda>i t8. if t8_depth (t8 i) \<le> d then t8(i := n8 (t8 i)) else t8) (tbl8 lpm) = t8"
    unfolding for_range_pointwise [of _ _ "\<lambda>_ x. t8_depth x \<le> d" "\<lambda>_. n8"] t8_def sub [symmetric]
    by (simp only: conj_assoc)
  have own: "t8_valid_group (tbl8 lpm (?g * 256))" using ok b ext by (simp add: groups_ok_def)
  have keep: "t8_valid_group (t8 (block_group lpm b * 256))" if "b < 2 ^ 24" "block_ext lpm b" for b
  proof -
    have "t8_valid_group (tbl8 lpm (block_group lpm b * 256))" using ok that by (simp add: groups_ok_def)
    then show ?thesis using own by (simp add: t8_def n8_def)
  qed
  have gl: "groups_ok ?l"
    by (rule sweep_groups_ok [OF ok refl])
      (use ok keep in \<open>auto simp: block_ext_def groups_ok_def\<close>)
  have n8v: "t8_value (n8 x) = new" for x using new by (simp add: n8_def t8_value_def)
  have el: "block_entry ?l b l = (if b = ?b then V l else block_entry lpm b l)"
    if bl: "b < 2 ^ 24" "l < 256" for b l
  proof (cases "block_ext lpm b")
    case False
    then show ?thesis using ext by (auto simp: block_entry_def block_ext_def Let_def)
  next
    case True
    let ?j = "block_group lpm b * 256 + l"
    have "block_group lpm b = ?g \<longleftrightarrow> b = ?b"
      using groups_inj [OF ok bl(1) b True ext] by blast
    then have t8j: "t8 ?j = (if b = ?b \<and> in_sub p d l \<and> t8_depth (tbl8 lpm ?j) \<le> d
        then n8 (tbl8 lpm ?j) else tbl8 lpm ?j)"
      using bl by (simp add: t8_def)
    have old: "block_entry lpm b l = t8_value (tbl8 lpm ?j)" and now: "block_entry ?l b l = t8_value (t8 ?j)"
      using True by (simp_all add: block_entry_def block_ext_def block_group_def Let_def)
    show ?thesis
    proof (cases "b = ?b \<and> in_sub p d l")
      case run: True
      then have "t8_value (tbl8 lpm ?j) \<noteq> None" using full [of l] old by simp
      then have "t8_value (tbl8 lpm ?j) = Some (t8_hop (tbl8 lpm ?j), t8_depth (tbl8 lpm ?j))"
        by (simp add: t8_value_def split: if_splits)
      then have "supersede d (block_entry lpm ?b l) new =
          (if d < t8_depth (tbl8 lpm ?j) then t8_value (tbl8 lpm ?j) else new)"
        using run old by (simp add: supersede_def)
      then show ?thesis using run n8v unfolding V now t8j by simp
    next
      case False
      then show ?thesis unfolding V now t8j using old by auto
    qed
  qed
  have vl: "t8_value (t8 (?g * 256 + l)) = V l" if "l < 256" for l
    using el [OF b that] ext by (simp add: block_entry_def block_ext_def block_group_def Let_def)
  have gb: "block_group ?l ?b = ?g" "block_ext ?l ?b" using ext by (simp_all add: block_group_def block_ext_def)
  have run: "delete_depth_big lpm p d sub sd =
      (let recycle = tbl8_recycle_check t8 (?g * 256) in
       if recycle = - EINVAL then
         lpm\<lparr>tbl24 := (tbl24 lpm)(?b := (tbl24 lpm ?b)\<lparr>t24_valid := False\<rparr>), tbl8 := tbl8_free t8 (?g * 256)\<rparr>
       else if recycle > - 1 then
         lpm\<lparr>tbl24 := (tbl24 lpm)(?b := \<lparr>t24_hop = t8_hop (t8 (nat recycle)), t24_valid = True,
             t24_ext = False, t24_depth = t8_depth (t8 (nat recycle))\<rparr>), tbl8 := tbl8_free t8 (?g * 256)\<rparr>
       else ?l)"
  proof -
    have part: "(if sub < 0 then for_range (?g * 256 + unat p mod 256) (?g * 256 + unat p mod 256 + 2 ^ (32 - d))
        (\<lambda>i t8. if t8_depth (t8 i) \<le> d then t8(i := (t8 i)\<lparr>t8_valid := False\<rparr>) else t8) (tbl8 lpm)
      else for_range (?g * 256 + unat p mod 256) (?g * 256 + unat p mod 256 + 2 ^ (32 - d))
        (\<lambda>i t8. if t8_depth (t8 i) \<le> d then t8(i := \<lparr>t8_hop = ?hop, t8_valid = True,
            t8_valid_group = t8_valid_group (tbl8 lpm (?g * 256)), t8_depth = sd\<rparr>) else t8) (tbl8 lpm)) = t8"
      unfolding loop [symmetric] n8_def by (cases "sub < 0") (simp_all cong: if_cong)
    show ?thesis
      unfolding delete_depth_big_def Let_def unat_drop_8 unat_and_FF rng RTE_LPM_TBL8_GROUP_NUM_ENTRIES_def
        block_group_def [symmetric] part
      by simp
  qed
  show ?thesis
  proof (rule recycle_cases [of t8 ?g])
    assume "tbl8_recycle_check t8 (?g * 256) = - EEXIST"
    then show ?thesis using that [of t8 "tbl24 lpm"] run gl el by simp
  next
    assume r: "tbl8_recycle_check t8 (?g * 256) = - EINVAL"
      and none: "\<And>l. l < 256 \<Longrightarrow> t8_value (t8 (?g * 256 + l)) = None"
    let ?e = "(tbl24 lpm ?b)\<lparr>t24_valid := False\<rparr>"
    show ?thesis
      using release_group [OF gl b gb(2), of ?e, unfolded gb(1)] el none vl r run
      by (intro that [of "tbl8_free t8 (?g * 256)" "(tbl24 lpm)(?b := ?e)"]) simp_all
  next
    assume r: "tbl8_recycle_check t8 (?g * 256) = int (?g * 256)" "t8_valid (t8 (?g * 256))"
      "t8_depth (t8 (?g * 256)) < 24"
      "\<And>l. l < 256 \<Longrightarrow> t8_depth (t8 (?g * 256 + l)) = t8_depth (t8 (?g * 256))"
    let ?s = "t8 (?g * 256)"
    let ?e = "\<lparr>t24_hop = t8_hop ?s, t24_valid = True, t24_ext = False, t24_depth = t8_depth ?s\<rparr>"
    have V0: "V 0 = Some (t8_hop ?s, t8_depth ?s)" using vl [of 0] r(2) by (simp add: t8_value_def)
    have all: "V l = Some (t8_hop ?s, t8_depth ?s)" if l: "l < 256" for l
    proof -
      obtain h' d' where hd: "V l = Some (h', d')" "d' = t8_depth ?s \<longrightarrow> h' = t8_hop ?s"
        using same [OF V0 r(3) l] by blast
      then have "d' = t8_depth (t8 (?g * 256 + l))"
        using vl [OF l] by (auto simp: t8_value_def split: if_splits)
      then show ?thesis using hd r(4) [OF l] by simp
    qed
    have c: "int (?g * 256) \<noteq> - EINVAL" "int (?g * 256) > - 1" by (simp_all del: of_nat_mult)
    have run3: "delete_depth_big lpm p d sub sd =
        lpm\<lparr>tbl24 := (tbl24 lpm)(?b := ?e), tbl8 := tbl8_free t8 (?g * 256)\<rparr>"
      unfolding run Let_def r(1) if_not_P [OF c(1)] if_P [OF c(2)] nat_int by (rule refl)
    show ?thesis
      using release_group [OF gl b gb(2), of ?e, unfolded gb(1)] el all run3 r(3)
      by (intro that [of "tbl8_free t8 (?g * 256)" "(tbl24 lpm)(?b := ?e)"]) simp_all
  qed
qed

section \<open>The operations\<close>

lemma masked_masked: "1 \<le> d \<Longrightarrow> d \<le> 32 \<Longrightarrow> (ip AND depth_to_mask d) AND depth_to_mask d = ip AND depth_to_mask d"
  by (simp add: and.assoc)

lemma covers_run:
  "1 \<le> d \<Longrightarrow> d \<le> 24 \<Longrightarrow> p AND depth_to_mask d = p \<Longrightarrow>
    in_run p d (unat ip div 256) \<longleftrightarrow> ip AND depth_to_mask d = p"
  using covers_small [of d p ip] by (simp add: in_run_def)

lemma covers_sub:
  "24 < d \<Longrightarrow> d \<le> 32 \<Longrightarrow> p AND depth_to_mask d = p \<Longrightarrow>
    unat ip div 256 = unat p div 256 \<and> in_sub p d (unat ip mod 256) \<longleftrightarrow> ip AND depth_to_mask d = p"
  using covers_big(2) [of d p ip] by (simp add: in_sub_def)

text \<open>Every offset of every block is an address.\<close>

lemma block_address:
  assumes "b < 2 ^ 24" "l < 256"
  obtains ip :: u32 where "unat ip div 256 = b" "unat ip mod 256 = l"
proof -
  have "b * 256 + l < 2 ^ 32"
  proof -
    have "b * 256 + l < b * 256 + 256" using assms(2) by simp
    also have "\<dots> \<le> 2 ^ 24 * 256"
      using assms(1) by (metis Suc_leI mult_Suc add.commute mult_le_mono1)
    finally show ?thesis by simp
  qed
  then have "unat (of_nat (b * 256 + l) :: u32) = b * 256 + l"
    by (simp only: unat_of_nat) (simp add: mod_less)
  then show ?thesis using that [of "of_nat (b * 256 + l)"] assms by simp
qed

lemma lpm_entry_longest: "lpm_ok lpm \<Longrightarrow> lpm_entry lpm ip = longest (routes lpm) ip 32"
  by (simp add: lpm_ok_def)

text \<open>A new state whose entries change the way the routes do keeps the invariant.\<close>

lemma lpm_ok_upd:
  assumes ok: "lpm_ok lpm" and d: "1 \<le> d" "d \<le> 32" and p: "p AND depth_to_mask d = p"
    and "rules_ok lpm'" "groups_ok lpm'" and routes: "routes lpm' = (routes lpm)(d := (routes lpm d)(p := v))"
    and entry: "\<And>ip. lpm_entry lpm' ip =
      (if ip AND depth_to_mask d = p
       then supersede d (lpm_entry lpm ip) (case v of Some h \<Rightarrow> Some (h, d) | None \<Rightarrow> longest (routes lpm) ip (d - 1))
       else lpm_entry lpm ip)"
  shows "lpm_ok lpm'"
proof -
  have "lpm_entry lpm' ip = longest (routes lpm') ip 32" for ip
    unfolding entry routes longest_upd [OF d] lpm_entry_longest [OF ok] ..
  moreover have "ip AND depth_to_mask d' = ip" if "routes lpm' d' ip \<noteq> None" for d' ip
  proof (cases "d' = d \<and> ip = p")
    case False
    then have "routes lpm d' ip \<noteq> None" using that routes by (auto split: if_splits)
    then show ?thesis using ok by (simp add: lpm_ok_def)
  qed (use p in auto)
  ultimately show ?thesis using assms(5,6) by (simp add: lpm_ok_def)
qed

lemma long_rule_ext:
  assumes ok: "lpm_ok lpm" and d: "24 < d" "d \<le> 32" and r: "routes lpm d p \<noteq> None"
  shows "block_ext lpm (unat p div 256)"
proof -
  have p: "p AND depth_to_mask d = p" using ok r by (simp add: lpm_ok_def)
  obtain h d' where l: "longest (routes lpm) p 32 = Some (h, d')"
    using longest_None_iff [of "routes lpm" p 32] r p d by (metis not_None_eq surj_pair le_trans less_imp_le_nat numeral_One one_le_numeral)
  have "d \<le> d'" using longest_ge [OF l, of d] r p d by simp
  have e: "lpm_entry lpm p = Some (h, d')" using lpm_entry_longest [OF ok] l by simp
  have gok: "groups_ok lpm" using ok by (simp add: lpm_ok_def)
  show ?thesis
  proof (rule ccontr)
    assume ne: "\<not> block_ext lpm (unat p div 256)"
    then have "t24_valid (tbl24 lpm (unat p div 256))" "\<not> t24_ext (tbl24 lpm (unat p div 256))"
      "t24_depth (tbl24 lpm (unat p div 256)) = d'"
      using e by (auto simp: block_entry_def block_ext_def Let_def split: if_splits)
    then have "d' \<le> 24" using gok block_lt [of p] unfolding groups_ok_def by metis
    then show False using \<open>d \<le> d'\<close> d by simp
  qed
qed

lemma rte_lpm_add_ok:
  assumes ok: "lpm_ok lpm" and d: "1 \<le> d" "d \<le> 32"
    and room: "routes lpm d (ip AND depth_to_mask d) \<noteq> None \<or> rules_total lpm < max_rules lpm"
    and room8: "d \<le> 24 \<or> block_ext lpm (unat (ip AND depth_to_mask d) div 256) \<or> tbl8_room (tbl8 lpm)"
  obtains lpm' where "rte_lpm_add lpm ip d hop = (0, lpm')" "lpm_ok lpm'" "max_rules lpm' = max_rules lpm"
    "routes lpm' = (routes lpm)(d := (routes lpm d)(ip AND depth_to_mask d \<mapsto> hop))"
proof -
  let ?p = "ip AND depth_to_mask d"
  have p: "?p AND depth_to_mask d = ?p" by (rule masked_masked [OF d])
  have rok: "rules_ok lpm" and gok: "groups_ok lpm" using ok by (simp_all add: lpm_ok_def)
  obtain i ri rt where a: "rule_add lpm ?p d hop = (int i, lpm\<lparr>rule_info := ri, rules_tbl := rt\<rparr>)"
    "rules_ok (lpm\<lparr>rule_info := ri, rules_tbl := rt\<rparr>)"
    "routes (lpm\<lparr>rule_info := ri, rules_tbl := rt\<rparr>) = (routes lpm)(d := (routes lpm d)(?p \<mapsto> hop))"
    by (rule rule_add_ok [OF rok d room])
  let ?l = "lpm\<lparr>rule_info := ri, rules_tbl := rt\<rparr>"
  have gl: "groups_ok ?l" using gok by simp
  show ?thesis
  proof (cases "d \<le> 24")
    case True
    obtain t24 t8 where s: "add_depth_small ?l ?p d hop = ?l\<lparr>tbl24 := t24, tbl8 := t8\<rparr>"
      "groups_ok (?l\<lparr>tbl24 := t24, tbl8 := t8\<rparr>)"
      "\<And>b l. b < 2 ^ 24 \<Longrightarrow> l < 256 \<Longrightarrow> block_entry (?l\<lparr>tbl24 := t24, tbl8 := t8\<rparr>) b l =
        (if in_run ?p d b then supersede d (block_entry ?l b l) (Some (hop, d)) else block_entry ?l b l)"
      using add_depth_small_ok [OF gl d(1) True p] by metis
    let ?l' = "?l\<lparr>tbl24 := t24, tbl8 := t8\<rparr>"
    have "rte_lpm_add lpm ip d hop = (0, ?l')"
      using d True a s(1) by (simp add: rte_lpm_add_def)
    moreover have "lpm_ok ?l'"
      by (rule lpm_ok_upd [OF ok d p, of _ "Some hop"])
        (use a s(2,3) block_lt covers_run [OF d(1) True p] in simp_all)
    ultimately show ?thesis using that a(3) by simp
  next
    case False
    then have d': "24 < d" by simp
    have ext: "block_ext ?l (unat ?p div 256) \<or> tbl8_room (tbl8 ?l)" using room8 False by simp
    obtain t24 t8 where s: "add_depth_big ?l ?p d hop = (0, ?l\<lparr>tbl24 := t24, tbl8 := t8\<rparr>)"
      "groups_ok (?l\<lparr>tbl24 := t24, tbl8 := t8\<rparr>)"
      "\<And>b l. b < 2 ^ 24 \<Longrightarrow> l < 256 \<Longrightarrow> block_entry (?l\<lparr>tbl24 := t24, tbl8 := t8\<rparr>) b l =
        (if b = unat ?p div 256 \<and> in_sub ?p d l then supersede d (block_entry ?l b l) (Some (hop, d))
         else block_entry ?l b l)"
      using add_depth_big_ok [OF gl d' d(2) p ext] by metis
    let ?l' = "?l\<lparr>tbl24 := t24, tbl8 := t8\<rparr>"
    have "rte_lpm_add lpm ip d hop = (0, ?l')"
      using d False a s(1) by (simp add: rte_lpm_add_def)
    moreover have "lpm_ok ?l'"
      by (rule lpm_ok_upd [OF ok d p, of _ "Some hop"])
        (use a s(2,3) block_lt covers_sub [OF d' d(2) p] in simp_all)
    ultimately show ?thesis using that a(3) by simp
  qed
qed

lemma lpm_ok_rules:
  "lpm_ok lpm \<Longrightarrow> rules_ok (lpm\<lparr>rule_info := ri, rules_tbl := rt\<rparr>) \<Longrightarrow>
    routes (lpm\<lparr>rule_info := ri, rules_tbl := rt\<rparr>) = routes lpm \<Longrightarrow>
    lpm_ok (lpm\<lparr>rule_info := ri, rules_tbl := rt\<rparr>)"
  by (simp add: lpm_ok_def)

lemma rte_lpm_add_fails:
  assumes ok: "lpm_ok lpm" and d: "1 \<le> d" "d \<le> 32"
    and full: "routes lpm d (ip AND depth_to_mask d) = None \<and> rules_total lpm = max_rules lpm \<or>
      24 < d \<and> \<not> block_ext lpm (unat (ip AND depth_to_mask d) div 256) \<and> \<not> tbl8_room (tbl8 lpm)"
  obtains lpm' where "rte_lpm_add lpm ip d hop = (- ENOSPC, lpm')" "lpm_ok lpm'"
    "max_rules lpm' = max_rules lpm" "routes lpm' = routes lpm"
proof -
  let ?p = "ip AND depth_to_mask d"
  have rok: "rules_ok lpm" using ok by (simp add: lpm_ok_def)
  show ?thesis
  proof (cases "routes lpm d ?p = None \<and> rules_total lpm = max_rules lpm")
    case True
    obtain ri where a: "rule_add lpm ?p d hop = (- ENOSPC, lpm\<lparr>rule_info := ri\<rparr>)"
      "rules_ok (lpm\<lparr>rule_info := ri\<rparr>)" "routes (lpm\<lparr>rule_info := ri\<rparr>) = routes lpm"
      by (rule rule_add_full [OF rok d]) (use True in auto)
    have "lpm_ok (lpm\<lparr>rule_info := ri\<rparr>)"
      using lpm_ok_rules [OF ok, where ri = ri and rt = "rules_tbl lpm"] a by simp
    then show ?thesis using that a d by (simp add: rte_lpm_add_def)
  next
    case False
    then have d': "24 < d" and ne: "\<not> block_ext lpm (unat ?p div 256)" "\<not> tbl8_room (tbl8 lpm)"
      using full by auto
    have none: "routes lpm d ?p = None" using long_rule_ext [OF ok d' d(2)] ne(1) by blast
    have "rules_total lpm \<le> max_rules lpm" using rok by (simp add: rules_ok_def)
    then have room: "routes lpm d ?p \<noteq> None \<or> rules_total lpm < max_rules lpm" using False none by auto
    obtain i ri rt where a: "rule_add lpm ?p d hop = (int i, lpm\<lparr>rule_info := ri, rules_tbl := rt\<rparr>)"
      "rules_ok (lpm\<lparr>rule_info := ri, rules_tbl := rt\<rparr>)"
      "routes (lpm\<lparr>rule_info := ri, rules_tbl := rt\<rparr>) = (routes lpm)(d := (routes lpm d)(?p \<mapsto> hop))"
      "rule_scan (lpm\<lparr>rule_info := ri, rules_tbl := rt\<rparr>) ?p d = Some i"
      by (rule rule_add_ok [OF rok d room])
    let ?l = "lpm\<lparr>rule_info := ri, rules_tbl := rt\<rparr>"
    obtain ri' rt' where r: "rule_delete ?l i d = ?l\<lparr>rule_info := ri', rules_tbl := rt'\<rparr>"
      "rules_ok (?l\<lparr>rule_info := ri', rules_tbl := rt'\<rparr>)"
      "routes (?l\<lparr>rule_info := ri', rules_tbl := rt'\<rparr>) = (routes ?l)(d := (routes ?l d)(?p := None))"
      by (rule rule_delete_ok [OF a(2) d a(4)])
    let ?l' = "lpm\<lparr>rule_info := ri', rules_tbl := rt'\<rparr>"
    have same: "routes ?l' = routes lpm" using r(3) a(3) none by (auto simp: fun_eq_iff)
    have "add_depth_big ?l ?p d hop = (- ENOSPC, ?l)" using ne by (intro add_depth_big_full) simp_all
    then have "rte_lpm_add lpm ip d hop = (- ENOSPC, ?l')"
      using d d' a(1) r(1) by (simp add: rte_lpm_add_def)
    moreover have "lpm_ok ?l'" using lpm_ok_rules [OF ok, where ri = ri' and rt = rt'] r(2) same by simp
    ultimately show ?thesis using that same by simp
  qed
qed

lemma find_previous_longest:
  assumes "n \<le> 32" "find_previous_from lpm ip n = (i, sd)"
  shows "case longest (routes lpm) ip n of None \<Rightarrow> i < 0
    | Some (h, d) \<Rightarrow> 0 \<le> i \<and> sd = d \<and> rule_next_hop (rules_tbl lpm (nat i)) = h"
  using assms
proof (induction n)
  case (Suc n)
  have r: "routes lpm (Suc n) x = map_option (\<lambda>i. rule_next_hop (rules_tbl lpm i)) (rule_scan lpm x (Suc n))" for x
    using Suc.prems(1) by (intro routes_scan) simp_all
  show ?case
    using Suc by (auto simp: r rule_find_def Let_def split: option.splits if_splits)
qed simp

lemma find_previous_depth: "find_previous_from lpm ip n = (i, sd) \<Longrightarrow> sd \<le> n"
  by (induction n) (auto simp: Let_def le_Suc_eq split: if_splits)

definition delete_safe :: "rte_lpm \<Rightarrow> u32 \<Rightarrow> nat \<Rightarrow> bool" where
  "delete_safe lpm ip d \<longleftrightarrow> 24 < d \<or>
     hops_not_groups lpm (ip AND depth_to_mask d) d \<and>
     (longest (routes lpm) ip (d - 1) = None \<or> firsts_deeper lpm (ip AND depth_to_mask d) d)"

lemma rte_lpm_delete_ok:
  assumes ok: "lpm_ok lpm" and d: "1 \<le> d" "d \<le> 32"
    and rule: "routes lpm d (ip AND depth_to_mask d) \<noteq> None" and safe: "delete_safe lpm ip d"
  obtains lpm' where "rte_lpm_delete lpm ip d = (0, lpm')" "lpm_ok lpm'" "max_rules lpm' = max_rules lpm"
    "routes lpm' = (routes lpm)(d := (routes lpm d)(ip AND depth_to_mask d := None))"
proof -
  let ?p = "ip AND depth_to_mask d" and ?R = "routes lpm"
  have p: "?p AND depth_to_mask d = ?p" by (rule masked_masked [OF d])
  have rok: "rules_ok lpm" and gok: "groups_ok lpm" using ok by (simp_all add: lpm_ok_def)
  obtain i where i: "rule_scan lpm ?p d = Some i" using rule d by (auto simp: routes_scan)
  obtain ri rt where r: "rule_delete lpm i d = lpm\<lparr>rule_info := ri, rules_tbl := rt\<rparr>"
    "rules_ok (lpm\<lparr>rule_info := ri, rules_tbl := rt\<rparr>)"
    "routes (lpm\<lparr>rule_info := ri, rules_tbl := rt\<rparr>) = ?R(d := (?R d)(?p := None))"
    by (rule rule_delete_ok [OF rok d i])
  let ?l = "lpm\<lparr>rule_info := ri, rules_tbl := rt\<rparr>"
  have gl: "groups_ok ?l" using gok by simp
  obtain j sd where j: "find_previous_rule ?l ip d = (j, sd)" by (cases "find_previous_rule ?l ip d")
  have low: "longest (?R(d := (?R d)(?p := None))) x n = longest ?R x n" if "n < d" for x n
    using that
  proof (induction n)
    case (Suc n)
    then show ?case by (simp split: option.splits)
  qed simp
  define new where "new = (if j < 0 then None else Some (rule_next_hop (rules_tbl ?l (nat j)), sd))"
  have new: "longest ?R ip (d - 1) = new"
  proof -
    have "case longest ?R ip (d - 1) of None \<Rightarrow> j < 0
        | Some (h, d') \<Rightarrow> 0 \<le> j \<and> sd = d' \<and> rule_next_hop (rules_tbl ?l (nat j)) = h"
      using find_previous_longest [of "d - 1" ?l ip j sd] j d low [of "d - 1" ip]
      unfolding find_previous_rule_def r(3) by simp
    then show ?thesis by (cases "longest ?R ip (d - 1)") (auto simp: new_def)
  qed
  have new': "longest ?R x (d - 1) = new" if "x AND depth_to_mask d = ?p" for x
    using longest_same_prefix [of x d ip "d - 1" ?R] that d new by simp
  have find: "rule_find lpm ?p d = int i" using i by (simp add: rule_find_def)
  have top: "\<exists>h d'. lpm_entry lpm x = Some (h, d') \<and> d \<le> d'" if "x AND depth_to_mask d = ?p" for x
  proof -
    have "longest ?R x 32 \<noteq> None" unfolding longest_None_iff using rule that d by auto
    then obtain h d' where l: "longest ?R x 32 = Some (h, d')" by auto
    then have "d \<le> d'" using longest_ge [OF l, of d] rule that d by simp
    then show ?thesis using lpm_entry_longest [OF ok] l by auto
  qed
  show ?thesis
  proof (cases "d \<le> 24")
    case True
    have full: "block_entry ?l b l \<noteq> None" if bl: "in_run ?p d b" "l < 256" for b l
    proof -
      obtain x :: u32 where x: "unat x div 256 = b" "unat x mod 256 = l"
        using block_address [OF in_run_lt [OF d(1) True p bl(1)] bl(2)] by metis
      then have "x AND depth_to_mask d = ?p" using covers_run [OF d(1) True p, of x] bl(1) by simp
      then show ?thesis using top [of x] x by auto
    qed
    have hs: "hops_not_groups ?l ?p d" "j < 0 \<or> firsts_deeper ?l ?p d"
      using safe True new unfolding delete_safe_def new_def
      by (auto simp: hops_not_groups_def firsts_deeper_def split: if_splits)
    have sd: "sd \<le> 24"
      using find_previous_depth [of ?l ip "d - 1" j sd] j True by (simp add: find_previous_rule_def)
    obtain t8 t24 where s: "delete_depth_small ?l ?p d j sd = ?l\<lparr>tbl24 := t24, tbl8 := t8\<rparr>"
      "groups_ok (?l\<lparr>tbl24 := t24, tbl8 := t8\<rparr>)"
      "\<And>b l. b < 2 ^ 24 \<Longrightarrow> l < 256 \<Longrightarrow> block_entry (?l\<lparr>tbl24 := t24, tbl8 := t8\<rparr>) b l =
        (if in_run ?p d b then supersede d (block_entry ?l b l) new else block_entry ?l b l)"
      by (rule delete_depth_small_ok [OF gl d(1) True p _ hs sd, folded new_def])
        (rule full, assumption+, rule that)
    let ?l' = "?l\<lparr>tbl24 := t24, tbl8 := t8\<rparr>"
    have "rte_lpm_delete lpm ip d = (0, ?l')"
      using d True find r(1) j s(1) by (simp add: rte_lpm_delete_def)
    moreover have "lpm_ok ?l'"
      by (rule lpm_ok_upd [OF ok d p, of _ None])
        (use r s(2,3) block_lt covers_run [OF d(1) True p] new' in simp_all)
    ultimately show ?thesis using that r(3) by simp
  next
    case False
    then have d': "24 < d" by simp
    let ?b = "unat ?p div 256"
    define V where "V = (\<lambda>l. if in_sub ?p d l then supersede d (block_entry ?l ?b l) new else block_entry ?l ?b l)"
    have ext: "block_ext ?l ?b" using long_rule_ext [OF ok d' d(2) rule] by simp
    have addr: "\<exists>x :: u32. unat x div 256 = ?b \<and> unat x mod 256 = l" if "l < 256" for l
      using block_address [OF block_lt that] by metis
    have full: "block_entry ?l ?b l \<noteq> None" if sub: "in_sub ?p d l" for l
    proof -
      have "l < 256" using sub covers_big(1) [OF d' d(2) p] by (simp add: in_sub_def)
      then obtain x :: u32 where x: "unat x div 256 = ?b" "unat x mod 256 = l" using addr by blast
      then have "x AND depth_to_mask d = ?p" using covers_sub [OF d' d(2) p, of x] sub by simp
      then show ?thesis using top [of x] x by auto
    qed
    have Vx: "V (unat x mod 256) = longest (?R(d := (?R d)(?p := None))) x 32" if "unat x div 256 = ?b" for x
    proof -
      have "block_entry ?l ?b (unat x mod 256) = longest ?R x 32"
        using lpm_entry_longest [OF ok, of x] that by simp
      then show ?thesis
        using covers_sub [OF d' d(2) p, of x] that new' [of x] unfolding V_def longest_upd [OF d] by auto
    qed
    have same: "\<exists>h' d'. V l = Some (h', d') \<and> (d' = d0 \<longrightarrow> h' = h0)"
      if h: "V 0 = Some (h0, d0)" "d0 < 24" "l < 256" for h0 d0 l
    proof -
      let ?R' = "?R(d := (?R d)(?p := None))"
      obtain x0 :: u32 where x0: "unat x0 div 256 = ?b" "unat x0 mod 256 = 0" using addr [of 0] by auto
      obtain x :: u32 where x: "unat x div 256 = ?b" "unat x mod 256 = l" using addr h(3) by blast
      have l0: "longest ?R' x0 32 = Some (h0, d0)" using Vx [OF x0(1)] x0(2) h(1) by simp
      note D = longest_SomeD [OF l0]
      have eq: "x AND depth_to_mask d0 = x0 AND depth_to_mask d0"
      proof -
        have "1 \<le> d0" "d0 \<le> 24" using D h(2) by auto
        then show ?thesis
          using covers_run [of d0 "x0 AND depth_to_mask d0" x] covers_run [of d0 "x0 AND depth_to_mask d0" x0]
            masked_masked [of d0 x0] x(1) x0(1) by simp
      qed
      then have m: "?R' d0 (x AND depth_to_mask d0) = Some h0" using D by simp
      have "longest ?R' x 32 \<noteq> None"
      proof
        assume "longest ?R' x 32 = None"
        then have "?R' d0 (x AND depth_to_mask d0) = None" using D unfolding longest_None_iff by blast
        then show False unfolding m by simp
      qed
      then obtain h' d'' where lx: "longest ?R' x 32 = Some (h', d'')" by auto
      have "h' = h0" if "d'' = d0" using longest_SomeD [OF lx] m that by simp
      then show ?thesis using lx Vx [OF x(1)] x(2) by auto
    qed
    obtain t8 t24 where s: "delete_depth_big ?l ?p d j sd = ?l\<lparr>tbl24 := t24, tbl8 := t8\<rparr>"
      "groups_ok (?l\<lparr>tbl24 := t24, tbl8 := t8\<rparr>)"
      "\<And>b l. b < 2 ^ 24 \<Longrightarrow> l < 256 \<Longrightarrow> block_entry (?l\<lparr>tbl24 := t24, tbl8 := t8\<rparr>) b l =
        (if b = ?b then V l else block_entry ?l b l)"
      by (rule delete_depth_big_ok [OF gl d' d(2) p ext _ new_def, of V])
        (rule full, assumption, simp only: V_def, rule same, assumption+, rule that)
    let ?l' = "?l\<lparr>tbl24 := t24, tbl8 := t8\<rparr>"
    have "rte_lpm_delete lpm ip d = (0, ?l')"
      using d False find r(1) j s(1) by (simp add: rte_lpm_delete_def)
    moreover have "lpm_ok ?l'"
    proof (rule lpm_ok_upd [OF ok d p, of _ None])
      fix x :: u32
      show "lpm_entry ?l' x = (if x AND depth_to_mask d = ?p
          then supersede d (lpm_entry lpm x) (case None of None \<Rightarrow> longest ?R x (d - 1) | Some h \<Rightarrow> Some (h, d))
          else lpm_entry lpm x)"
        using s(3) [OF block_lt [of x], of "unat x mod 256"] covers_sub [OF d' d(2) p, of x] new' [of x]
        by (auto simp: V_def)
    qed (use r s(2) in simp_all)
    ultimately show ?thesis using that r(3) by simp
  qed
qed

end
