(* ===== verification/Rte_Lpm_Correct.thy ===== *)
theory Rte_Lpm_Correct
  imports Rte_Lpm_Tables Route_Table
begin

unbundle bit_operations_syntax

text \<open>
  What the longest-prefix-match library promises its callers, on top of the
  invariant of \<open>Rte_Lpm_Tables\<close>: the lookups, single, in bulk and by four; the
  contract \<open>route_table\<close> for the clients of the library; and the states in which
  the code departs from it.
\<close>

section \<open>Lookup words\<close>

lemma bit_entry_word:
  "bit (entry_word hop valid ext depth) n \<longleftrightarrow> n < 16 \<and>
    (bit hop n \<or> n = 8 \<and> valid \<or> n = 9 \<and> ext \<or> 10 \<le> n \<and> bit depth (n - 10))"
  by (auto simp: entry_word_def bit_or_iff bit_ucast_iff bit_push_bit_iff bit_of_nat_iff
        bit_of_bool_iff dest: bit_imp_le_length)

lemma bit_hop_lt: "bit (hop :: u8) n \<Longrightarrow> n < 8"
  using bit_imp_le_length [of hop n] by simp

lemma entry_word_valid: "entry_word hop valid ext depth AND RTE_LPM_LOOKUP_SUCCESS \<noteq> 0 \<longleftrightarrow> valid"
proof -
  have m: "RTE_LPM_LOOKUP_SUCCESS = 2 ^ 8" by (simp add: RTE_LPM_LOOKUP_SUCCESS_def)
  show ?thesis unfolding m and_exp_eq_0_iff_not_bit using bit_hop_lt [of hop 8] by (auto simp: bit_entry_word)
qed

lemma entry_word_ext:
  "entry_word hop valid ext depth AND RTE_LPM_VALID_EXT_ENTRY_BITMASK = RTE_LPM_VALID_EXT_ENTRY_BITMASK
    \<longleftrightarrow> valid \<and> ext"
proof -
  let ?w = "entry_word hop valid ext depth"
  have m: "RTE_LPM_VALID_EXT_ENTRY_BITMASK = 2 ^ 8 OR 2 ^ 9" by (simp add: RTE_LPM_VALID_EXT_ENTRY_BITMASK_def)
  have bm: "bit RTE_LPM_VALID_EXT_ENTRY_BITMASK n \<longleftrightarrow> n = 8 \<or> n = 9" for n
    unfolding m bit_or_iff bit_exp_iff by auto
  have "?w AND RTE_LPM_VALID_EXT_ENTRY_BITMASK = RTE_LPM_VALID_EXT_ENTRY_BITMASK \<longleftrightarrow> bit ?w 8 \<and> bit ?w 9"
  proof
    assume "?w AND RTE_LPM_VALID_EXT_ENTRY_BITMASK = RTE_LPM_VALID_EXT_ENTRY_BITMASK"
    then have "bit (?w AND RTE_LPM_VALID_EXT_ENTRY_BITMASK) n \<longleftrightarrow> n = 8 \<or> n = 9" for n by (simp only: bm)
    then show "bit ?w 8 \<and> bit ?w 9" unfolding bit_and_iff by blast
  next
    assume "bit ?w 8 \<and> bit ?w 9"
    then show "?w AND RTE_LPM_VALID_EXT_ENTRY_BITMASK = RTE_LPM_VALID_EXT_ENTRY_BITMASK"
      by (intro bit_word_eqI) (auto simp only: bit_and_iff bm)
  qed
  then show ?thesis using bit_hop_lt [of hop 8] bit_hop_lt [of hop 9] by (auto simp: bit_entry_word)
qed

lemma ucast_entry_word: "(ucast (entry_word hop valid ext depth) :: u8) = hop"
  by (rule bit_word_eqI) (auto simp: bit_ucast_iff bit_entry_word dest: bit_imp_le_length)

lemmas entry_words = entry_word_valid entry_word_ext ucast_entry_word

lemma load_t8:
  "block_ext lpm (unat ip div 256) \<Longrightarrow>
    lpm_load lpm ip = tbl8_word (tbl8 lpm (block_group lpm (unat ip div 256) * 256 + unat ip mod 256))"
  by (simp add: lpm_load_def tbl24_word_def entry_words block_ext_def block_group_def unat_drop_8
      unat_ucast_u8 add.commute Let_def)

lemma load_t24:
  "\<not> block_ext lpm (unat ip div 256) \<Longrightarrow> lpm_load lpm ip = tbl24_word (tbl24 lpm (unat ip div 256))"
  by (auto simp: lpm_load_def tbl24_word_def entry_words block_ext_def unat_drop_8 Let_def)

text \<open>The lookup reads the entry of the address.\<close>

lemma lookup_entry:
  "case lpm_entry lpm ip of None \<Rightarrow> fst (rte_lpm_lookup lpm ip) = - ENOENT
    | Some (h, d) \<Rightarrow> rte_lpm_lookup lpm ip = (0, h)"
proof (cases "block_ext lpm (unat ip div 256)")
  case True
  let ?e = "tbl8 lpm (block_group lpm (unat ip div 256) * 256 + unat ip mod 256)"
  have "lpm_entry lpm ip = t8_value ?e"
    using True by (simp add: block_entry_def block_ext_def block_group_def Let_def)
  moreover have "rte_lpm_lookup lpm ip = (if t8_valid ?e then 0 else - ENOENT, t8_hop ?e)"
    unfolding rte_lpm_lookup_def load_t8 [OF True] tbl8_word_def Let_def entry_words ..
  ultimately show ?thesis by (simp add: t8_value_def)
next
  case False
  let ?e = "tbl24 lpm (unat ip div 256)"
  have "lpm_entry lpm ip = (if t24_valid ?e then Some (t24_hop ?e, t24_depth ?e) else None)"
    using False by (auto simp: block_entry_def block_ext_def Let_def)
  moreover have "rte_lpm_lookup lpm ip = (if t24_valid ?e then 0 else - ENOENT, t24_hop ?e)"
    unfolding rte_lpm_lookup_def load_t24 [OF False] tbl24_word_def Let_def entry_words ..
  ultimately show ?thesis by simp
qed

lemma lookup_longest:
  assumes "lpm_ok lpm"
  shows "case longest (routes lpm) ip 32 of None \<Rightarrow> fst (rte_lpm_lookup lpm ip) = - ENOENT
    | Some (h, d) \<Rightarrow> rte_lpm_lookup lpm ip = (0, h)"
  using lookup_entry [of lpm ip] lpm_entry_longest [OF assms, of ip] by simp

lemma lookup_bulk_loads: "rte_lpm_lookup_bulk_func lpm ips = map (lpm_load lpm) ips"
  by (induction ips) (simp_all add: rte_lpm_lookup_bulk_func_def lpm_load_def Let_def)

lemma is_rule_present_eq:
  "1 \<le> d \<Longrightarrow> d \<le> 32 \<Longrightarrow> rte_lpm_is_rule_present lpm ip d =
    (case routes lpm d (ip AND depth_to_mask d) of None \<Rightarrow> (0, None) | Some h \<Rightarrow> (1, Some h))"
  by (auto simp: rte_lpm_is_rule_present_def routes_scan rule_find_def split: option.splits)

section \<open>The empty table\<close>

lemma empty_lpm_ok:
  assumes "\<And>i. i < 32 \<Longrightarrow> rule_info lpm i = zero_rule_info"
    "\<And>b. b < 2 ^ 24 \<Longrightarrow> \<not> t24_valid (tbl24 lpm b)" "0 < max_rules lpm"
  shows "lpm_ok lpm" "routes lpm = (\<lambda>_ _. None)" "rules_total lpm = 0"
proof -
  have u: "rule_used lpm i = 0" "rule_first lpm i = 0" if "i < 32" for i
    using assms(1) [OF that] by (simp_all add: zero_rule_info_def)
  have t: "rules_before (rule_used lpm) i = 0" if "i \<le> 32" for i
    using that u(1) by (induction i) simp_all
  show "rules_total lpm = 0" using t [of 32] by simp
  have g: "rule_group lpm e = []" if "e < 32" for e using u(1) [OF that] by (simp add: rule_group_def)
  show r: "routes lpm = (\<lambda>_ _. None)" using g by (auto simp: routes_def fun_eq_iff)
  have l: "longest (\<lambda>_ _. None) ip n = None" for ip n by (induction n) auto
  have "lpm_entry lpm ip = None" for ip
    using assms(2) [OF block_lt [of ip]] by (simp add: block_entry_def)
  then show "lpm_ok lpm"
    using u t g assms(2,3) by (simp add: lpm_ok_def rules_ok_def groups_ok_def block_ext_def r l)
qed

section \<open>Four lookups at once\<close>

definition pack4 :: "u16 \<Rightarrow> u16 \<Rightarrow> u16 \<Rightarrow> u16 \<Rightarrow> u64" where
  "pack4 t0 t1 t2 t3 = ucast t0 OR push_bit 16 (ucast t1) OR push_bit 32 (ucast t2) OR push_bit 48 (ucast t3)"

lemma bit_u16_lt: "bit (t :: u16) n \<Longrightarrow> n < 16"
  using bit_imp_le_length [of t n] by simp

lemma bit_pack4:
  assumes "n < 16"
  shows "bit (pack4 t0 t1 t2 t3) n = bit t0 n" "bit (pack4 t0 t1 t2 t3) (16 + n) = bit t1 n"
    "bit (pack4 t0 t1 t2 t3) (32 + n) = bit t2 n" "bit (pack4 t0 t1 t2 t3) (48 + n) = bit t3 n"
  using assms
  by (auto simp: pack4_def bit_or_iff bit_ucast_iff bit_push_bit_iff dest: bit_u16_lt)

lemma ext_bits: "bit (ucast RTE_LPM_VALID_EXT_ENTRY_BITMASK :: u64) n \<longleftrightarrow> n = 8 \<or> n = 9"
proof -
  have "(ucast RTE_LPM_VALID_EXT_ENTRY_BITMASK :: u64) = 2 ^ 8 OR 2 ^ 9"
    by (simp add: RTE_LPM_VALID_EXT_ENTRY_BITMASK_def)
  then show ?thesis by (simp only: bit_or_iff bit_exp_iff) auto
qed

lemma ok_bits: "bit (ucast RTE_LPM_LOOKUP_SUCCESS :: u64) n \<longleftrightarrow> n = 8"
proof -
  have "(ucast RTE_LPM_LOOKUP_SUCCESS :: u64) = 2 ^ 8" by (simp add: RTE_LPM_LOOKUP_SUCCESS_def)
  then show ?thesis by (simp only: bit_exp_iff) auto
qed

lemma hop_bits: "bit (0x00ff00ff00ff00ff :: u64) n \<longleftrightarrow> n < 64 \<and> n mod 16 < 8"
proof -
  have "(0x00ff00ff00ff00ff :: u64) = mask 8 OR push_bit 16 (mask 8) OR push_bit 32 (mask 8) OR push_bit 48 (mask 8)"
    by (simp add: mask_eq_exp_minus_1 push_bit_eq_mult)
  then have "bit (0x00ff00ff00ff00ff :: u64) n \<longleftrightarrow>
      n < 8 \<or> 16 \<le> n \<and> n < 24 \<or> 32 \<le> n \<and> n < 40 \<or> 48 \<le> n \<and> n < 56"
    by (simp only: bit_or_iff bit_push_bit_iff bit_mask_iff) auto
  also have "\<dots> \<longleftrightarrow> n < 64 \<and> n mod 16 < 8"
    by presburger
  finally show ?thesis .
qed

lemma ext_test:
  "drop_bit sh pt AND ucast RTE_LPM_VALID_EXT_ENTRY_BITMASK = ucast RTE_LPM_VALID_EXT_ENTRY_BITMASK
    \<longleftrightarrow> bit pt (sh + 8) \<and> bit (pt :: u64) (sh + 9)"
proof
  assume "drop_bit sh pt AND ucast RTE_LPM_VALID_EXT_ENTRY_BITMASK = ucast RTE_LPM_VALID_EXT_ENTRY_BITMASK"
  then have "bit (drop_bit sh pt AND ucast RTE_LPM_VALID_EXT_ENTRY_BITMASK) n \<longleftrightarrow> n = 8 \<or> n = 9" for n
    by (simp only: ext_bits)
  then show "bit pt (sh + 8) \<and> bit pt (sh + 9)" unfolding bit_and_iff bit_drop_bit_eq comp_def by blast
next
  assume "bit pt (sh + 8) \<and> bit pt (sh + 9)"
  then show "drop_bit sh pt AND ucast RTE_LPM_VALID_EXT_ENTRY_BITMASK = ucast RTE_LPM_VALID_EXT_ENTRY_BITMASK"
    by (intro bit_word_eqI) (auto simp only: bit_and_iff bit_drop_bit_eq comp_def ext_bits)
qed

lemma fast_test:
  assumes "pt AND (ext OR push_bit 16 ext OR push_bit 32 ext OR push_bit 48 ext) =
      (s OR push_bit 16 s OR push_bit 32 s OR push_bit 48 s)"
    and "ext = ucast RTE_LPM_VALID_EXT_ENTRY_BITMASK" "s = ucast RTE_LPM_LOOKUP_SUCCESS"
    and "sh \<in> {0, 16, 32, 48}"
  shows "bit (pt :: u64) (sh + 8) \<and> \<not> bit pt (sh + 9)"
proof -
  let ?m = "ext OR push_bit 16 ext OR push_bit 32 ext OR push_bit 48 ext"
  let ?v = "s OR push_bit 16 s OR push_bit 32 s OR push_bit 48 s"
  have "bit ?m (sh + 8)" "bit ?m (sh + 9)"
    using assms(4) by (auto simp: bit_or_iff bit_push_bit_iff assms(2) ext_bits)
  moreover have "bit ?v (sh + 8)" "\<not> bit ?v (sh + 9)"
    using assms(4) by (auto simp: bit_or_iff bit_push_bit_iff assms(3) ok_bits)
  moreover have "bit (pt AND ?m) n = bit ?v n" for n unfolding assms(1) ..
  ultimately show ?thesis unfolding bit_and_iff by metis
qed

lemma hop_lane:
  assumes "sh \<in> {0, 16, 32, 48}" and "\<And>n. n < 16 \<Longrightarrow> bit pt (sh + n) = bit t n"
  shows "(ucast (drop_bit sh (pt AND 0x00ff00ff00ff00ff :: u64)) :: u16) = ucast (ucast t :: u8)"
proof (rule bit_word_eqI)
  fix n assume "n < LENGTH(16)"
  then have n: "n < 16" by simp
  have "bit (0x00ff00ff00ff00ff :: u64) (sh + n) \<longleftrightarrow> n < 8"
  proof -
    have sh: "sh mod 16 = 0" "sh \<le> 48" using assms(1) by auto
    have "(sh + n) mod 16 = n" using sh(1) n by (metis add_0 mod_add_left_eq mod_less)
    then show ?thesis unfolding hop_bits using sh(2) n by simp
  qed
  then show "bit (ucast (drop_bit sh (pt AND 0x00ff00ff00ff00ff)) :: u16) n = bit (ucast (ucast t :: u8) :: u16) n"
    unfolding bit_ucast_iff bit_drop_bit_eq comp_def bit_and_iff assms(2) [OF n] using n by auto
qed

lemma lookupx4_lanes:
  "rte_lpm_lookupx4 lpm ip0 ip1 ip2 ip3 defv =
    map (\<lambda>ip. if lpm_load lpm ip AND RTE_LPM_LOOKUP_SUCCESS \<noteq> 0
              then ucast (ucast (lpm_load lpm ip) :: u8) else defv) [ip0, ip1, ip2, ip3]"
proof -
  let ?t = "\<lambda>ip :: u32. tbl24_word (tbl24 lpm (unat (drop_bit 8 ip)))"
  let ?pt = "pack4 (?t ip0) (?t ip1) (?t ip2) (?t ip3)"
  let ?step = "\<lambda>sh t (ip :: u32). if drop_bit sh ?pt AND (ucast RTE_LPM_VALID_EXT_ENTRY_BITMASK :: u64)
        = ucast RTE_LPM_VALID_EXT_ENTRY_BITMASK
      then tbl8_word (tbl8 lpm (unat (ip AND 0xFF) + unat (ucast t :: u8) * RTE_LPM_TBL8_GROUP_NUM_ENTRIES)) else t"
  let ?hop = "\<lambda>w. if w AND RTE_LPM_LOOKUP_SUCCESS \<noteq> 0 then ucast (ucast (w :: u16) :: u8) else defv"
  have ext: "bit (?t ip) 8 \<and> bit (?t ip) 9 \<longleftrightarrow> block_ext lpm (unat ip div 256)" for ip
    using bit_hop_lt [of _ 8] bit_hop_lt [of _ 9]
    by (auto simp: tbl24_word_def bit_entry_word unat_drop_8 block_ext_def)
  have ok: "bit (?t ip) 8 \<longleftrightarrow> ?t ip AND RTE_LPM_LOOKUP_SUCCESS \<noteq> 0" for ip
    using bit_hop_lt [of _ 8] unfolding tbl24_word_def entry_words bit_entry_word by auto
  have step: "?step sh (?t ip) ip = lpm_load lpm ip"
    if "\<And>n. n < 16 \<Longrightarrow> bit ?pt (sh + n) = bit (?t ip) n" for sh ip
  proof -
    have c: "(drop_bit sh ?pt AND (ucast RTE_LPM_VALID_EXT_ENTRY_BITMASK :: u64) =
        ucast RTE_LPM_VALID_EXT_ENTRY_BITMASK) = block_ext lpm (unat ip div 256)"
      unfolding ext_test ext [symmetric] using that [of 8] that [of 9] by simp
    show ?thesis unfolding c
      by (cases "block_ext lpm (unat ip div 256)")
        (simp_all add: load_t8 load_t24 unat_drop_8 tbl24_word_def entry_words unat_and_FF block_group_def add.commute)
  qed
  note lanes = bit_pack4 [of _ "?t ip0" "?t ip1" "?t ip2" "?t ip3"]
  let ?ext = "ucast RTE_LPM_VALID_EXT_ENTRY_BITMASK :: u64" and ?s = "ucast RTE_LPM_LOOKUP_SUCCESS :: u64"
  let ?fast = "?pt AND (?ext OR push_bit 16 ?ext OR push_bit 32 ?ext OR push_bit 48 ?ext) =
      (?s OR push_bit 16 ?s OR push_bit 32 ?s OR push_bit 48 ?s)"
  have unfolded: "rte_lpm_lookupx4 lpm ip0 ip1 ip2 ip3 defv =
      (if ?fast then map (\<lambda>sh. ucast (drop_bit sh (?pt AND 0x00ff00ff00ff00ff))) [0, 16, 32, 48]
       else [?hop (?step 0 (?t ip0) ip0), ?hop (?step 16 (?t ip1) ip1),
             ?hop (?step 32 (?t ip2) ip2), ?hop (?step 48 (?t ip3) ip3)])"
    unfolding rte_lpm_lookupx4_def Let_def pack4_def [symmetric] by simp
  show ?thesis
  proof (cases ?fast)
    case False
    show ?thesis
      unfolding unfolded if_not_P [OF False]
      using step [of 0 ip0] step [of 16 ip1] step [of 32 ip2] step [of 48 ip3] lanes by simp
  next
    case True
    have lane: "(ucast (drop_bit sh (?pt AND 0x00ff00ff00ff00ff)) :: u16) = ?hop (lpm_load lpm ip)"
      if sh: "sh \<in> {0, 16, 32, 48}" and b: "\<And>n. n < 16 \<Longrightarrow> bit ?pt (sh + n) = bit (?t ip) n" for sh ip
    proof -
      have "bit (?t ip) 8 \<and> \<not> bit (?t ip) 9"
        using fast_test [OF True refl refl sh] b [of 8] b [of 9] by simp
      then have "\<not> block_ext lpm (unat ip div 256)" "?t ip AND RTE_LPM_LOOKUP_SUCCESS \<noteq> 0"
        using ext [of ip] ok [of ip] by auto
      then show ?thesis using hop_lane [OF sh b] by (simp add: load_t24 unat_drop_8)
    qed
    show ?thesis
      unfolding unfolded if_P [OF True]
      using lane [of 0 ip0] lane [of 16 ip1] lane [of 32 ip2] lane [of 48 ip3] lanes by simp
  qed
qed

section \<open>The contract\<close>

lemma rte_lpm_add_cases:
  assumes ok: "lpm_ok lpm" and d: "1 \<le> d" "d \<le> 32"
  shows "(routes lpm d (ip AND depth_to_mask d) \<noteq> None \<or> rules_total lpm < max_rules lpm) \<and>
      (d \<le> 24 \<or> block_ext lpm (unat (ip AND depth_to_mask d) div 256) \<or> tbl8_room (tbl8 lpm)) \<and>
      (\<exists>lpm'. rte_lpm_add lpm ip d hop = (0, lpm') \<and> lpm_ok lpm' \<and> max_rules lpm' = max_rules lpm \<and>
        routes lpm' = (routes lpm)(d := (routes lpm d)(ip AND depth_to_mask d \<mapsto> hop)))
    \<or> (routes lpm d (ip AND depth_to_mask d) = None \<and> rules_total lpm = max_rules lpm \<or>
        24 < d \<and> \<not> block_ext lpm (unat (ip AND depth_to_mask d) div 256) \<and> \<not> tbl8_room (tbl8 lpm)) \<and>
      routes lpm d (ip AND depth_to_mask d) = None \<and>
      (\<exists>lpm'. rte_lpm_add lpm ip d hop = (- ENOSPC, lpm') \<and> lpm_ok lpm' \<and> max_rules lpm' = max_rules lpm \<and>
        routes lpm' = routes lpm)"
    (is "?room \<and> ?room8 \<and> ?success \<or> ?full \<and> _ \<and> ?failure")
proof (cases "?room \<and> ?room8")
  case True
  then show ?thesis using rte_lpm_add_ok [OF ok d] by metis
next
  case False
  have "rules_total lpm \<le> max_rules lpm" using ok by (simp add: lpm_ok_def rules_ok_def)
  then have full: ?full using False by auto
  moreover have "routes lpm d (ip AND depth_to_mask d) = None"
    using full long_rule_ext [OF ok _ d(2), of "ip AND depth_to_mask d"] by blast
  moreover have ?failure using rte_lpm_add_fails [OF ok d full] by metis
  ultimately show ?thesis by blast
qed

interpretation lpm: route_table lpm_ok routes rte_lpm_add rte_lpm_delete rte_lpm_is_rule_present
  rte_lpm_lookup delete_safe
proof (unfold_locales, goal_cases)
  case (1 t d ip h r t')
  then show ?case using rte_lpm_add_cases [OF 1(1-3), of ip h] by auto
next
  case (2 t d ip)
  then show ?case using rte_lpm_delete_ok [OF 2(1-3)] by metis
next
  case (3 t d ip)
  then show ?case by (simp add: is_rule_present_eq)
next
  case (4 t ip)
  then show ?case using lookup_longest [OF 4, of ip] by (auto split: option.splits)
qed

section \<open>Tables in use\<close>

text \<open>
  The tables a program can reach from a fresh one by additions, by deletions
  (which may be refused) under the condition \<open>delete_safe\<close>, and by
  \<open>rte_lpm_delete_all\<close>.
\<close>

inductive lpm_reach :: "rte_lpm \<Rightarrow> bool" where
  lpm_reach_init: "0 < n \<Longrightarrow> lpm_reach (lpm_init name n)"
| lpm_reach_add: "lpm_reach lpm \<Longrightarrow> lpm_reach (snd (rte_lpm_add lpm ip depth hop))"
| lpm_reach_delete: "lpm_reach lpm \<Longrightarrow> delete_safe lpm ip depth \<Longrightarrow>
    lpm_reach (snd (rte_lpm_delete lpm ip depth))"
| lpm_reach_delete_all: "lpm_reach lpm \<Longrightarrow> lpm_reach (rte_lpm_delete_all lpm)"

lemma init_lpm_ok:
  assumes "0 < n"
  shows "lpm_ok (lpm_init name n)" "routes (lpm_init name n) = (\<lambda>_ _. None)"
  using empty_lpm_ok [of "lpm_init name n"] assms
  by (simp_all add: lpm_init_def zero_tbl24_def)

lemma delete_all_lpm_ok:
  assumes "0 < max_rules lpm"
  shows "lpm_ok (rte_lpm_delete_all lpm)" "routes (rte_lpm_delete_all lpm) = (\<lambda>_ _. None)"
  using empty_lpm_ok [of "rte_lpm_delete_all lpm"] assms
  by (simp_all add: rte_lpm_delete_all_def zero_tbl24_def)

lemma rte_lpm_delete_refused:
  assumes "\<not> (1 \<le> d \<and> d \<le> 32) \<or> routes lpm d (ip AND depth_to_mask d) = None"
  shows "rte_lpm_delete lpm ip d = (- EINVAL, lpm)"
  using assms by (auto simp: rte_lpm_delete_def rule_find_def routes_scan Let_def)

lemma rte_lpm_add_refused: "\<not> (1 \<le> d \<and> d \<le> 32) \<Longrightarrow> rte_lpm_add lpm ip d hop = (- EINVAL, lpm)"
  by (auto simp: rte_lpm_add_def)

lemma rte_lpm_add_keeps:
  assumes "lpm_ok lpm"
  shows "lpm_ok (snd (rte_lpm_add lpm ip d hop))" "max_rules (snd (rte_lpm_add lpm ip d hop)) = max_rules lpm"
proof -
  have "lpm_ok (snd (rte_lpm_add lpm ip d hop)) \<and> max_rules (snd (rte_lpm_add lpm ip d hop)) = max_rules lpm"
  proof (cases "1 \<le> d \<and> d \<le> 32")
    case True
    then show ?thesis using rte_lpm_add_cases [OF assms, of d ip hop] by auto
  qed (use assms in \<open>simp add: rte_lpm_add_refused\<close>)
  then show "lpm_ok (snd (rte_lpm_add lpm ip d hop))" "max_rules (snd (rte_lpm_add lpm ip d hop)) = max_rules lpm"
    by simp_all
qed

lemma rte_lpm_delete_keeps:
  assumes "lpm_ok lpm" "delete_safe lpm ip d"
  shows "lpm_ok (snd (rte_lpm_delete lpm ip d))" "max_rules (snd (rte_lpm_delete lpm ip d)) = max_rules lpm"
proof -
  have "lpm_ok (snd (rte_lpm_delete lpm ip d)) \<and> max_rules (snd (rte_lpm_delete lpm ip d)) = max_rules lpm"
  proof (cases "(1 \<le> d \<and> d \<le> 32) \<and> routes lpm d (ip AND depth_to_mask d) \<noteq> None")
    case True
    then obtain lpm' where "rte_lpm_delete lpm ip d = (0, lpm')" "lpm_ok lpm'" "max_rules lpm' = max_rules lpm"
      using rte_lpm_delete_ok [OF assms(1), of d ip] assms(2) by metis
    then show ?thesis by simp
  next
    case False
    then show ?thesis using assms(1) rte_lpm_delete_refused [of d lpm ip] by auto
  qed
  then show "lpm_ok (snd (rte_lpm_delete lpm ip d))" "max_rules (snd (rte_lpm_delete lpm ip d)) = max_rules lpm"
    by simp_all
qed

lemma lpm_reach_ok: "lpm_reach lpm \<Longrightarrow> lpm_ok lpm \<and> 0 < max_rules lpm"
proof (induction rule: lpm_reach.induct)
  case (lpm_reach_init n name)
  then show ?case using init_lpm_ok [of n name] by (simp add: lpm_init_def)
next
  case (lpm_reach_add lpm ip depth hop)
  then show ?case using rte_lpm_add_keeps [of lpm] by simp
next
  case (lpm_reach_delete lpm ip depth)
  then show ?case using rte_lpm_delete_keeps [of lpm] by simp
next
  case (lpm_reach_delete_all lpm)
  then show ?case using delete_all_lpm_ok [of lpm] by (simp add: rte_lpm_delete_all_def)
qed

section \<open>Deletions that damage other routes\<close>

text \<open>Evaluation of the operations on concrete tables.\<close>

lemma for_range_step: "for_range a b f s = (if a < b then for_range (Suc a) b f (f a s) else s)"
  by (simp add: for_range_first)

lemma rule_position_numeral: "rule_position lpm (numeral k) =
    (if rule_used lpm (pred_numeral k) > 0 then rule_first lpm (pred_numeral k) + rule_used lpm (pred_numeral k)
     else rule_position lpm (pred_numeral k))"
  by (simp add: numeral_eq_Suc)

lemma find_previous_numeral: "find_previous_from lpm ip (numeral k) =
    (let ip_masked = ip AND depth_to_mask (numeral k); rule_index = rule_find lpm ip_masked (numeral k)
     in if rule_index \<ge> 0 then (rule_index, numeral k) else find_previous_from lpm ip (pred_numeral k))"
  by (simp only: numeral_eq_Suc find_previous_from.simps)

lemma sample_masks:
  "depth_to_mask 22 = 0xfffffc00" "depth_to_mask 23 = 0xfffffe00" "depth_to_mask 24 = 0xffffff00"
  "depth_to_mask 32 = 0xffffffff"
  by (simp_all add: depth_to_mask_def)

lemma tbl8_alloc_first:
  "\<not> t8_valid_group (t8 0) \<Longrightarrow> tbl8_alloc t8 =
    (0, \<lambda>j. if j < 256 then (if j = 0 then zero_tbl8\<lparr>t8_valid_group := True\<rparr> else zero_tbl8) else t8 j)"
  by (simp add: tbl8_alloc_def upt_conv_Cons for_range_pointwise_all [of _ _ "\<lambda>_ _. zero_tbl8"] fun_eq_iff Let_def)

lemmas sample_loops =
  for_range_pointwise_all [of 0 256 "\<lambda>_ x. x\<lparr>t8_valid := True, t8_depth := d, t8_hop := h\<rparr>" for d h]
  for_range_pointwise [of 0 256 "\<lambda>_ x. t8_depth x \<le> d" "\<lambda>_ x. x\<lparr>t8_valid := False\<rparr>" for d]
  for_range_pointwise [of 0 256 "\<lambda>_ x. t8_depth x \<le> d" "\<lambda>_ _. new8" for d new8]

lemmas sample_eval = rte_lpm_add_def sample_masks rule_add_def rule_insert_def rule_make_room.simps Let_def
  add_depth_small_def add_depth_big_def depth_to_range_def unat_drop_8 unat_and_FF rule_position_numeral
  rule_scan_def upt_conv_Cons lpm_init_def zero_rule_info_def zero_tbl24_def zero_tbl8_def tbl8_alloc_first
  sample_loops ext_tbl24_def rule_find_def

definition damage0 :: rte_lpm where
  "damage0 = snd (rte_lpm_add (snd (rte_lpm_add (snd (rte_lpm_add (snd (rte_lpm_add (lpm_init ''t'' 8)
     0x0a000000 23 9)) 0x0a000100 24 0)) 0x14000000 23 7)) 0x14000001 32 8)"

lemma damage0_reach: "lpm_reach damage0"
  unfolding damage0_def by (intro lpm_reach_add lpm_reach_init) simp

lemmas damage_steps = for_range_step [of 655360 655362] for_range_step [of 655361 655362]
  for_range_step [of 1310720 1310722] for_range_step [of 1310721 1310722]
  for_range_step [of "Suc 0" "Suc (Suc 0)"] for_range_step [of 1310720 1310724]
  for_range_step [of 1310721 1310724] for_range_step [of 1310722 1310724] for_range_step [of 1310723 1310724]

lemma damage0_tables:
  "damage0 = \<lparr>lpm_name = ''t'', max_rules = 8,
     rule_info = (\<lambda>_. zero_rule_info)(23 := \<lparr>used_rules = 1, first_rule = 2\<rparr>,
       22 := \<lparr>used_rules = 2, first_rule = 0\<rparr>, 31 := \<lparr>used_rules = 1, first_rule = 3\<rparr>),
     tbl24 = (\<lambda>_. zero_tbl24)(
       655360 := \<lparr>t24_hop = 9, t24_valid = True, t24_ext = False, t24_depth = 23\<rparr>,
       655361 := \<lparr>t24_hop = 0, t24_valid = True, t24_ext = False, t24_depth = 24\<rparr>,
       1310721 := \<lparr>t24_hop = 7, t24_valid = True, t24_ext = False, t24_depth = 23\<rparr>,
       1310720 := \<lparr>t24_hop = 0, t24_valid = True, t24_ext = True, t24_depth = 0\<rparr>),
     tbl8 = (\<lambda>i. if i < 256 then \<lparr>t8_hop = 7, t8_valid = True, t8_valid_group = i = 0, t8_depth = 23\<rparr>
         else zero_tbl8)
       (1 := \<lparr>t8_hop = 8, t8_valid = True, t8_valid_group = False, t8_depth = 32\<rparr>),
     rules_tbl = (\<lambda>_. zero_rule)
       (0 := \<lparr>rule_ip = 0x0a000000, rule_next_hop = 9\<rparr>, 2 := \<lparr>rule_ip = 0x0a000100, rule_next_hop = 0\<rparr>,
        1 := \<lparr>rule_ip = 0x14000000, rule_next_hop = 7\<rparr>, 3 := \<lparr>rule_ip = 0x14000001, rule_next_hop = 8\<rparr>)\<rparr>"
  unfolding damage0_def
  by (simp add: sample_eval damage_steps) (auto simp: fun_eq_iff zero_tbl8_def)


lemmas close_steps = for_range_step [of 23 32] for_range_step [of 24 32] for_range_step [of 25 32] for_range_step [of 26 32]
  for_range_step [of 27 32] for_range_step [of 28 32] for_range_step [of 29 32] for_range_step [of 30 32]
  for_range_step [of 31 32]


lemma rule_close_unused: "rule_used lpm i = 0 \<Longrightarrow> rule_close_step i lpm = lpm"
  by (simp add: rule_close_step_def)

lemma rule_close_used: "rule_used lpm i > 0 \<Longrightarrow> rule_close_step i lpm =
    set_first i (rule_first lpm i - 1)
      (set_rule (rule_first lpm i - 1) (rules_tbl lpm (rule_first lpm i + rule_used lpm i - 1)) lpm)"
  by (simp add: rule_close_step_def)

lemma rule_delete_close: "rule_delete lpm i d =
    (let lpm = for_range d 32 rule_close_step
       (set_rule i (rules_tbl lpm (rule_first lpm (d - 1) + rule_used lpm (d - 1) - 1)) lpm)
     in set_used (d - 1) (rule_used lpm (d - 1) - 1) lpm)"
  unfolding rule_delete_def rule_close_step_def [abs_def] Let_def by simp


lemmas delete_eval = rte_lpm_delete_def find_previous_rule_def find_previous_numeral rule_delete_close close_steps
  rule_close_unused rule_close_used delete_depth_small_def

lemmas read_eval = rte_lpm_is_rule_present_def rte_lpm_lookup_def lpm_load_def tbl24_word_def tbl8_word_def
  entry_words unat_ucast_u8

definition damage1 :: rte_lpm where
  "damage1 = snd (rte_lpm_add (snd (rte_lpm_add (snd (rte_lpm_add (lpm_init ''t'' 8)
     0x14000000 22 1)) 0x14000000 23 2)) 0x14000001 32 3)"

lemma damage1_reach: "lpm_reach damage1"
  unfolding damage1_def by (intro lpm_reach_add lpm_reach_init) simp

lemma damage1_tables:
  "damage1 = \<lparr>lpm_name = ''t'', max_rules = 8,
     rule_info = (\<lambda>_. zero_rule_info)(21 := \<lparr>used_rules = 1, first_rule = 0\<rparr>,
       22 := \<lparr>used_rules = 1, first_rule = 1\<rparr>, 31 := \<lparr>used_rules = 1, first_rule = 2\<rparr>),
     tbl24 = (\<lambda>_. zero_tbl24)(
       1310722 := \<lparr>t24_hop = 1, t24_valid = True, t24_ext = False, t24_depth = 22\<rparr>,
       1310723 := \<lparr>t24_hop = 1, t24_valid = True, t24_ext = False, t24_depth = 22\<rparr>,
       1310721 := \<lparr>t24_hop = 2, t24_valid = True, t24_ext = False, t24_depth = 23\<rparr>,
       1310720 := \<lparr>t24_hop = 0, t24_valid = True, t24_ext = True, t24_depth = 0\<rparr>),
     tbl8 = (\<lambda>i. if i < 256 then \<lparr>t8_hop = 2, t8_valid = True, t8_valid_group = i = 0, t8_depth = 23\<rparr>
         else zero_tbl8)
       (1 := \<lparr>t8_hop = 3, t8_valid = True, t8_valid_group = False, t8_depth = 32\<rparr>),
     rules_tbl = (\<lambda>_. zero_rule)
       (0 := \<lparr>rule_ip = 0x14000000, rule_next_hop = 1\<rparr>, 1 := \<lparr>rule_ip = 0x14000000, rule_next_hop = 2\<rparr>,
        2 := \<lparr>rule_ip = 0x14000001, rule_next_hop = 3\<rparr>)\<rparr>"
  unfolding damage1_def
  by (simp add: sample_eval damage_steps) (auto simp: fun_eq_iff zero_tbl8_def)

section \<open>Properties\<close>

text \<open>C9: in every table a program can reach from a fresh one, by additions, safe deletions and
  resets, the two-step table walk returns for every address the next hop of the longest matching
  rule of the rule table, and misses exactly when no rule matches.\<close>

theorem lookup_is_longest_match:
  assumes "lpm_reach t"
  shows "case longest (routes t) ip 32 of
      None \<Rightarrow> fst (rte_lpm_lookup t ip) = - ENOENT
    | Some (h, d) \<Rightarrow> rte_lpm_lookup t ip = (0, h)"
  by (rule lookup_longest) (use lpm_reach_ok [OF assms] in blast)

theorem lookup_is_longest_match_witness:
  "case longest (routes damage0) 0x14000005 32 of
      None \<Rightarrow> fst (rte_lpm_lookup damage0 0x14000005) = - ENOENT
    | Some (h, d) \<Rightarrow> rte_lpm_lookup damage0 0x14000005 = (0, h)"
  by (rule lookup_is_longest_match) (rule damage0_reach)

text \<open>C10: an addition with a valid depth either succeeds, setting exactly one route (new or
  replaced), or fails with \<open>-ENOSPC\<close> and changes no route; it fails only for a new route, when
  the rule table is full or, for a depth above 24, when the /24 block needs a group of \<open>tbl8\<close> and
  all 256 are taken.  Either way the invariant is kept.\<close>

theorem lpm_add_exact:
  assumes "lpm_ok t" "1 \<le> d" "d \<le> 32"
  shows "let p = ip AND depth_to_mask d in (case rte_lpm_add t ip d h of (r, t') \<Rightarrow> lpm_ok t' \<and> max_rules t' = max_rules t \<and>
    (if (routes t d p \<noteq> None \<or> rules_total t < max_rules t) \<and>
        (d \<le> 24 \<or> block_ext t (unat p div 256) \<or> tbl8_room (tbl8 t))
     then r = 0 \<and> routes t' = (routes t)(d := (routes t d)(p \<mapsto> h))
     else r = - ENOSPC \<and> routes t' = routes t \<and> routes t d p = None))"
  using rte_lpm_add_cases [OF assms(1-3), of ip h] unfolding Let_def by auto

theorem lpm_add_exact_witness:
  "case rte_lpm_add damage0 0x0a000180 25 4 of (r, t') \<Rightarrow> lpm_ok t' \<and> max_rules t' = 8"
  using lpm_add_exact [where t = damage0 and d = 25 and ip = "0x0a000180" and h = 4] lpm_reach_ok [OF damage0_reach]
  by (simp add: damage0_tables Let_def split: prod.splits)

text \<open>C11: deleting a route that exists succeeds, removes exactly that route and keeps the
  invariant, always for depths above 24, and for the others when no direct entry of a deeper
  prefix in the run has a next hop that is the group of a block, and no first entry of a group
  is rewritten; a route that does not exist, or a bad depth, is refused with \<open>-EINVAL\<close>.\<close>

theorem lpm_delete_exact:
  assumes "lpm_ok t" "delete_safe t ip d"
  shows "let p = ip AND depth_to_mask d in (case rte_lpm_delete t ip d of (r, t') \<Rightarrow> lpm_ok t' \<and> max_rules t' = max_rules t \<and>
    (if 1 \<le> d \<and> d \<le> 32 \<and> routes t d p \<noteq> None
     then r = 0 \<and> routes t' = (routes t)(d := (routes t d)(p := None))
     else r = - EINVAL \<and> t' = t))"
proof (cases "(1 \<le> d \<and> d \<le> 32) \<and> routes t d (ip AND depth_to_mask d) \<noteq> None")
  case True
  then obtain t' where "rte_lpm_delete t ip d = (0, t')" "lpm_ok t'" "max_rules t' = max_rules t"
    "routes t' = (routes t)(d := (routes t d)(ip AND depth_to_mask d := None))"
    using rte_lpm_delete_ok [OF assms(1), of d ip] assms(2) by metis
  then show ?thesis using True by (simp add: Let_def)
next
  case False
  then show ?thesis using rte_lpm_delete_refused [of d t ip] assms(1) unfolding Let_def by auto
qed

theorem lpm_delete_exact_witness:
  "\<exists>t'. rte_lpm_delete damage0 0x14000001 32 = (0, t') \<and> lpm_ok t' \<and> routes t' 32 0x14000001 = None"
proof -
  have "routes damage0 32 0x14000001 = Some 8"
    by (simp add: routes_scan rule_scan_def damage0_tables upt_conv_Cons)
  then show ?thesis
    using lpm_delete_exact [where t = damage0 and ip = "0x14000001" and d = 32] lpm_reach_ok [OF damage0_reach]
    by (auto simp: delete_safe_def sample_masks Let_def split: prod.splits)
qed

text \<open>C12: right after a successful addition every address of the prefix is answered with the
  new next hop, unless a deeper route already answered it, which it keeps.\<close>

theorem lookup_after_add:
  assumes "lpm_ok t" "1 \<le> d" "d \<le> 32" "rte_lpm_add t ip d h = (0, t')"
    and "x AND depth_to_mask d = ip AND depth_to_mask d"
  shows "rte_lpm_lookup t' x = (case longest (routes t) x 32 of
      Some (h', d') \<Rightarrow> if d < d' then (0, h') else (0, h) | None \<Rightarrow> (0, h))"
  by (rule lpm.lookup_add [OF assms])

theorem lookup_after_add_witness:
  "rte_lpm_lookup (snd (rte_lpm_add (lpm_init ''t'' 8) 0x0a000000 23 9)) 0x0a000107 = (0, 9)"
proof -
  have "longest (\<lambda>_ _. None :: u8 option) ip n = None" for ip n by (induction n) auto
  moreover have "fst (rte_lpm_add (lpm_init ''t'' 8) 0x0a000000 23 9) = 0"
    by (simp add: sample_eval damage_steps)
  ultimately show ?thesis
    using lookup_after_add [where t = "lpm_init ''t'' 8" and d = 23 and ip = "0x0a000000" and h = 9
        and t' = "snd (rte_lpm_add (lpm_init ''t'' 8) 0x0a000000 23 9)" and x = "0x0a000107"] init_lpm_ok [of 8 "''t''"]
    by (simp add: sample_masks prod_eq_iff)
qed

text \<open>C13: the bulk lookup returns for each address the very word the single lookup reads, and
  the four-way lookup, with its test of four packed entries at once, returns for each of its
  addresses the next hop the single lookup returns, or the default where that one misses.\<close>

theorem bulk_lookups_agree:
  "map (\<lambda>w. (if w AND RTE_LPM_LOOKUP_SUCCESS \<noteq> 0 then 0 else - ENOENT, ucast w))
      (rte_lpm_lookup_bulk_func t ips) = map (rte_lpm_lookup t) ips \<and>
   rte_lpm_lookupx4 t ip0 ip1 ip2 ip3 dfl =
    map (\<lambda>ip. if fst (rte_lpm_lookup t ip) = 0 then ucast (snd (rte_lpm_lookup t ip)) else dfl)
      [ip0, ip1, ip2, ip3]"
  unfolding lookup_bulk_loads lookupx4_lanes by (simp add: rte_lpm_lookup_def Let_def)







lemma free_created:
  "rte_lpm_free (Some (length lpms)) (lpms @ [l]) = lpms"
  by (simp add: rte_lpm_free_def)

section \<open>The table for clients that count its routes\<close>

lemma route_set_routes:
  "route_set (routes lpm) \<subseteq> (\<Union>e < 32. Pair (Suc e) ` rule_ip ` set (rule_group lpm e))"
proof
  fix x assume "x \<in> route_set (routes lpm)"
  then obtain d p h where x: "x = (d, p)" and r: "routes lpm d p = Some h" by (auto simp: route_set_def)
  then have "1 \<le> d" "d \<le> 32" "p \<in> rule_ip ` set (rule_group lpm (d - 1))"
    by (auto simp: routes_def split: if_splits dest!: map_of_SomeD)
  then show "x \<in> (\<Union>e < 32. Pair (Suc e) ` rule_ip ` set (rule_group lpm e))"
    by (intro UN_I [of "d - 1"]) (auto simp: x)
qed

lemma card_routes:
  "finite (route_set (routes lpm)) \<and> card (route_set (routes lpm)) \<le> rules_total lpm"
proof
  let ?U = "\<Union>e < 32. Pair (Suc e) ` rule_ip ` set (rule_group lpm e)"
  have fin: "finite ?U" by blast
  show "finite (route_set (routes lpm))" by (rule finite_subset [OF route_set_routes fin])
  have "card (route_set (routes lpm)) \<le> card ?U" by (rule card_mono [OF fin route_set_routes])
  also have "\<dots> \<le> (\<Sum>e < 32. card (Pair (Suc e) ` rule_ip ` set (rule_group lpm e)))"
    by (rule card_UN_le) simp
  also have "\<dots> \<le> (\<Sum>e < 32. rule_used lpm e)"
  proof (rule sum_mono)
    fix e
    have "card (Pair (Suc e) ` rule_ip ` set (rule_group lpm e)) \<le> card (set (rule_group lpm e))"
      by (meson card_image_le finite_imageI finite_set order_trans)
    also have "\<dots> \<le> length (rule_group lpm e)" by (rule card_length)
    finally show "card (Pair (Suc e) ` rule_ip ` set (rule_group lpm e)) \<le> rule_used lpm e"
      by (simp add: rule_group_def)
  qed
  finally show "card (route_set (routes lpm)) \<le> rules_total lpm"
    by (simp add: rules_before_def)
qed

definition lpm_small :: "rte_lpm \<Rightarrow> bool" where
  "lpm_small lpm \<longleftrightarrow> lpm_ok lpm \<and> max_rules lpm < 2 ^ 32"

interpretation lpmc: counted_route_table lpm_small routes rte_lpm_add rte_lpm_delete
  rte_lpm_is_rule_present rte_lpm_lookup delete_safe
proof (unfold_locales, goal_cases)
  case (1 t d ip h r t')
  then have ok: "lpm_ok t" "max_rules t < 2 ^ 32" by (simp_all add: lpm_small_def)
  have "lpm_small t'" using rte_lpm_add_keeps [OF ok(1), of ip d h] ok(2) 1(4) by (simp add: lpm_small_def)
  then show ?case using lpm.add_cases [OF ok(1) 1(2-4)] by blast
next
  case (2 t d ip)
  then have ok: "lpm_ok t" "max_rules t < 2 ^ 32" by (simp_all add: lpm_small_def)
  obtain t' where t': "rte_lpm_delete t ip d = (0, t')" "lpm_ok t'"
      "routes t' = (routes t)(d := (routes t d)(ip AND depth_to_mask d := None))"
    using lpm.del_safe [OF ok(1) 2(2-5)] by blast
  have "lpm_small t'" using rte_lpm_delete_keeps [OF ok(1) 2(5)] ok(2) t'(1) by (simp add: lpm_small_def)
  then show ?case using t' by blast
next
  case (3 t d ip)
  then show ?case using lpm.present_eq by (simp add: lpm_small_def)
next
  case (4 t ip)
  then show ?case using lpm.lookup_eq by (simp add: lpm_small_def)
next
  case (5 t)
  then show ?case using card_routes [of t] by (auto simp: lpm_small_def lpm_ok_def rules_ok_def)
qed

end
