(* ===== verification/Rte_Common.thy ===== *)
theory Rte_Common
  imports Dpdk_Prelude
begin

text \<open>
  The bit arithmetic of lib/librte_eal/common/include/rte_common.h and
  generic/rte_byteorder.h: alignment to a power of two, the test for a power of
  two, the next power of two, the lowest set bit and the byte swaps.  The
  alignment macros work at the type of their value, so they are polymorphic in
  the word length here.
\<close>

unbundle bit_operations_syntax

section \<open>Alignment\<close>

definition RTE_ALIGN_FLOOR :: "'a::len word \<Rightarrow> 'a word \<Rightarrow> 'a word" where
  "RTE_ALIGN_FLOOR val align = val AND NOT (align - 1)"

definition RTE_ALIGN_CEIL :: "'a::len word \<Rightarrow> 'a word \<Rightarrow> 'a word" where
  "RTE_ALIGN_CEIL val align = RTE_ALIGN_FLOOR (val + (align - 1)) align"

definition RTE_ALIGN :: "'a::len word \<Rightarrow> 'a word \<Rightarrow> 'a word" where
  "RTE_ALIGN val align = RTE_ALIGN_CEIL val align"

definition rte_is_aligned :: "u64 \<Rightarrow> u64 \<Rightarrow> bool" where
  "rte_is_aligned ptr align \<longleftrightarrow> RTE_ALIGN ptr align = ptr"

lemma bit_unat: "bit (unat (x :: 'a::len word)) n = bit x n"
  by (simp add: bit_unsigned_iff)

lemma unat_less_exp_iff:
  fixes x :: "'a::len word"
  shows "unat x < 2 ^ m \<longleftrightarrow> (\<forall>j \<ge> m. \<not> bit x j)"
proof -
  have "unat x < 2 ^ m \<longleftrightarrow> take_bit m (unat x) = unat x"
    by (rule take_bit_nat_eq_self_iff [symmetric])
  also have "\<dots> \<longleftrightarrow> (\<forall>j \<ge> m. \<not> bit x j)"
    by (auto simp: bit_eq_iff bit_take_bit_iff bit_unat simp flip: not_le)
  finally show ?thesis .
qed

lemma unat_mask_word: "k \<le> LENGTH('a) \<Longrightarrow> unat (mask k :: 'a::len word) = 2 ^ k - 1"
proof -
  assume k: "k \<le> LENGTH('a)"
  have "unat (mask k :: 'a word) = (mask k :: nat)"
    using k by (auto simp: bit_eq_iff bit_unat bit_simps)
  then show ?thesis by (simp add: mask_eq_exp_minus_1)
qed

lemma and_not_mask_unat: "unat (x AND NOT (mask k) :: 'a::len word) = unat x div 2 ^ k * 2 ^ k"
proof -
  have "unat (x AND NOT (mask k)) = push_bit k (drop_bit k (unat x))"
    by (auto simp: bit_eq_iff bit_unat bit_simps bit_imp_le_length)
  then show ?thesis by (simp add: push_bit_eq_mult drop_bit_eq_div)
qed

lemma RTE_ALIGN_FLOOR_unat:
  "unat (RTE_ALIGN_FLOOR v (2 ^ k)) = unat v div 2 ^ k * 2 ^ k"
  unfolding RTE_ALIGN_FLOOR_def mask_eq_exp_minus_1 [symmetric] by (rule and_not_mask_unat)

lemma RTE_ALIGN_unat:
  fixes v :: "'a::len word"
  assumes "k < LENGTH('a)" "unat v + (2 ^ k - 1) < 2 ^ LENGTH('a)"
  shows "unat (RTE_ALIGN v (2 ^ k)) = (unat v + (2 ^ k - 1)) div 2 ^ k * 2 ^ k"
proof -
  have "unat (2 ^ k - 1 :: 'a word) = 2 ^ k - 1"
    using unat_mask_word [where k = k and 'a = 'a] assms(1) by (simp add: mask_eq_exp_minus_1)
  then have "unat (v + (2 ^ k - 1)) = unat v + (2 ^ k - 1)"
    using assms(2) by (simp add: unat_word_ariths)
  then show ?thesis by (simp add: RTE_ALIGN_def RTE_ALIGN_CEIL_def RTE_ALIGN_FLOOR_unat)
qed

lemma round_up_bounds:
  fixes n a :: nat
  assumes "0 < a"
  shows "n \<le> (n + (a - 1)) div a * a" "(n + (a - 1)) div a * a < n + a"
  using assms div_mult_mod_eq [of "n + (a - 1)" a] mod_less_divisor [OF assms, of "n + (a - 1)"]
  by linarith+

section \<open>Powers of two\<close>

definition rte_is_power_of_2 :: "u32 \<Rightarrow> bool" where
  "rte_is_power_of_2 n \<longleftrightarrow> n \<noteq> 0 \<and> n AND (n - 1) = 0"

definition rte_align32pow2 :: "u32 \<Rightarrow> u32" where
  "rte_align32pow2 x =
    (let x = x - 1;
         x = x OR drop_bit 1 x;
         x = x OR drop_bit 2 x;
         x = x OR drop_bit 4 x;
         x = x OR drop_bit 8 x;
         x = x OR drop_bit 16 x
     in x + 1)"

definition rte_align64pow2 :: "u64 \<Rightarrow> u64" where
  "rte_align64pow2 v =
    (let v = v - 1;
         v = v OR drop_bit 1 v;
         v = v OR drop_bit 2 v;
         v = v OR drop_bit 4 v;
         v = v OR drop_bit 8 v;
         v = v OR drop_bit 16 v;
         v = v OR drop_bit 32 v
     in v + 1)"

text \<open>\<open>__builtin_ctz\<close>; undefined for 0 in C, 32 here.\<close>

definition rte_bsf32 :: "u32 \<Rightarrow> nat" where
  "rte_bsf32 v = length (takeWhile (\<lambda>i. \<not> bit v i) [0..<32])"

text \<open>
  Each line of the two functions doubles the distance over which a set bit is
  copied downwards; after distance \<open>s\<close>, bit \<open>k\<close> tells whether any of the \<open>s\<close>
  bits from \<open>k\<close> on was set.
\<close>

definition smeared :: "'a::len word \<Rightarrow> nat \<Rightarrow> 'a word \<Rightarrow> bool" where
  "smeared x s y \<longleftrightarrow> (\<forall>k. bit y k \<longleftrightarrow> (\<exists>j. k \<le> j \<and> j < k + s \<and> bit x j))"

lemma smeared_1: "smeared x 1 x"
  by (auto simp: smeared_def less_Suc_eq_le dest: order.antisym)

lemma smeared_double: "smeared x s y \<Longrightarrow> smeared x (2 * s) (y OR drop_bit s y)"
  unfolding smeared_def
proof (intro allI)
  fix k
  assume h: "\<forall>k. bit y k \<longleftrightarrow> (\<exists>j. k \<le> j \<and> j < k + s \<and> bit x j)"
  have "bit (y OR drop_bit s y) k \<longleftrightarrow> bit y k \<or> bit y (s + k)"
    by (simp add: bit_or_iff bit_drop_bit_eq)
  also have "\<dots> \<longleftrightarrow> (\<exists>j. k \<le> j \<and> j < k + 2 * s \<and> bit x j)"
    unfolding h [rule_format]
  proof (intro iffI; elim disjE exE conjE)
    fix j assume j: "k \<le> j" "j < k + 2 * s" "bit x j"
    show "(\<exists>j. k \<le> j \<and> j < k + s \<and> bit x j) \<or> (\<exists>j. s + k \<le> j \<and> j < s + k + s \<and> bit x j)"
    proof (cases "j < k + s")
      case True
      then show ?thesis using j by blast
    next
      case False
      then have "s + k \<le> j" "j < s + k + s" using j by auto
      then show ?thesis using j by blast
    qed
  next
    fix j assume j: "k \<le> j" "j < k + s" "bit x j"
    then show "\<exists>j\<ge>k. j < k + 2 * s \<and> bit x j" by (intro exI [of _ j]) simp
  next
    fix j assume j: "s + k \<le> j" "j < s + k + s" "bit x j"
    then show "\<exists>j\<ge>k. j < k + 2 * s \<and> bit x j" by (intro exI [of _ j]) simp
  qed
  finally show "bit (y OR drop_bit s y) k \<longleftrightarrow> (\<exists>j. k \<le> j \<and> j < k + 2 * s \<and> bit x j)" .
qed

lemma smeared_double': "smeared x s y \<Longrightarrow> t = 2 * s \<Longrightarrow> smeared x t (y OR drop_bit s y)"
  by (simp only: smeared_double)

lemma smeared_mask:
  fixes x y :: "'a::len word"
  assumes "smeared x LENGTH('a) y"
  shows "\<exists>m \<le> LENGTH('a). y = mask m \<and> unat x < 2 ^ m \<and> (\<forall>n. unat x < 2 ^ n \<longrightarrow> m \<le> n)"
proof -
  define m where "m = (LEAST m. unat x < 2 ^ m)"
  have lt: "unat x < 2 ^ m" unfolding m_def by (rule LeastI [of _ "LENGTH('a)"]) (rule unsigned_less)
  have least: "m \<le> n" if "unat x < 2 ^ n" for n unfolding m_def using that by (rule Least_le)
  have high: "\<not> bit x j" if "m \<le> j" for j using lt that by (simp add: unat_less_exp_iff)
  have top: "bit x (m - 1)" if "0 < m"
  proof (rule ccontr)
    assume n: "\<not> bit x (m - 1)"
    have "\<not> bit x j" if "m - 1 \<le> j" for j
      using high [of j] n that by (cases "j = m - 1") auto
    then have "unat x < 2 ^ (m - 1)" by (simp add: unat_less_exp_iff)
    then show False using least [of "m - 1"] that by simp
  qed
  have mle: "m \<le> LENGTH('a)" by (rule least) (rule unsigned_less)
  have "y = mask m"
  proof (rule bit_word_eqI)
    fix k assume k: "k < LENGTH('a)"
    show "bit y k = bit (mask m :: 'a word) k"
    proof (cases "k < m")
      case True
      then have "k \<le> m - 1" "m - 1 < k + LENGTH('a)" "bit x (m - 1)" using mle top by auto
      then have "bit y k" using assms unfolding smeared_def by blast
      then show ?thesis using True k by (simp add: bit_mask_iff)
    next
      case False
      then have "\<not> bit y k" using assms high unfolding smeared_def by (meson le_trans linorder_not_less)
      then show ?thesis using False by (simp add: bit_mask_iff)
    qed
  qed
  then show ?thesis using mle lt least by blast
qed

lemma pow2_next:
  fixes x y :: "'a::len word"
  assumes "smeared (x - 1) LENGTH('a) y" "x \<noteq> 0"
  shows "\<exists>m \<le> LENGTH('a). y + 1 = 2 ^ m \<and> (\<forall>n. unat x \<le> 2 ^ n \<longleftrightarrow> m \<le> n)"
proof -
  obtain m where m: "m \<le> LENGTH('a)" "y = mask m" "unat (x - 1) < 2 ^ m"
    "\<forall>n. unat (x - 1) < 2 ^ n \<longrightarrow> m \<le> n"
    using smeared_mask [OF assms(1)] by blast
  have x: "unat x = Suc (unat (x - 1))" using assms(2) by (simp add: unat_minus_one unat_gt_0)
  have "m \<le> n \<Longrightarrow> unat (x - 1) < 2 ^ n" for n
    using m(3) by (meson less_le_trans one_le_numeral power_increasing)
  then have "unat x \<le> 2 ^ n \<longleftrightarrow> m \<le> n" for n using m(4) by (auto simp: x Suc_le_eq)
  moreover have "y + 1 = 2 ^ m" by (simp add: m(2) mask_eq_exp_minus_1)
  ultimately show ?thesis using m(1) by blast
qed

lemma align32_next:
  assumes "x \<noteq> 0"
  shows "\<exists>m \<le> 32. rte_align32pow2 x = 2 ^ m \<and> (\<forall>n. unat x \<le> 2 ^ n \<longleftrightarrow> m \<le> n)"
proof -
  define y where "y = rte_align32pow2 x - 1"
  have "smeared (x - 1) 32 y"
    unfolding y_def rte_align32pow2_def Let_def add_diff_cancel_right'
    by (intro smeared_double' smeared_1) simp_all
  then have "smeared (x - 1) LENGTH(32) y" by simp
  from pow2_next [OF this assms] show ?thesis by (simp add: y_def)
qed

lemma align64_next:
  assumes "v \<noteq> 0"
  shows "\<exists>m \<le> 64. rte_align64pow2 v = 2 ^ m \<and> (\<forall>n. unat v \<le> 2 ^ n \<longleftrightarrow> m \<le> n)"
proof -
  define y where "y = rte_align64pow2 v - 1"
  have "smeared (v - 1) 64 y"
    unfolding y_def rte_align64pow2_def Let_def add_diff_cancel_right'
    by (intro smeared_double' smeared_1) simp_all
  then have "smeared (v - 1) LENGTH(64) y" by simp
  from pow2_next [OF this assms] show ?thesis by (simp add: y_def)
qed

lemma rte_is_power_of_2_iff: "rte_is_power_of_2 n \<longleftrightarrow> (\<exists>k. unat n = 2 ^ k)"
proof (cases "n = 0")
  case False
  then show ?thesis using and_pred_word_iff [of n] by (simp add: rte_is_power_of_2_def and.commute)
qed (simp add: rte_is_power_of_2_def)

lemma unat_p2_word:
  assumes "k < LENGTH('a)"
  shows "unat (2 ^ k :: 'a::len word) = 2 ^ k"
proof -
  have "unat (2 ^ k :: 'a word) = unat (mask k + 1 :: 'a word)" by (simp add: mask_eq_exp_minus_1)
  also have "\<dots> = (2 ^ k - 1 + 1) mod 2 ^ LENGTH('a)"
    using unat_mask_word [where k = k and 'a = 'a] assms by (simp only: unat_word_ariths) simp
  also have "\<dots> = 2 ^ k" using assms by simp
  finally show ?thesis .
qed



section \<open>Byte order\<close>

definition rte_constant_bswap16 :: "u16 \<Rightarrow> u16" where
  "rte_constant_bswap16 x = push_bit 8 (x AND 0x00ff) OR drop_bit 8 (x AND 0xff00)"

definition rte_constant_bswap32 :: "u32 \<Rightarrow> u32" where
  "rte_constant_bswap32 x =
    push_bit 24 (x AND 0x000000ff) OR
    push_bit 8 (x AND 0x0000ff00) OR
    drop_bit 8 (x AND 0x00ff0000) OR
    drop_bit 24 (x AND 0xff000000)"

definition rte_constant_bswap64 :: "u64 \<Rightarrow> u64" where
  "rte_constant_bswap64 x =
    push_bit 56 (x AND 0x00000000000000ff) OR
    push_bit 40 (x AND 0x000000000000ff00) OR
    push_bit 24 (x AND 0x0000000000ff0000) OR
    push_bit 8 (x AND 0x00000000ff000000) OR
    drop_bit 8 (x AND 0x000000ff00000000) OR
    drop_bit 24 (x AND 0x0000ff0000000000) OR
    drop_bit 40 (x AND 0x00ff000000000000) OR
    drop_bit 56 (x AND 0xff00000000000000)"

text \<open>Byte \<open>i\<close> of a word, from the least significant.\<close>

definition byte_of :: "nat \<Rightarrow> 'a::len word \<Rightarrow> u8" where
  "byte_of i x = ucast (drop_bit (8 * i) x)"

lemma bit_byte_of: "bit (byte_of i x) k \<longleftrightarrow> k < 8 \<and> bit x (8 * i + k)"
  by (auto simp: byte_of_def bit_simps)

text \<open>The mask constants of the code select one byte.\<close>

lemma byte_masks:
  "(0xff :: 'a::len word) = mask 8" "(0xff00 :: 'a word) = push_bit 8 (mask 8)"
  "(0xff0000 :: 'a word) = push_bit 16 (mask 8)" "(0xff000000 :: 'a word) = push_bit 24 (mask 8)"
  "(0xff00000000 :: 'a word) = push_bit 32 (mask 8)" "(0xff0000000000 :: 'a word) = push_bit 40 (mask 8)"
  "(0xff000000000000 :: 'a word) = push_bit 48 (mask 8)" "(0xff00000000000000 :: 'a word) = push_bit 56 (mask 8)"
  by (simp_all add: mask_eq_exp_minus_1 push_bit_eq_mult)

lemma bytes_eqI:
  fixes x y :: "'a::len word"
  assumes "LENGTH('a) = 8 * n" "\<And>i. i < n \<Longrightarrow> byte_of i x = byte_of i y"
  shows "x = y"
proof (rule bit_word_eqI)
  fix k assume k: "k < LENGTH('a)"
  then have "k div 8 < n" using assms(1) by simp
  then have "bit (byte_of (k div 8) x) (k mod 8) = bit (byte_of (k div 8) y) (k mod 8)" by (simp add: assms(2))
  then show "bit x k = bit y k" by (simp add: bit_byte_of)
qed

lemma less_cases:
  "(i::nat) < 2 \<longleftrightarrow> i = 0 \<or> i = 1" "(i::nat) < 4 \<longleftrightarrow> i = 0 \<or> i = 1 \<or> i = 2 \<or> i = 3"
  "(i::nat) < 8 \<longleftrightarrow> i = 0 \<or> i = 1 \<or> i = 2 \<or> i = 3 \<or> i = 4 \<or> i = 5 \<or> i = 6 \<or> i = 7"
  by arith+

lemma byte_eqI: "(\<And>k. k < 8 \<Longrightarrow> bit x k = bit y k) \<Longrightarrow> x = y" for x y :: u8
  by (rule bit_word_eqI) simp

lemma byte_of_or: "byte_of i (x OR y) = byte_of i x OR byte_of i y"
  by (rule byte_eqI) (simp add: bit_byte_of bit_or_iff)

text \<open>Moving the selected byte \<open>m\<close> up or down by \<open>n\<close> bytes.\<close>

lemma byte_of_up:
  fixes x :: "'a::len word"
  assumes "8 * (m + n) + 8 \<le> LENGTH('a)"
  shows "byte_of i (push_bit (8 * n) (x AND push_bit (8 * m) (mask 8))) = (if i = m + n then byte_of m x else 0)"
proof (rule byte_eqI)
  fix k :: nat assume k: "k < 8"
  have "bit (push_bit (8 * n) (x AND push_bit (8 * m) (mask 8))) (8 * i + k) \<longleftrightarrow> i = m + n \<and> bit x (8 * m + k)"
    using k assms by (cases "i = m + n") (auto simp: bit_simps)
  then show "bit (byte_of i (push_bit (8 * n) (x AND push_bit (8 * m) (mask 8)))) k =
    bit (if i = m + n then byte_of m x else 0) k"
    using k by (simp add: bit_byte_of)
qed

lemma byte_of_down:
  "byte_of i (drop_bit (8 * n) (x AND push_bit (8 * m) (mask 8))) = (if i + n = m then byte_of m x else 0)"
proof (rule byte_eqI)
  fix k :: nat assume k: "k < 8"
  have "bit (drop_bit (8 * n) (x AND push_bit (8 * m) (mask 8))) (8 * i + k) \<longleftrightarrow> i + n = m \<and> bit x (8 * m + k)"
    using k by (cases "i + n = m") (auto simp: bit_simps ac_simps dest: bit_imp_le_length)
  then show "bit (byte_of i (drop_bit (8 * n) (x AND push_bit (8 * m) (mask 8)))) k =
    bit (if i + n = m then byte_of m x else 0) k"
    using k by (simp add: bit_byte_of)
qed

lemma byte_of_bswap16: "byte_of 0 (rte_constant_bswap16 x) = byte_of (Suc 0) x"
  "byte_of (Suc 0) (rte_constant_bswap16 x) = byte_of 0 x"
  using byte_of_up [of 0 1 _ x] byte_of_down [of _ 1 x 1]
  by (simp_all add: rte_constant_bswap16_def byte_masks byte_of_or)

lemma byte_of_bswap32: "i < 4 \<Longrightarrow> byte_of i (rte_constant_bswap32 x) = byte_of (3 - i) x"
  using byte_of_up [of 0 3 i x] byte_of_up [of 1 1 i x] byte_of_down [of i 1 x 2] byte_of_down [of i 3 x 3]
  by (auto simp: rte_constant_bswap32_def byte_masks byte_of_or less_cases)

lemma byte_of_bswap64: "i < 8 \<Longrightarrow> byte_of i (rte_constant_bswap64 x) = byte_of (7 - i) x"
  using byte_of_up [of 0 7 i x] byte_of_up [of 1 5 i x] byte_of_up [of 2 3 i x] byte_of_up [of 3 1 i x]
    byte_of_down [of i 1 x 4] byte_of_down [of i 3 x 5] byte_of_down [of i 5 x 6] byte_of_down [of i 7 x 7]
  by (auto simp: rte_constant_bswap64_def byte_masks byte_of_or less_cases)

text \<open>C8: the byte swaps reverse the bytes of their argument, so each is its own inverse.\<close>

theorem bswap_reverses:
  "(rte_constant_bswap16 (rte_constant_bswap16 a) = a \<and> byte_of 0 (rte_constant_bswap16 a) = byte_of 1 a) \<and>
   (rte_constant_bswap32 (rte_constant_bswap32 b) = b \<and>
      map (\<lambda>i. byte_of i (rte_constant_bswap32 b)) [0..<4] = rev (map (\<lambda>i. byte_of i b) [0..<4])) \<and>
   (rte_constant_bswap64 (rte_constant_bswap64 c) = c \<and>
      map (\<lambda>i. byte_of i (rte_constant_bswap64 c)) [0..<8] = rev (map (\<lambda>i. byte_of i c) [0..<8]))"
proof (intro conjI)
  show "rte_constant_bswap16 (rte_constant_bswap16 a) = a"
    by (rule bytes_eqI [where n = 2]) (auto simp: less_cases byte_of_bswap16)
  show "rte_constant_bswap32 (rte_constant_bswap32 b) = b"
    by (rule bytes_eqI [where n = 4]) (simp_all add: byte_of_bswap32)
  show "rte_constant_bswap64 (rte_constant_bswap64 c) = c"
    by (rule bytes_eqI [where n = 8]) (simp_all add: byte_of_bswap64)
qed (simp_all add: byte_of_bswap16 byte_of_bswap32 byte_of_bswap64 rev_map upt_rec numeral_eq_Suc)

end
