(* ===== verification/Rte_Table_Lpm.thy ===== *)
theory Rte_Table_Lpm
  imports Rte_Lpm_Correct Rte_Common
begin

text \<open>
  lib/librte_table/rte_table_lpm.c: the pipeline table over the longest-prefix
  matching of librte_lpm.  The low-level table maps a prefix to one of 256
  positions of the next hop table \<open>nht\<close>, a byte array of 256 entries, and
  \<open>nht_users\<close> counts the rules that refer to each position.  The pointer to the
  low-level table is the table it points to; a C pointer argument that the code
  compares to NULL is an option.
\<close>

unbundle bit_operations_syntax

section \<open>State\<close>

definition RTE_TABLE_LPM_MAX_NEXT_HOPS :: nat where [simp]: "RTE_TABLE_LPM_MAX_NEXT_HOPS = 256"
definition RTE_PORT_IN_BURST_SIZE_MAX :: nat where [simp]: "RTE_PORT_IN_BURST_SIZE_MAX = 64"

record rte_table_lpm_params =
  p_n_rules :: u32
  p_entry_unique_size :: u32
  p_offset :: u32

record rte_table_lpm_key =
  key_ip :: u32
  key_depth :: u8

record rte_table_lpm =
  entry_size :: u32
  entry_unique_size :: u32
  n_rules :: u32
  offset :: u32
  low_lpm :: rte_lpm
  nht_users :: "nat \<Rightarrow> u32"
  nht :: "nat \<Rightarrow> u8"

text \<open>
  Creation.  \<open>mem_ok\<close> tells whether the table's own allocation succeeds, and
  \<open>te_ok\<close> and \<open>lmem_ok\<close> do for those of the low-level table.  The result has the
  number of bytes asked for the entries, computed modulo \<open>2 ^ 32\<close> as in the
  code.  Every low-level table gets the name \<open>''LPM''\<close>.
\<close>

definition rte_table_lpm_create ::
  "rte_table_lpm_params option \<Rightarrow> int \<Rightarrow> u32 \<Rightarrow> bool \<Rightarrow> bool \<Rightarrow> bool \<Rightarrow> rte_lpm list
   \<Rightarrow> (rte_table_lpm \<times> u32) option \<times> rte_lpm list" where
  "rte_table_lpm_create params socket_id entry_sz mem_ok te_ok lmem_ok lpms =
    (case params of None \<Rightarrow> (None, lpms)
     | Some p \<Rightarrow>
       if p_n_rules p = 0 then (None, lpms)
       else if p_entry_unique_size p = 0 then (None, lpms)
       else if p_entry_unique_size p > entry_sz then (None, lpms)
       else (let entry_sz = RTE_ALIGN entry_sz 8;
                 nht_size = of_nat RTE_TABLE_LPM_MAX_NEXT_HOPS * entry_sz
             in if \<not> mem_ok then (None, lpms)
                else (case rte_lpm_create (Some ''LPM'') socket_id (unat (p_n_rules p)) te_ok lmem_ok lpms of
                        (Inr (Some l), lpms') \<Rightarrow>
                          (Some (\<lparr>entry_size = entry_sz, entry_unique_size = p_entry_unique_size p,
                             n_rules = p_n_rules p, offset = p_offset p, low_lpm = l,
                             nht_users = (\<lambda>_. 0), nht = (\<lambda>_. 0)\<rparr>, nht_size), lpms')
                      | (_, lpms') \<Rightarrow> (None, lpms'))))"

text \<open>Freeing: \<open>l\<close> is the place of the low-level table in the list of tables.\<close>

definition rte_table_lpm_free :: "(rte_table_lpm \<times> nat) option \<Rightarrow> rte_lpm list \<Rightarrow> int \<times> rte_lpm list" where
  "rte_table_lpm_free table lpms =
    (case table of None \<Rightarrow> (- EINVAL, lpms) | Some (_, l) \<Rightarrow> (0, rte_lpm_free (Some l) lpms))"

section \<open>The next hop table\<close>

text \<open>The byte offset of entry \<open>i\<close>, \<open>i * lpm->entry_size\<close> in \<open>uint32_t\<close>.\<close>

definition nht_entry :: "rte_table_lpm \<Rightarrow> nat \<Rightarrow> nat" where
  "nht_entry lpm i = unat (of_nat i * entry_size lpm)"

definition nht_find_free :: "rte_table_lpm \<Rightarrow> nat option" where
  "nht_find_free lpm = List.find (\<lambda>i. nht_users lpm i = 0) [0..<RTE_TABLE_LPM_MAX_NEXT_HOPS]"

text \<open>\<open>memcmp\<close> of the unique bytes of an entry: the bytes at the pointer are a list.\<close>

definition nht_find_existing :: "rte_table_lpm \<Rightarrow> u8 list \<Rightarrow> nat option" where
  "nht_find_existing lpm entry =
    List.find (\<lambda>i. nht_users lpm i > 0 \<and>
        seg (nht lpm) (nht_entry lpm i) (unat (entry_unique_size lpm)) = take (unat (entry_unique_size lpm)) entry)
      [0..<RTE_TABLE_LPM_MAX_NEXT_HOPS]"

definition nht_write :: "rte_table_lpm \<Rightarrow> nat \<Rightarrow> u8 list \<Rightarrow> rte_table_lpm" where
  "nht_write lpm pos entry =
    lpm\<lparr>nht := (\<lambda>k. if nht_entry lpm pos \<le> k \<and> k < nht_entry lpm pos + unat (entry_size lpm)
                     then entry ! (k - nht_entry lpm pos) else nht lpm k)\<rparr>"

text \<open>The position for an entry: the one that has its unique bytes, or a free one it is copied to.\<close>

definition nht_position :: "rte_table_lpm \<Rightarrow> u8 list \<Rightarrow> (nat \<times> rte_table_lpm) option" where
  "nht_position lpm entry =
    (case nht_find_existing lpm entry of
       Some pos \<Rightarrow> Some (pos, lpm)
     | None \<Rightarrow>
        (case nht_find_free lpm of
           None \<Rightarrow> None
         | Some pos \<Rightarrow> Some (pos, nht_write lpm pos entry)))"

section \<open>Adding and deleting\<close>

text \<open>
  An addition answers with the status, and on success with \<open>key_found\<close> and the
  offset of the entry the pointer \<open>entry_ptr\<close> is set to.
\<close>

definition rte_table_lpm_entry_add ::
  "rte_table_lpm option \<Rightarrow> rte_table_lpm_key option \<Rightarrow> u8 list option
   \<Rightarrow> int \<times> (u32 \<times> nat) option \<times> rte_table_lpm option" where
  "rte_table_lpm_entry_add table key entry =
    (case (table, key, entry) of
      (Some lpm, Some ip_prefix, Some entry) \<Rightarrow>
        if key_depth ip_prefix = 0 \<or> key_depth ip_prefix > 32 then (- EINVAL, None, table)
        else
          (let ip = key_ip ip_prefix; depth = unat (key_depth ip_prefix);
               (status, hop) = rte_lpm_is_rule_present (low_lpm lpm) ip depth;
               nht_pos0 = (case hop of Some h \<Rightarrow> unat h | None \<Rightarrow> 0);
               nht_pos0_valid = (if status > 0 then 1 else 0 :: u32)
           in case nht_position lpm entry of
                None \<Rightarrow> (-1, None, table)
              | Some (nht_pos, lpm) \<Rightarrow>
                  (case rte_lpm_add (low_lpm lpm) ip depth (of_nat nht_pos) of
                    (status, low) \<Rightarrow>
                      if status < 0 then (-1, None, Some (lpm\<lparr>low_lpm := low\<rparr>))
                      else
                        (let users = nht_users lpm;
                             users = users(nht_pos := users nht_pos + 1);
                             users = users(nht_pos0 := users nht_pos0 - nht_pos0_valid)
                         in (0, Some (nht_pos0_valid, nht_entry lpm nht_pos),
                             Some (lpm\<lparr>low_lpm := low, nht_users := users\<rparr>)))))
    | _ \<Rightarrow> (- EINVAL, None, table))"

text \<open>
  A deletion answers with the status, on success with \<open>key_found\<close>, and with the
  bytes written to \<open>entry\<close> when that pointer is given (\<open>want\<close>).
\<close>

definition rte_table_lpm_entry_delete ::
  "rte_table_lpm option \<Rightarrow> rte_table_lpm_key option \<Rightarrow> bool
   \<Rightarrow> int \<times> (u32 \<times> u8 list option) option \<times> rte_table_lpm option" where
  "rte_table_lpm_entry_delete table key want =
    (case (table, key) of
      (Some lpm, Some ip_prefix) \<Rightarrow>
        if key_depth ip_prefix = 0 \<or> key_depth ip_prefix > 32 then (- EINVAL, None, table)
        else
          (let ip = key_ip ip_prefix; depth = unat (key_depth ip_prefix);
               (status, hop) = rte_lpm_is_rule_present (low_lpm lpm) ip depth
           in if status < 0 then (-1, None, table)
              else if status = 0 then (0, Some (0, None), table)
              else (case rte_lpm_delete (low_lpm lpm) ip depth of
                (status, low) \<Rightarrow>
                  if status \<noteq> 0 then (-1, None, Some (lpm\<lparr>low_lpm := low\<rparr>))
                  else
                    (let nht_pos = unat (the hop);
                         users = (nht_users lpm)(nht_pos := nht_users lpm nht_pos - 1)
                     in (0, Some (1, if want then Some (seg (nht lpm) (nht_entry lpm nht_pos) (unat (entry_size lpm)))
                                     else None),
                         Some (lpm\<lparr>low_lpm := low, nht_users := users\<rparr>)))))
    | _ \<Rightarrow> (- EINVAL, None, table))"

section \<open>Lookup\<close>

text \<open>
  The address of a packet is read from its metadata on a little-endian machine
  and byte-swapped; \<open>pkt\<close> gives the bytes of the metadata.
\<close>

definition RTE_MBUF_METADATA_UINT32 :: "(nat \<Rightarrow> u8) \<Rightarrow> nat \<Rightarrow> u32" where
  "RTE_MBUF_METADATA_UINT32 pkt off =
    ucast (pkt off) OR push_bit 8 (ucast (pkt (off + 1))) OR
    push_bit 16 (ucast (pkt (off + 2))) OR push_bit 24 (ucast (pkt (off + 3)))"

text \<open>\<open>__builtin_clzll\<close>; undefined for 0 in C, 64 here.\<close>

definition clzll :: "u64 \<Rightarrow> nat" where
  "clzll v = length (takeWhile (\<lambda>i. \<not> bit v i) (rev [0..<64]))"

definition packet_ip :: "rte_table_lpm \<Rightarrow> (nat \<Rightarrow> u8) \<Rightarrow> u32" where
  "packet_ip lpm pkt = rte_constant_bswap32 (RTE_MBUF_METADATA_UINT32 pkt (unat (offset lpm)))"

text \<open>One pass of the loop over the packets.\<close>

definition lookup_packet ::
  "rte_table_lpm \<Rightarrow> (nat \<Rightarrow> nat \<Rightarrow> u8) \<Rightarrow> u64 \<Rightarrow> nat \<Rightarrow> u64 \<times> (nat \<Rightarrow> nat) \<Rightarrow> u64 \<times> (nat \<Rightarrow> nat)" where
  "lookup_packet lpm pkts pkts_mask i = (\<lambda>(out, entries).
     let pkt_mask = push_bit i 1 in
     if pkt_mask AND pkts_mask \<noteq> 0 then
       (case rte_lpm_lookup (low_lpm lpm) (packet_ip lpm (pkts i)) of
         (status, nht_pos) \<Rightarrow>
           if status = 0 then (out OR pkt_mask, entries(i := nht_entry lpm (unat nht_pos)))
           else (out, entries))
     else (out, entries))"

definition rte_table_lpm_lookup ::
  "rte_table_lpm \<Rightarrow> (nat \<Rightarrow> nat \<Rightarrow> u8) \<Rightarrow> u64 \<Rightarrow> (nat \<Rightarrow> nat) \<Rightarrow> int \<times> u64 \<times> (nat \<Rightarrow> nat)" where
  "rte_table_lpm_lookup lpm pkts pkts_mask entries =
    (let (out, entries) =
       for_range 0 (RTE_PORT_IN_BURST_SIZE_MAX - clzll pkts_mask) (lookup_packet lpm pkts pkts_mask) (0, entries)
     in (0, out, entries))"

section \<open>The invariant\<close>

text \<open>The unique bytes of entry \<open>i\<close>, and the table as a map from prefixes to unique bytes.\<close>

definition nht_key :: "rte_table_lpm \<Rightarrow> nat \<Rightarrow> u8 list" where
  "nht_key t i = seg (nht t) (nht_entry t i) (unat (entry_unique_size t))"

definition table_routes :: "rte_table_lpm \<Rightarrow> nat \<Rightarrow> u32 \<Rightarrow> u8 list option" where
  "table_routes t d p = map_option (\<lambda>h. nht_key t (unat h)) (routes (low_lpm t) d p)"

definition sizes_ok :: "rte_table_lpm \<Rightarrow> bool" where
  "sizes_ok t \<longleftrightarrow> 0 < unat (entry_unique_size t) \<and>
    unat (entry_unique_size t) \<le> unat (entry_size t) \<and> unat (entry_size t) < 2 ^ 24"

definition keys_distinct :: "rte_table_lpm \<Rightarrow> bool" where
  "keys_distinct t \<longleftrightarrow> (\<forall>i < 256. \<forall>j < 256. nht_users t i \<noteq> 0 \<longrightarrow> nht_users t j \<noteq> 0 \<longrightarrow>
    nht_key t i = nht_key t j \<longrightarrow> i = j)"

definition users_exact :: "rte_table_lpm \<Rightarrow> bool" where
  "users_exact t \<longleftrightarrow> (\<forall>h. nht_users t (unat h) = of_nat (hop_users (routes (low_lpm t)) h))"

definition table_ok :: "rte_table_lpm \<Rightarrow> bool" where
  "table_ok t \<longleftrightarrow> lpm_small (low_lpm t) \<and> sizes_ok t \<and> users_exact t \<and> keys_distinct t"

lemma nht_entry_exact:
  assumes "sizes_ok t" "i < 256"
  shows "nht_entry t i = i * unat (entry_size t)"
proof -
  have "i * unat (entry_size t) < 256 * 2 ^ 24"
    using assms by (intro mult_strict_mono) (auto simp: sizes_ok_def)
  then show ?thesis by (simp add: nht_entry_def unat_word_ariths unat_of_nat mod_mult_left_eq)
qed

lemma nht_write_fields [simp]:
  "entry_size (nht_write t i e) = entry_size t" "entry_unique_size (nht_write t i e) = entry_unique_size t"
  "nht_users (nht_write t i e) = nht_users t" "low_lpm (nht_write t i e) = low_lpm t"
  "nht_entry (nht_write t i e) j = nht_entry t j" "sizes_ok (nht_write t i e) = sizes_ok t"
  by (simp_all add: nht_write_def nht_entry_def sizes_ok_def)

lemma nht_key_write:
  assumes "sizes_ok t" "i < 256" "j < 256" "unat (entry_size t) \<le> length e"
  shows "nht_key (nht_write t i e) j =
    (if j = i then take (unat (entry_unique_size t)) e else nht_key t j)"
proof (cases "j = i")
  case True
  then show ?thesis using assms
    by (auto simp: nht_key_def nht_write_def sizes_ok_def intro!: nth_equalityI) (simp_all add: nht_entry_def)
next
  case False
  let ?s = "unat (entry_size t)"
  have u: "unat (entry_unique_size t) \<le> ?s" using assms(1) by (simp add: sizes_ok_def)
  have "j * ?s + ?s \<le> i * ?s \<or> i * ?s + ?s \<le> j * ?s"
    using False mult_le_mono1 [of "Suc j" i ?s] mult_le_mono1 [of "Suc i" j ?s]
    by (cases "j < i") (simp_all add: Suc_le_eq add.commute)
  then have "nht (nht_write t i e) (nht_entry t j + k) = nht t (nht_entry t j + k)"
    if "k < unat (entry_unique_size t)" for k
    using that u nht_entry_exact [OF assms(1,2)] nht_entry_exact [OF assms(1,3)]
    by (auto simp: nht_write_def)
  then show ?thesis using False by (auto simp: nht_key_def intro!: nth_equalityI)
qed

lemma find_upt:
  "List.find P [0..<n] = Some i \<Longrightarrow> i < n \<and> P i"
  "List.find P [0..<n] = None \<Longrightarrow> j < n \<Longrightarrow> \<not> P j"
  by (auto simp: find_Some_iff find_None_iff)

lemma nht_find_existing_SomeD:
  "nht_find_existing t e = Some i \<Longrightarrow>
    i < 256 \<and> nht_users t i \<noteq> 0 \<and> nht_key t i = take (unat (entry_unique_size t)) e"
  unfolding nht_find_existing_def by (drule find_upt(1)) (simp add: nht_key_def word_gt_0)

lemma nht_find_existing_NoneD:
  "nht_find_existing t e = None \<Longrightarrow> i < 256 \<Longrightarrow> nht_users t i \<noteq> 0 \<Longrightarrow>
    nht_key t i \<noteq> take (unat (entry_unique_size t)) e"
  unfolding nht_find_existing_def RTE_TABLE_LPM_MAX_NEXT_HOPS_def
  by (drule (1) find_upt(2)) (auto simp: nht_key_def word_gt_0)

text \<open>What the choice of a position guarantees.\<close>

lemma nht_position_SomeD:
  assumes "nht_position t e = Some (i, t1)" "sizes_ok t" "keys_distinct t" "unat (entry_size t) \<le> length e"
  shows "i < 256" "\<exists>b. t1 = t\<lparr>nht := b\<rparr>" "nht_key t1 i = take (unat (entry_unique_size t)) e"
    and "\<And>j. j < 256 \<Longrightarrow> nht_users t j \<noteq> 0 \<Longrightarrow> nht_key t1 j = nht_key t j"
    and "\<And>j. j < 256 \<Longrightarrow> nht_users t j \<noteq> 0 \<Longrightarrow>
      nht_key t j = take (unat (entry_unique_size t)) e \<Longrightarrow> j = i"
proof -
  have t1: "\<exists>b. t\<lparr>nht := nht t\<rparr> = t\<lparr>nht := b\<rparr>" by blast
  consider "nht_find_existing t e = Some i" "t1 = t"
    | "nht_find_existing t e = None" "nht_find_free t = Some i" "t1 = nht_write t i e"
    using assms(1) by (auto simp: nht_position_def split: option.splits)
  then have "i < 256 \<and> (\<exists>b. t1 = t\<lparr>nht := b\<rparr>) \<and> nht_key t1 i = take (unat (entry_unique_size t)) e \<and>
    (\<forall>j < 256. nht_users t j \<noteq> 0 \<longrightarrow> nht_key t1 j = nht_key t j \<and>
      (nht_key t j = take (unat (entry_unique_size t)) e \<longrightarrow> j = i))"
  proof cases
    case 1
    then show ?thesis using nht_find_existing_SomeD [OF 1(1)] assms(3) t1
      by (auto simp: keys_distinct_def)
  next
    case 2
    have i: "i < 256" "nht_users t i = 0"
      using find_upt(1) [of _ 256 i] 2(2) by (auto simp: nht_find_free_def)
    have "\<exists>b. t1 = t\<lparr>nht := b\<rparr>" unfolding 2(3) nht_write_def by blast
    then show ?thesis
      using i nht_key_write [OF assms(2) i(1) _ assms(4)] nht_find_existing_NoneD [OF 2(1)]
      by (auto simp: 2(3))
  qed
  then show "i < 256" "\<exists>b. t1 = t\<lparr>nht := b\<rparr>" "nht_key t1 i = take (unat (entry_unique_size t)) e"
    "\<And>j. j < 256 \<Longrightarrow> nht_users t j \<noteq> 0 \<Longrightarrow> nht_key t1 j = nht_key t j"
    "\<And>j. j < 256 \<Longrightarrow> nht_users t j \<noteq> 0 \<Longrightarrow>
      nht_key t j = take (unat (entry_unique_size t)) e \<Longrightarrow> j = i"
    by blast+
qed

lemma nht_position_NoneD:
  assumes "nht_position t e = None" "i < 256"
  shows "nht_users t i \<noteq> 0 \<and> nht_key t i \<noteq> take (unat (entry_unique_size t)) e"
proof -
  have "nht_find_existing t e = None" "nht_find_free t = None"
    using assms(1) by (auto simp: nht_position_def split: option.splits)
  then show ?thesis
    using assms(2) nht_find_existing_NoneD [of t e i] find_upt(2) [of _ 256 i] by (auto simp: nht_find_free_def)
qed

lemma used_position:
  assumes "table_ok t" "routes (low_lpm t) d p = Some h"
  shows "nht_users t (unat h) \<noteq> 0"
  using assms lpmc.users_positive [of "low_lpm t" h] by (auto simp: table_ok_def users_exact_def)

section \<open>Adding\<close>

lemma nht_key_eq: "nht_key (t\<lparr>low_lpm := l, nht_users := u\<rparr>) i = nht_key t i"
  "nht_key (t\<lparr>low_lpm := l\<rparr>) i = nht_key t i"
  by (simp_all add: nht_key_def nht_entry_def)

lemma u8_position: "i < 256 \<Longrightarrow> unat (of_nat i :: u8) = i"
  by (simp add: unat_of_nat)

text \<open>New bytes at positions nobody uses change no route.\<close>

lemma add_rejected:
  assumes ok: "table_ok t" and t1: "t1 = t\<lparr>nht := b\<rparr>"
    and keys: "\<And>j. j < 256 \<Longrightarrow> nht_users t j \<noteq> 0 \<Longrightarrow> nht_key t1 j = nht_key t j"
    and low: "lpm_small low" "routes low = routes (low_lpm t)"
  shows "table_ok (t1\<lparr>low_lpm := low\<rparr>)" "table_routes (t1\<lparr>low_lpm := low\<rparr>) = table_routes t"
proof -
  have "nht_key t1 (unat h) = nht_key t (unat h)" if "routes (low_lpm t) d p = Some h" for d p and h :: u8
    using keys [of "unat h"] used_position [OF ok that] unsigned_less [of h] by simp
  then have "map_option (\<lambda>h. nht_key t1 (unat h)) (routes (low_lpm t) d p) =
    map_option (\<lambda>h. nht_key t (unat h)) (routes (low_lpm t) d p)" for d p
    by (cases "routes (low_lpm t) d p") auto
  then show "table_routes (t1\<lparr>low_lpm := low\<rparr>) = table_routes t"
    by (simp add: table_routes_def low(2) nht_key_eq fun_eq_iff)
  have "keys_distinct (t1\<lparr>low_lpm := low\<rparr>)"
    using ok keys by (auto simp: keys_distinct_def table_ok_def nht_key_eq t1)
  then show "table_ok (t1\<lparr>low_lpm := low\<rparr>)"
    using ok low by (simp add: table_ok_def sizes_ok_def users_exact_def t1)
qed

lemma add_committed:
  assumes ok: "table_ok t" and t1: "t1 = t\<lparr>nht := b\<rparr>" and i: "i < 256" and key: "nht_key t1 i = key"
    and keys: "\<And>j. j < 256 \<Longrightarrow> nht_users t j \<noteq> 0 \<Longrightarrow> nht_key t1 j = nht_key t j"
    and uniq: "\<And>j. j < 256 \<Longrightarrow> nht_users t j \<noteq> 0 \<Longrightarrow> nht_key t j = key \<Longrightarrow> j = i"
    and d: "1 \<le> d" "d \<le> 32" and add: "rte_lpm_add (low_lpm t) ip d (of_nat i) = (0, low)"
    and users: "\<And>g :: u8. users (unat g) = nht_users t (unat g) + (if unat g = i then 1 else 0) -
      (if routes (low_lpm t) d (ip AND depth_to_mask d) = Some g then 1 else 0)"
  defines "t' \<equiv> t1\<lparr>low_lpm := low, nht_users := users\<rparr>"
  shows "table_ok t'"
    and "table_routes t' = (table_routes t)(d := (table_routes t d)(ip AND depth_to_mask d \<mapsto> key))"
proof -
  have small: "lpm_small (low_lpm t)" using ok by (simp add: table_ok_def)
  have low: "lpm_small low"
    "routes low = (routes (low_lpm t))(d := (routes (low_lpm t) d)(ip AND depth_to_mask d \<mapsto> of_nat i))"
    using lpmc.add_cases [OF small d add] by simp_all
  have exact: "users (unat g) = of_nat (hop_users (routes low) g)" for g :: u8
  proof -
    have "unat g = i \<longleftrightarrow> g = of_nat i" using i u8_position by force
    then show ?thesis using users [of g] lpmc.users_add [OF small d add, of g] ok
      by (simp add: table_ok_def users_exact_def)
  qed
  then have used: "users (unat g) \<noteq> 0 \<longleftrightarrow> (\<exists>d p. routes low d p = Some g)" for g :: u8
    using lpmc.users_positive [OF low(1), of g] by simp
  have old: "j = i \<or> nht_users t j \<noteq> 0" if "j < 256" "users j \<noteq> 0" for j
  proof -
    have "\<exists>d p. routes low d p = Some (of_nat j)" using used [of "of_nat j"] that by (simp add: u8_position)
    then consider "(of_nat i :: u8) = of_nat j" | d p where "routes (low_lpm t) d p = Some (of_nat j)"
      by (auto simp: low(2) split: if_splits)
    then show ?thesis
    proof cases
      case 1
      then have "unat (of_nat i :: u8) = unat (of_nat j :: u8)" by simp
      then show ?thesis using that(1) i by (simp add: u8_position)
    next
      case 2
      then show ?thesis using used_position [OF ok 2] that(1) by (simp add: u8_position)
    qed
  qed
  have "keys_distinct t'"
    unfolding keys_distinct_def
  proof (intro allI impI)
    fix j k assume jk: "j < 256" "k < 256" "nht_users t' j \<noteq> 0" "nht_users t' k \<noteq> 0"
      and eq: "nht_key t' j = nht_key t' k"
    have eq': "nht_key t1 j = nht_key t1 k" using eq by (simp add: t'_def nht_key_eq)
    have kd: "keys_distinct t" using ok by (simp add: table_ok_def)
    consider "j = i" | "j \<noteq> i" "nht_users t j \<noteq> 0" using old [of j] jk by (auto simp: t'_def)
    then show "j = k"
    proof cases
      case 1
      then show ?thesis using old [of k] jk keys [of k] uniq [of k] eq' key by (auto simp: t'_def)
    next
      case 2
      then show ?thesis using old [of k] jk keys [of k] keys [of j] uniq [of j] eq' key kd
        by (auto simp: t'_def keys_distinct_def)
    qed
  qed
  then show "table_ok t'"
    using ok low(1) exact by (simp add: table_ok_def sizes_ok_def users_exact_def t'_def t1)
  have "nht_key t1 (unat h) = nht_key t (unat h)" if "routes (low_lpm t) d p = Some h" for d p and h :: u8
    using keys [of "unat h"] used_position [OF ok that] unsigned_less [of h] by simp
  then have "map_option (\<lambda>h. nht_key t1 (unat h)) (routes (low_lpm t) d p) =
    map_option (\<lambda>h. nht_key t (unat h)) (routes (low_lpm t) d p)" for d p
    by (cases "routes (low_lpm t) d p") auto
  then show "table_routes t' = (table_routes t)(d := (table_routes t d)(ip AND depth_to_mask d \<mapsto> key))"
    using key i by (auto simp: table_routes_def t'_def nht_key_eq low(2) fun_eq_iff u8_position)
qed

lemma key_depth_range:
  assumes "\<not> (key_depth k = 0 \<or> key_depth k > 32)"
  shows "1 \<le> unat (key_depth k)" "unat (key_depth k) \<le> 32"
  using assms by (auto simp: word_le_nat_alt word_less_nat_alt unat_gt_0 Suc_le_eq)

lemma u8_unat_inj: "unat (a :: u8) = unat b \<longleftrightarrow> a = b"
  using unsigned_word_eqI by blast

lemma entry_add_step:
  assumes ok: "table_ok t" and len: "unat (entry_size t) \<le> length e"
    and depth: "\<not> (key_depth k = 0 \<or> key_depth k > 32)"
  defines "d \<equiv> unat (key_depth k)"
  defines "p \<equiv> key_ip k AND depth_to_mask d"
  defines "key \<equiv> take (unat (entry_unique_size t)) e"
  shows "\<exists>t'. table_ok t' \<and> entry_unique_size t' = entry_unique_size t \<and>
    ((\<exists>pos. rte_table_lpm_entry_add (Some t) (Some k) (Some e) =
        (0, Some (if table_routes t d p = None then 0 else 1, pos), Some t') \<and>
        seg (nht t') pos (unat (entry_unique_size t)) = key \<and>
        table_routes t' = (table_routes t)(d := (table_routes t d)(p \<mapsto> key))) \<or>
     rte_table_lpm_entry_add (Some t) (Some k) (Some e) = (-1, None, Some t') \<and>
        table_routes t' = table_routes t \<and>
        ((\<forall>i < 256. nht_users t i \<noteq> 0 \<and> nht_key t i \<noteq> key) \<or>
          table_routes t d p = None \<and> (\<exists>h. fst (rte_lpm_add (low_lpm t) (key_ip k) d h) < 0)))"
proof -
  note d = key_depth_range [OF depth, folded d_def]
  have small: "lpm_small (low_lpm t)" and sz: "sizes_ok t" and kd: "keys_distinct t"
    using ok by (simp_all add: table_ok_def)
  have present: "rte_lpm_is_rule_present (low_lpm t) (key_ip k) d =
    (case routes (low_lpm t) d p of None \<Rightarrow> (0, None) | Some h \<Rightarrow> (1, Some h))"
    unfolding p_def by (rule lpmc.present_eq [OF small d])
  have none: "table_routes t d p = None \<longleftrightarrow> routes (low_lpm t) d p = None"
    by (simp add: table_routes_def)
  show ?thesis
  proof (cases "nht_position t e")
    case None
    then have "rte_table_lpm_entry_add (Some t) (Some k) (Some e) = (-1, None, Some t)"
      using depth by (simp add: rte_table_lpm_entry_add_def d_def [symmetric] present Let_def split: option.splits prod.splits)
    then show ?thesis using ok nht_position_NoneD [OF None] by (auto simp: key_def)
  next
    case (Some it)
    obtain i t1 where it: "it = (i, t1)" by (cases it)
    note pos = nht_position_SomeD [OF Some [unfolded it] sz kd len, folded key_def]
    obtain b where b: "t1 = t\<lparr>nht := b\<rparr>" using pos(2) by blast
    obtain r low where add: "rte_lpm_add (low_lpm t) (key_ip k) d (of_nat i) = (r, low)"
      by (cases "rte_lpm_add (low_lpm t) (key_ip k) d (of_nat i)")
    have add1: "rte_lpm_add (low_lpm t1) (key_ip k) d (of_nat i) = (r, low)" by (simp add: add b)
    have cases: "lpm_small low" "r = 0 \<or> r < 0 \<and> routes low = routes (low_lpm t) \<and> routes (low_lpm t) d p = None"
      using lpmc.add_cases [OF small d add] by (auto simp: p_def)
    show ?thesis
    proof (cases "r = 0")
      case False
      then have "rte_table_lpm_entry_add (Some t) (Some k) (Some e) = (-1, None, Some (t1\<lparr>low_lpm := low\<rparr>))"
        using depth cases(2) Some it
        by (simp add: rte_table_lpm_entry_add_def d_def [symmetric] present Let_def add1 split: option.splits prod.splits)
      then show ?thesis
        using add_rejected [OF ok b pos(4) cases(1)] False cases(2) none add b
        by (intro exI [of _ "t1\<lparr>low_lpm := low\<rparr>"]) (auto intro!: exI [of _ "of_nat i"])
    next
      case True
      let ?h0 = "case routes (low_lpm t) d p of Some h \<Rightarrow> unat h | None \<Rightarrow> 0"
      let ?v = "if routes (low_lpm t) d p = None then 0 else 1 :: u32"
      let ?u = "(nht_users t)(i := nht_users t i + 1)"
      let ?users = "?u(?h0 := ?u ?h0 - ?v)"
      let ?t' = "t1\<lparr>low_lpm := low, nht_users := ?users\<rparr>"
      have run: "rte_table_lpm_entry_add (Some t) (Some k) (Some e) =
          (0, Some (?v, nht_entry t1 i), Some ?t')"
        using depth True Some it b add1
        by (cases "routes (low_lpm t) d p")
          (simp_all add: rte_table_lpm_entry_add_def d_def [symmetric] present Let_def)
      have users: "?users (unat g) = nht_users t (unat g) + (if unat g = i then 1 else 0) -
          (if routes (low_lpm t) d (key_ip k AND depth_to_mask d) = Some g then 1 else 0)" for g :: u8
        by (cases "routes (low_lpm t) d p") (auto simp: p_def u8_unat_inj)
      note com = add_committed [OF ok b pos(1,3-5) d add [unfolded True] users, folded p_def]
      have out: "seg (nht ?t') (nht_entry t1 i) (unat (entry_unique_size t)) = key"
        using pos(3) by (simp add: nht_key_def b)
      have run': "rte_table_lpm_entry_add (Some t) (Some k) (Some e) =
          (0, Some (if table_routes t d p = None then 0 else 1, nht_entry t1 i), Some ?t')"
        unfolding none by (rule run)
      have "\<exists>pos. rte_table_lpm_entry_add (Some t) (Some k) (Some e) =
          (0, Some (if table_routes t d p = None then 0 else 1, pos), Some ?t') \<and>
          seg (nht ?t') pos (unat (entry_unique_size t)) = key \<and>
          table_routes ?t' = (table_routes t)(d := (table_routes t d)(p \<mapsto> key))"
        by (intro exI [of _ "nht_entry t1 i"] conjI run' out com(2))
      moreover have "entry_unique_size ?t' = entry_unique_size t" by (simp add: b)
      ultimately show ?thesis using com(1) by blast
    qed
  qed
qed

section \<open>Deleting\<close>

lemma entry_delete_step:
  assumes ok: "table_ok t" and depth: "\<not> (key_depth k = 0 \<or> key_depth k > 32)"
  defines "d \<equiv> unat (key_depth k)"
  defines "p \<equiv> key_ip k AND depth_to_mask d"
  assumes safe: "delete_safe (low_lpm t) (key_ip k) d"
  shows "case table_routes t d p of
      None \<Rightarrow> rte_table_lpm_entry_delete (Some t) (Some k) want = (0, Some (0, None), Some t)
    | Some key \<Rightarrow> \<exists>t' e. rte_table_lpm_entry_delete (Some t) (Some k) want =
          (0, Some (1, if want then Some e else None), Some t') \<and>
        table_ok t' \<and> take (unat (entry_unique_size t)) e = key \<and> length e = unat (entry_size t) \<and>
        table_routes t' = (table_routes t)(d := (table_routes t d)(p := None))"
proof -
  note d = key_depth_range [OF depth, folded d_def]
  have small: "lpm_small (low_lpm t)" and sz: "sizes_ok t" and kd: "keys_distinct t"
    using ok by (simp_all add: table_ok_def)
  have present: "rte_lpm_is_rule_present (low_lpm t) (key_ip k) d =
    (case routes (low_lpm t) d p of None \<Rightarrow> (0, None) | Some h \<Rightarrow> (1, Some h))"
    unfolding p_def by (rule lpmc.present_eq [OF small d])
  show ?thesis
  proof (cases "routes (low_lpm t) d p")
    case None
    then show ?thesis using depth present
      by (simp add: rte_table_lpm_entry_delete_def table_routes_def d_def [symmetric])
  next
    case (Some h)
    obtain low where low: "rte_lpm_delete (low_lpm t) (key_ip k) d = (0, low)" "lpm_small low"
      "routes low = (routes (low_lpm t))(d := (routes (low_lpm t) d)(p := None))"
      "\<forall>g. (of_nat (hop_users (routes low) g) :: u32) =
        of_nat (hop_users (routes (low_lpm t)) g) - (if g = h then 1 else 0)"
      using lpmc.users_del [OF small d Some [unfolded p_def] safe] by (auto simp: p_def)
    let ?users = "(nht_users t)(unat h := nht_users t (unat h) - 1)"
    let ?t' = "t\<lparr>low_lpm := low, nht_users := ?users\<rparr>"
    let ?e = "seg (nht t) (nht_entry t (unat h)) (unat (entry_size t))"
    have run: "rte_table_lpm_entry_delete (Some t) (Some k) want =
        (0, Some (1, if want then Some ?e else None), Some ?t')"
      using depth present Some low(1) by (simp add: rte_table_lpm_entry_delete_def d_def [symmetric] Let_def)
    have "users_exact ?t'"
      using ok low(4) by (simp add: users_exact_def table_ok_def u8_unat_inj)
    moreover have "keys_distinct ?t'"
      using kd used_position [OF ok Some] by (auto simp: keys_distinct_def nht_key_eq)
    ultimately have ok': "table_ok ?t'" using low(2) sz by (simp add: table_ok_def sizes_ok_def)
    have key: "take (unat (entry_unique_size t)) ?e = nht_key t (unat h)"
      using sz by (auto simp: nht_key_def sizes_ok_def intro!: nth_equalityI)
    have "table_routes ?t' = (table_routes t)(d := (table_routes t d)(p := None))"
      by (auto simp: table_routes_def nht_key_eq low(3) fun_eq_iff)
    then show ?thesis using run ok' key Some by (auto simp: table_routes_def)
  qed
qed

section \<open>Looking up\<close>

lemma bit_clzll: "bit v j \<Longrightarrow> j < 64 - clzll v"
proof (rule ccontr)
  assume b: "bit v j" and n: "\<not> j < 64 - clzll v"
  have j: "j < 64" using bit_imp_le_length [OF b] by simp
  have "63 - j < length (takeWhile (\<lambda>i. \<not> bit v i) (rev [0..<64]))"
    using n j by (simp add: clzll_def)
  then have "takeWhile (\<lambda>i. \<not> bit v i) (rev [0..<64]) ! (63 - j) \<in> set (takeWhile (\<lambda>i. \<not> bit v i) (rev [0..<64]))"
    by (rule nth_mem)
  then have "\<not> bit v (takeWhile (\<lambda>i. \<not> bit v i) (rev [0..<64]) ! (63 - j))"
    by (rule set_takeWhileD [THEN conjunct2])
  moreover have "takeWhile (\<lambda>i. \<not> bit v i) (rev [0..<64]) ! (63 - j) = rev [0..<64] ! (63 - j)"
    using \<open>63 - j < _\<close> by (rule takeWhile_nth)
  ultimately show False using b j by (simp add: rev_nth)
qed

lemma metadata_byte:
  assumes "k < 4"
  shows "byte_of k (RTE_MBUF_METADATA_UINT32 pkt off) = pkt (off + k)"
proof (rule byte_eqI)
  fix b :: nat assume b: "b < 8"
  have n: "\<not> bit w (8 + b)" "\<not> bit w (16 + b)" "\<not> bit w (24 + b)" for w :: u8
    by (auto dest: bit_imp_le_length)
  consider "k = 0" | "k = 1" | "k = 2" | "k = 3" using assms by arith
  then show "bit (byte_of k (RTE_MBUF_METADATA_UINT32 pkt off)) b = bit (pkt (off + k)) b"
    by cases (use b n in \<open>auto simp: bit_byte_of RTE_MBUF_METADATA_UINT32_def bit_simps\<close>)
qed

lemma packet_ip_byte: "k < 4 \<Longrightarrow> byte_of (3 - k) (packet_ip t pkt) = pkt (unat (offset t) + k)"
  using byte_of_bswap32 [of "3 - k" "RTE_MBUF_METADATA_UINT32 pkt (unat (offset t))"]
    metadata_byte [of k pkt "unat (offset t)"]
  by (simp add: packet_ip_def)

lemma longest_map:
  "longest (\<lambda>d p. map_option f (R d p)) ip n = map_option (\<lambda>(h, d). (f h, d)) (longest R ip n)"
  by (induction n) (auto split: option.splits)

lemma lookup_loop:
  assumes "n \<le> 64"
  shows "for_range 0 n (lookup_packet t pkts m) (0, e) = (out, e') \<Longrightarrow>
    (\<forall>i < 64. bit out i \<longleftrightarrow> i < n \<and> bit m i \<and> fst (rte_lpm_lookup (low_lpm t) (packet_ip t (pkts i))) = 0) \<and>
    (\<forall>i < 64. e' i = (if bit out i then nht_entry t (unat (snd (rte_lpm_lookup (low_lpm t) (packet_ip t (pkts i))))) else e i))"
  using assms
proof (induction n arbitrary: out e')
  case 0
  then show ?case by auto
next
  case (Suc n)
  obtain o1 e1 where s: "for_range 0 n (lookup_packet t pkts m) (0, e) = (o1, e1)" by (metis surj_pair)
  note IH = Suc.IH [OF s]
  obtain st pos where l: "rte_lpm_lookup (low_lpm t) (packet_ip t (pkts n)) = (st, pos)" by (metis surj_pair)
  have bit: "push_bit n 1 AND m \<noteq> 0 \<longleftrightarrow> bit m n"
    using bit_iff_and_push_bit_not_eq_0 [of m n] by (simp add: and.commute)
  have "lookup_packet t pkts m n (o1, e1) = (out, e')" using Suc.prems s by (simp add: for_range_last)
  then have "out = (if bit m n \<and> st = 0 then o1 OR push_bit n 1 else o1)"
    "e' = (if bit m n \<and> st = 0 then e1(n := nht_entry t (unat pos)) else e1)"
    by (auto simp only: lookup_packet_def l bit Let_def prod.case split: if_splits)
  then show ?case using IH Suc.prems(2) l
    by (auto simp: bit_or_iff bit_exp_iff less_Suc_eq)
qed

lemma table_lookup_entry:
  assumes "table_ok t"
  shows "case longest (table_routes t) ip 32 of
      None \<Rightarrow> fst (rte_lpm_lookup (low_lpm t) ip) \<noteq> 0
    | Some (key, d) \<Rightarrow> fst (rte_lpm_lookup (low_lpm t) ip) = 0 \<and>
        key = nht_key t (unat (snd (rte_lpm_lookup (low_lpm t) ip)))"
proof -
  have "longest (table_routes t) ip 32 = map_option (\<lambda>(h, d). (nht_key t (unat h), d)) (longest (routes (low_lpm t)) ip 32)"
    unfolding table_routes_def by (rule longest_map)
  then show ?thesis
    using lpmc.lookup_eq [of "low_lpm t" ip] assms by (auto simp: table_ok_def split: option.splits)
qed

lemma lookup_packets:
  assumes ok: "table_ok t" and run: "rte_table_lpm_lookup t pkts m e = (r, out, e')" and i: "i < 64"
  shows "bit out i \<longleftrightarrow> bit m i \<and> longest (table_routes t) (packet_ip t (pkts i)) 32 \<noteq> None"
    and "bit out i \<Longrightarrow> \<exists>d. longest (table_routes t) (packet_ip t (pkts i)) 32 =
      Some (seg (nht t) (e' i) (unat (entry_unique_size t)), d)"
    and "\<not> bit out i \<Longrightarrow> e' i = e i"
proof -
  let ?l = "rte_lpm_lookup (low_lpm t) (packet_ip t (pkts i))"
  have loop: "for_range 0 (64 - clzll m) (lookup_packet t pkts m) (0, e) = (out, e')"
    using run by (simp add: rte_table_lpm_lookup_def Let_def split: prod.splits)
  note L = lookup_loop [OF diff_le_self loop]
  have bit: "bit out i \<longleftrightarrow> bit m i \<and> fst ?l = 0" using L i bit_clzll [of m i] by auto
  have val: "e' i = (if bit out i then nht_entry t (unat (snd ?l)) else e i)" using L i by simp
  note E = table_lookup_entry [OF ok, of "packet_ip t (pkts i)"]
  show "bit out i \<longleftrightarrow> bit m i \<and> longest (table_routes t) (packet_ip t (pkts i)) 32 \<noteq> None"
    using bit E by (auto split: option.splits)
  show "bit out i \<Longrightarrow> \<exists>d. longest (table_routes t) (packet_ip t (pkts i)) 32 =
      Some (seg (nht t) (e' i) (unat (entry_unique_size t)), d)"
    using bit val E by (auto simp: nht_key_def split: option.splits)
  show "\<not> bit out i \<Longrightarrow> e' i = e i" using val by simp
qed

section \<open>Creation\<close>

lemma align_8_size:
  assumes "unat (s :: u32) + 7 < 2 ^ 24"
  shows "s \<le> RTE_ALIGN s 8" "unat (RTE_ALIGN s 8) < 2 ^ 24"
    "unat (of_nat 256 * RTE_ALIGN s 8 :: u32) = 256 * unat (RTE_ALIGN s 8)"
proof -
  have a: "unat (RTE_ALIGN s 8) = (unat s + 7) div 8 * 8"
    using RTE_ALIGN_unat [of 3 s] assms by simp
  show "s \<le> RTE_ALIGN s 8" using a round_up_bounds(1) [of 8 "unat s"] by (simp add: word_le_nat_alt)
  show lt: "unat (RTE_ALIGN s 8) < 2 ^ 24"
    using a div_times_less_eq_dividend [of "unat s + 7" 8] assms by linarith
  show "unat (of_nat 256 * RTE_ALIGN s 8 :: u32) = 256 * unat (RTE_ALIGN s 8)"
    using lt by (simp add: unat_word_ariths)
qed

lemma create_table:
  assumes p: "p_n_rules p \<noteq> 0" "p_entry_unique_size p \<noteq> 0" "p_entry_unique_size p \<le> s"
    and s: "unat s + 7 < 2 ^ 24" and low: "rte_lpm_find_existing ''LPM'' lpms = Inl ENOENT" "- 1 \<le> socket"
  shows "\<exists>t size. rte_table_lpm_create (Some p) socket s True True True lpms = (Some (t, size), lpms @ [low_lpm t]) \<and>
    table_ok t \<and> table_routes t = (\<lambda>_ _. None) \<and>
    entry_size t = RTE_ALIGN s 8 \<and> entry_unique_size t = p_entry_unique_size p \<and>
    low_lpm t = lpm_init ''LPM'' (unat (p_n_rules p)) \<and> nht_users t = (\<lambda>_. 0) \<and>
    unat size = 256 * unat (RTE_ALIGN s 8)"
proof -
  have n: "0 < unat (p_n_rules p)" using p(1) by (simp add: unat_gt_0)
  let ?l = "lpm_init ''LPM'' (unat (p_n_rules p))"
  have c: "rte_lpm_create (Some ''LPM'') socket (unat (p_n_rules p)) True True lpms = (Inr (Some ?l), lpms @ [?l])"
    using low n by (auto simp: rte_lpm_create_def rte_lpm_find_existing_def Let_def split: option.splits)
  let ?t = "\<lparr>entry_size = RTE_ALIGN s 8, entry_unique_size = p_entry_unique_size p,
    n_rules = p_n_rules p, offset = p_offset p, low_lpm = ?l, nht_users = (\<lambda>_. 0), nht = (\<lambda>_. 0)\<rparr>"
  have run: "rte_table_lpm_create (Some p) socket s True True True lpms =
      (Some (?t, of_nat 256 * RTE_ALIGN s 8), lpms @ [?l])"
    using p c by (simp add: rte_table_lpm_create_def Let_def)
  have "lpm_small ?l" using init_lpm_ok [OF n, of "''LPM''"] unsigned_less [of "p_n_rules p", where 'a = nat]
    by (simp add: lpm_small_def) (simp add: lpm_init_def)
  moreover have "sizes_ok ?t"
    using p(2,3) align_8_size [OF s] by (simp add: sizes_ok_def unat_gt_0 word_le_nat_alt)
  moreover have "users_exact ?t" "keys_distinct ?t"
    using init_lpm_ok [OF n, of "''LPM''"] by (simp_all add: users_exact_def keys_distinct_def)
  ultimately have "table_ok ?t" by (simp add: table_ok_def)
  moreover have "table_routes ?t = (\<lambda>_ _. None)"
    using init_lpm_ok [OF n, of "''LPM''"] by (simp add: table_routes_def fun_eq_iff)
  ultimately show ?thesis using run align_8_size(3) [OF s]
    by (intro exI [of _ ?t] exI [of _ "of_nat 256 * RTE_ALIGN s 8"]) simp
qed

text \<open>The tables the witnesses use: 16-byte entries of which four bytes are unique.\<close>

definition sample_params :: rte_table_lpm_params where
  "sample_params = \<lparr>p_n_rules = 16, p_entry_unique_size = 4, p_offset = 2\<rparr>"

definition sample_key :: rte_table_lpm_key where
  "sample_key = \<lparr>key_ip = 0x14000001, key_depth = 32\<rparr>"

lemma sample_create:
  "\<exists>t size. rte_table_lpm_create (Some sample_params) 0 16 True True True [] = (Some (t, size), [low_lpm t]) \<and>
    table_ok t \<and> table_routes t = (\<lambda>_ _. None) \<and> entry_size t = 16 \<and> entry_unique_size t = 4 \<and>
    low_lpm t = lpm_init ''LPM'' 16 \<and> nht_users t 0 = 0"
  using create_table [of sample_params 16 "[]" 0]
  by (fastforce simp: sample_params_def rte_lpm_find_existing_def RTE_ALIGN_def RTE_ALIGN_CEIL_def RTE_ALIGN_FLOOR_def)

lemma sample_low_add: "fst (rte_lpm_add (lpm_init ''LPM'' 16) 0x14000001 32 h) = 0"
  by (simp add: sample_eval damage_steps)

lemma sample_added:
  "\<exists>t. table_ok t \<and> entry_unique_size t = 4 \<and> table_routes t 32 0x14000001 = Some [1, 2, 3, 4]"
proof -
  obtain t where t: "table_ok t" "table_routes t = (\<lambda>_ _. None)" "entry_size t = 16" "entry_unique_size t = 4"
      "low_lpm t = lpm_init ''LPM'' 16" "nht_users t 0 = 0"
    using sample_create by blast
  have mask: "depth_to_mask 32 = - 1" by (simp add: sample_masks)
  obtain t' where "table_ok t'"
    "table_routes t' = (table_routes t)(32 := (table_routes t 32)(0x14000001 \<mapsto> [1, 2, 3, 4]))"
    "entry_unique_size t' = 4"
    using entry_add_step [OF t(1), of "[1, 2, 3, 4] @ replicate 12 0" sample_key] sample_low_add t(2-6)
    by (auto simp: sample_key_def mask)
  then show ?thesis by auto
qed

section \<open>Properties\<close>



text \<open>C18: an addition maps the prefix to the unique bytes of the entry and points at them, and reports
  whether the prefix was there; or it fails without changing any prefix, because all 256 positions are taken by
  other entries or the low-level table refuses a new prefix.\<close>

theorem table_add_exact:
  assumes "table_ok t" "unat (entry_size t) \<le> length e" "1 \<le> key_depth k" "key_depth k \<le> 32"
  shows "let d = unat (key_depth k); p = key_ip k AND depth_to_mask d;
             key = take (unat (entry_unique_size t)) e in
    case rte_table_lpm_entry_add (Some t) (Some k) (Some e) of
      (r, Some (found, pos), Some t') \<Rightarrow> r = 0 \<and> table_ok t' \<and>
        found = (if table_routes t d p = None then 0 else 1) \<and>
        seg (nht t') pos (unat (entry_unique_size t)) = key \<and>
        table_routes t' = (table_routes t)(d := (table_routes t d)(p \<mapsto> key))
    | (r, None, Some t') \<Rightarrow> r = -1 \<and> table_ok t' \<and> table_routes t' = table_routes t \<and>
        ((\<forall>i < 256. nht_users t i \<noteq> 0 \<and> nht_key t i \<noteq> key) \<or>
         table_routes t d p = None \<and> (\<exists>h. fst (rte_lpm_add (low_lpm t) (key_ip k) d h) < 0))
    | _ \<Rightarrow> False"
proof -
  have "\<not> (key_depth k = 0 \<or> key_depth k > 32)" using assms(3,4) by auto
  from entry_add_step [OF assms(1,2) this] show ?thesis by (auto simp: Let_def)
qed

theorem table_add_exact_witness:
  "\<exists>t t' pos. table_routes t = (\<lambda>_ _. None) \<and>
     rte_table_lpm_entry_add (Some t) (Some sample_key) (Some ([1, 2, 3, 4] @ replicate 12 0)) =
      (0, Some (0, pos), Some t') \<and>
     table_routes t' 32 0x14000001 = Some [1, 2, 3, 4]"
proof -
  obtain t where t: "table_ok t" "table_routes t = (\<lambda>_ _. None)" "entry_size t = 16" "entry_unique_size t = 4"
      "low_lpm t = lpm_init ''LPM'' 16" "nht_users t 0 = 0"
    using sample_create by blast
  have m: "depth_to_mask 32 = - 1" by (simp add: sample_masks)
  obtain r out t' where run: "rte_table_lpm_entry_add (Some t) (Some sample_key) (Some ([1, 2, 3, 4] @ replicate 12 0)) =
      (r, out, t')" by (metis surj_pair)
  have "\<exists>t' pos. rte_table_lpm_entry_add (Some t) (Some sample_key) (Some ([1, 2, 3, 4] @ replicate 12 0)) =
      (0, Some (0, pos), Some t') \<and> table_routes t' 32 0x14000001 = Some [1, 2, 3, 4]"
    using table_add_exact [OF t(1), of "[1, 2, 3, 4] @ replicate 12 0" sample_key] sample_low_add t(2-6) run
    by (cases out; cases t') (auto simp: sample_key_def m Let_def)
  then show ?thesis using t(2) by blast
qed



text \<open>C20: a burst lookup reads the address of each packet in the mask, most significant byte first,
  and sets its bit in the hit mask exactly when some prefix matches; its entry then has the unique bytes mapped
  to the longest match.  The entries of the other packets are left alone.\<close>

theorem table_lookup_longest:
  assumes "table_ok t" "i < 64"
  shows "let (r, out, e') = rte_table_lpm_lookup t pkts m e; ip = packet_ip t (pkts i) in
    r = 0 \<and> map (\<lambda>b. byte_of (3 - b) ip) [0..<4] = map (\<lambda>b. pkts i (unat (offset t) + b)) [0..<4] \<and>
    (bit out i \<longleftrightarrow> bit m i \<and> longest (table_routes t) ip 32 \<noteq> None) \<and>
    (if bit out i then map_option fst (longest (table_routes t) ip 32) = Some (seg (nht t) (e' i) (unat (entry_unique_size t)))
     else e' i = e i)"
proof -
  obtain r out e' where run: "rte_table_lpm_lookup t pkts m e = (r, out, e')" by (metis surj_pair)
  have "r = 0" using run by (auto simp: rte_table_lpm_lookup_def Let_def split: prod.splits)
  then show ?thesis using lookup_packets [OF assms(1) run assms(2)] run
    by (auto simp: packet_ip_byte Let_def)
qed

theorem table_lookup_longest_witness:
  "\<exists>t. (case rte_table_lpm_lookup t (\<lambda>_ k. if k = 3 then 5 else 0) 1 (\<lambda>_. 0) of (r, out, e') \<Rightarrow> r = 0 \<and> \<not> bit out 0)"
proof -
  obtain t where t: "table_ok t" "table_routes t = (\<lambda>_ _. None)" using sample_create by blast
  have "longest (\<lambda>_ _. None :: u8 list option) ip n = None" for ip n by (induction n) auto
  then show ?thesis
    using table_lookup_longest [OF t(1), of 0 "\<lambda>_ k. if k = 3 then 5 else 0" 1 "\<lambda>_. 0"] t(2)
    by (intro exI [of _ t]) (auto simp: Let_def)
qed



text \<open>
  For entries of \<open>2 ^ 24\<close> bytes the sz of the next hop table wraps to 0, and the
  table is created without room for any entry.
\<close>

lemma nht_size_wraps:
  "\<exists>t l. rte_table_lpm_create (Some sample_params) 0 0x1000000 True True True [] = (Some (t, 0), [l]) \<and>
    entry_size t = 0x1000000"
  by (simp add: rte_table_lpm_create_def sample_params_def rte_lpm_create_def Let_def RTE_ALIGN_def
      RTE_ALIGN_CEIL_def RTE_ALIGN_FLOOR_def)

end
