(* ===== verification/Cmdline_Cirbuf.thy ===== *)
theory Cmdline_Cirbuf
  imports Dpdk_Prelude "HOL-Library.Monad_Syntax"
begin

text \<open>
  lib/librte_cmdline/cmdline_cirbuf.c: the circular buffer of the command line
  library.  The buffer holds elements of any type.  Memory accesses are checked:
  an access outside the buffer, or outside the flat buffer of the caller, makes
  the result \<open>None\<close>, so a result \<open>Some\<close> also says that the operation is memory
  safe.  A pointer the code compares to NULL is an option.  The indices are
  32-bit words; pointer offsets, which the code computes on pointers, are
  naturals.
\<close>

section \<open>State\<close>

record 'a cirbuf =
  maxlen :: u32
  start :: u32
  end_at :: u32
  len :: u32
  buf :: "'a list"

definition cirbuf_init :: "'a cirbuf option \<Rightarrow> 'a list option \<Rightarrow> u32 \<Rightarrow> u32 \<Rightarrow> int \<times> 'a cirbuf option" where
  "cirbuf_init cbuf mem st maxl =
    (case (cbuf, mem) of
      (Some _, Some b) \<Rightarrow> (0, Some \<lparr>maxlen = maxl, start = st, end_at = st, len = 0, buf = b\<rparr>)
    | _ \<Rightarrow> (- EINVAL, cbuf))"

definition CIRBUF_IS_FULL :: "'a cirbuf \<Rightarrow> bool" where
  "CIRBUF_IS_FULL cbuf \<longleftrightarrow> maxlen cbuf = len cbuf"
definition CIRBUF_IS_EMPTY :: "'a cirbuf \<Rightarrow> bool" where
  "CIRBUF_IS_EMPTY cbuf \<longleftrightarrow> len cbuf = 0"
definition CIRBUF_GET_LEN :: "'a cirbuf \<Rightarrow> u32" where
  "CIRBUF_GET_LEN cbuf = len cbuf"
definition CIRBUF_GET_MAXLEN :: "'a cirbuf \<Rightarrow> u32" where
  "CIRBUF_GET_MAXLEN cbuf = maxlen cbuf"
definition CIRBUF_GET_FREELEN :: "'a cirbuf \<Rightarrow> u32" where
  "CIRBUF_GET_FREELEN cbuf = maxlen cbuf - len cbuf"

text \<open>
  The characters an iteration visits.  The macro also reads the character after
  the last one it yields, which is inside the buffer.
\<close>

definition CIRBUF_FOREACH :: "'a cirbuf \<Rightarrow> 'a list" where
  "CIRBUF_FOREACH c = map (\<lambda>i. buf c ! (unat ((start c + of_nat i) mod maxlen c))) [0..<unat (len c)]"

section \<open>Adding\<close>

definition cirbuf_add_buf_head ::
  "'a cirbuf option \<Rightarrow> 'a list option \<Rightarrow> u32 \<Rightarrow> (int \<times> 'a cirbuf option) option" where
  "cirbuf_add_buf_head cbuf c n =
    (case (cbuf, c) of
      (Some cb, Some c) \<Rightarrow>
        if n = 0 \<or> n > CIRBUF_GET_FREELEN cb then Some (- EINVAL, cbuf)
        else
          (let e = (if CIRBUF_IS_EMPTY cb then 1 else 0) :: u32 in
           do {
             b \<leftarrow> (if n < start cb + e then
                     memcpy (buf cb) (unat (start cb) + unat e - unat n) c 0 (unat n)
                   else do {
                     b \<leftarrow> memcpy (buf cb) 0 c (unat n - unat (start cb + e)) (unat (start cb + e));
                     memcpy b (unat (maxlen cb) - unat n + unat (start cb + e)) c 0 (unat (n - (start cb + e)))
                   });
             Some (sint n, Some (cb\<lparr>buf := b, len := len cb + n,
               start := (start cb + (maxlen cb - n + e)) mod maxlen cb\<rparr>))
           })
    | _ \<Rightarrow> Some (- EINVAL, cbuf))"

definition cirbuf_add_buf_tail ::
  "'a cirbuf option \<Rightarrow> 'a list option \<Rightarrow> u32 \<Rightarrow> (int \<times> 'a cirbuf option) option" where
  "cirbuf_add_buf_tail cbuf c n =
    (case (cbuf, c) of
      (Some cb, Some c) \<Rightarrow>
        if n = 0 \<or> n > CIRBUF_GET_FREELEN cb then Some (- EINVAL, cbuf)
        else
          (let e = (if CIRBUF_IS_EMPTY cb then 1 else 0) :: u32;
               to = unat (end_at cb) + (if e = 0 then 1 else 0) in
           do {
             b \<leftarrow> (if n < maxlen cb - end_at cb - 1 + e then
                     memcpy (buf cb) to c 0 (unat n)
                   else do {
                     b \<leftarrow> memcpy (buf cb) to c 0 (unat (maxlen cb - end_at cb - 1 + e));
                     memcpy b 0 c (unat (maxlen cb) - unat (end_at cb) - 1 + unat e)
                       (unat (n - maxlen cb + end_at cb + 1 - e))
                   });
             Some (sint n, Some (cb\<lparr>buf := b, len := len cb + n,
               end_at := (end_at cb + (n - e)) mod maxlen cb\<rparr>))
           })
    | _ \<Rightarrow> Some (- EINVAL, cbuf))"

definition cirbuf_add_head :: "'a cirbuf \<Rightarrow> 'a \<Rightarrow> 'a cirbuf option" where
  "cirbuf_add_head cbuf c =
    (let st = (if \<not> CIRBUF_IS_EMPTY cbuf then (start cbuf + (maxlen cbuf - 1)) mod maxlen cbuf
               else start cbuf)
     in do {
          b \<leftarrow> write_at (buf cbuf) (unat st) c;
          Some (cbuf\<lparr>start := st, buf := b, len := len cbuf + 1\<rparr>)
        })"

definition cirbuf_add_head_safe :: "'a cirbuf option \<Rightarrow> 'a \<Rightarrow> (int \<times> 'a cirbuf option) option" where
  "cirbuf_add_head_safe cbuf c =
    (case cbuf of
      Some cb \<Rightarrow>
        if \<not> CIRBUF_IS_FULL cb then do { cb \<leftarrow> cirbuf_add_head cb c; Some (0, Some cb) }
        else Some (- EINVAL, cbuf)
    | None \<Rightarrow> Some (- EINVAL, cbuf))"

definition cirbuf_add_tail :: "'a cirbuf \<Rightarrow> 'a \<Rightarrow> 'a cirbuf option" where
  "cirbuf_add_tail cbuf c =
    (let e = (if \<not> CIRBUF_IS_EMPTY cbuf then (end_at cbuf + 1) mod maxlen cbuf else end_at cbuf)
     in do {
          b \<leftarrow> write_at (buf cbuf) (unat e) c;
          Some (cbuf\<lparr>end_at := e, buf := b, len := len cbuf + 1\<rparr>)
        })"

definition cirbuf_add_tail_safe :: "'a cirbuf option \<Rightarrow> 'a \<Rightarrow> (int \<times> 'a cirbuf option) option" where
  "cirbuf_add_tail_safe cbuf c =
    (case cbuf of
      Some cb \<Rightarrow>
        if \<not> CIRBUF_IS_FULL cb then do { cb \<leftarrow> cirbuf_add_tail cb c; Some (0, Some cb) }
        else Some (- EINVAL, cbuf)
    | None \<Rightarrow> Some (- EINVAL, cbuf))"

section \<open>Alignment\<close>

text \<open>The loop of \<open>__cirbuf_shift_left\<close>, from \<open>i\<close> on.\<close>

fun shift_left_bytes :: "'a cirbuf \<Rightarrow> nat \<Rightarrow> nat \<Rightarrow> 'a list \<Rightarrow> 'a list option" where
  "shift_left_bytes cbuf i 0 b = Some b"
| "shift_left_bytes cbuf i (Suc k) b = do {
     v \<leftarrow> read_at b (unat ((start cbuf + of_nat i + 1) mod maxlen cbuf));
     b \<leftarrow> write_at b (unat ((start cbuf + of_nat i) mod maxlen cbuf)) v;
     shift_left_bytes cbuf (Suc i) k b }"

definition cirbuf_shift_left :: "'a cirbuf \<Rightarrow> 'a cirbuf option" where
  "cirbuf_shift_left cbuf = do {
     tmp \<leftarrow> read_at (buf cbuf) (unat (start cbuf));
     b \<leftarrow> shift_left_bytes cbuf 0 (unat (len cbuf)) (buf cbuf);
     b \<leftarrow> write_at b (unat ((start cbuf - 1 + maxlen cbuf) mod maxlen cbuf)) tmp;
     Some (cbuf\<lparr>buf := b, start := (start cbuf + (maxlen cbuf - 1)) mod maxlen cbuf,
       end_at := (end_at cbuf + (maxlen cbuf - 1)) mod maxlen cbuf\<rparr>) }"

fun shift_right_bytes :: "'a cirbuf \<Rightarrow> nat \<Rightarrow> nat \<Rightarrow> 'a list \<Rightarrow> 'a list option" where
  "shift_right_bytes cbuf i 0 b = Some b"
| "shift_right_bytes cbuf i (Suc k) b = do {
     v \<leftarrow> read_at b (unat ((end_at cbuf + maxlen cbuf - of_nat i - 1) mod maxlen cbuf));
     b \<leftarrow> write_at b (unat ((end_at cbuf + maxlen cbuf - of_nat i) mod maxlen cbuf)) v;
     shift_right_bytes cbuf (Suc i) k b }"

definition cirbuf_shift_right :: "'a cirbuf \<Rightarrow> 'a cirbuf option" where
  "cirbuf_shift_right cbuf = do {
     tmp \<leftarrow> read_at (buf cbuf) (unat (end_at cbuf));
     b \<leftarrow> shift_right_bytes cbuf 0 (unat (len cbuf)) (buf cbuf);
     b \<leftarrow> write_at b (unat ((end_at cbuf + 1) mod maxlen cbuf)) tmp;
     Some (cbuf\<lparr>buf := b, start := (start cbuf + 1) mod maxlen cbuf,
       end_at := (end_at cbuf + 1) mod maxlen cbuf\<rparr>) }"

text \<open>\<open>while (!stop(cbuf)) shift(cbuf);\<close>, \<open>None\<close> also when the loop does not end.\<close>

partial_function (option) shift_until ::
  "('a cirbuf \<Rightarrow> bool) \<Rightarrow> ('a cirbuf \<Rightarrow> 'a cirbuf option) \<Rightarrow> 'a cirbuf \<Rightarrow> 'a cirbuf option" where
  "shift_until stop shift cbuf =
    (if stop cbuf then Some cbuf else do { cbuf \<leftarrow> shift cbuf; shift_until stop shift cbuf })"

definition cirbuf_align_left :: "'a cirbuf option \<Rightarrow> (int \<times> 'a cirbuf option) option" where
  "cirbuf_align_left cbuf =
    (case cbuf of None \<Rightarrow> Some (- EINVAL, cbuf)
     | Some cb \<Rightarrow> do {
         cb \<leftarrow> shift_until (\<lambda>c. start c = 0)
           (if start cb < maxlen cb div 2 then cirbuf_shift_left else cirbuf_shift_right) cb;
         Some (0, Some cb) })"

definition cirbuf_align_right :: "'a cirbuf option \<Rightarrow> (int \<times> 'a cirbuf option) option" where
  "cirbuf_align_right cbuf =
    (case cbuf of None \<Rightarrow> Some (- EINVAL, cbuf)
     | Some cb \<Rightarrow> do {
         cb \<leftarrow> (if start cb \<ge> maxlen cb div 2
                 then shift_until (\<lambda>c. end_at c = maxlen c - 1) cirbuf_shift_left cb
                 else shift_until (\<lambda>c. start c = maxlen c - 1) cirbuf_shift_right cb);
         Some (0, Some cb) })"

section \<open>Deleting\<close>

definition cirbuf_del_buf_head :: "'a cirbuf option \<Rightarrow> u32 \<Rightarrow> int \<times> 'a cirbuf option" where
  "cirbuf_del_buf_head cbuf sz =
    (case cbuf of None \<Rightarrow> (- EINVAL, cbuf)
     | Some cb \<Rightarrow>
        if sz = 0 \<or> sz > CIRBUF_GET_LEN cb then (- EINVAL, cbuf)
        else (let cb = cb\<lparr>len := len cb - sz\<rparr> in
          (0, Some (cb\<lparr>start := (if CIRBUF_IS_EMPTY cb then start cb + (sz - 1) else start cb + sz)
                          mod maxlen cb\<rparr>))))"

definition cirbuf_del_buf_tail :: "'a cirbuf option \<Rightarrow> u32 \<Rightarrow> int \<times> 'a cirbuf option" where
  "cirbuf_del_buf_tail cbuf sz =
    (case cbuf of None \<Rightarrow> (- EINVAL, cbuf)
     | Some cb \<Rightarrow>
        if sz = 0 \<or> sz > CIRBUF_GET_LEN cb then (- EINVAL, cbuf)
        else (let cb = cb\<lparr>len := len cb - sz\<rparr> in
          (0, Some (cb\<lparr>end_at := (if CIRBUF_IS_EMPTY cb then end_at cb + (maxlen cb - sz + 1)
                            else end_at cb + (maxlen cb - sz)) mod maxlen cb\<rparr>))))"

definition cirbuf_del_head :: "'a cirbuf \<Rightarrow> 'a cirbuf" where
  "cirbuf_del_head cbuf =
    (let cb = cbuf\<lparr>len := len cbuf - 1\<rparr> in
     if \<not> CIRBUF_IS_EMPTY cb then cb\<lparr>start := (start cb + 1) mod maxlen cb\<rparr> else cb)"

definition cirbuf_del_head_safe :: "'a cirbuf option \<Rightarrow> int \<times> 'a cirbuf option" where
  "cirbuf_del_head_safe cbuf =
    (case cbuf of
      Some cb \<Rightarrow> if \<not> CIRBUF_IS_EMPTY cb then (0, Some (cirbuf_del_head cb)) else (- EINVAL, cbuf)
    | None \<Rightarrow> (- EINVAL, cbuf))"

definition cirbuf_del_tail :: "'a cirbuf \<Rightarrow> 'a cirbuf" where
  "cirbuf_del_tail cbuf =
    (let cb = cbuf\<lparr>len := len cbuf - 1\<rparr> in
     if \<not> CIRBUF_IS_EMPTY cb then cb\<lparr>end_at := (end_at cb + (maxlen cb - 1)) mod maxlen cb\<rparr> else cb)"

definition cirbuf_del_tail_safe :: "'a cirbuf option \<Rightarrow> int \<times> 'a cirbuf option" where
  "cirbuf_del_tail_safe cbuf =
    (case cbuf of
      Some cb \<Rightarrow> if \<not> CIRBUF_IS_EMPTY cb then (0, Some (cirbuf_del_tail cb)) else (- EINVAL, cbuf)
    | None \<Rightarrow> (- EINVAL, cbuf))"

section \<open>Reading\<close>

text \<open>The result is the return value and the caller's buffer \<open>c\<close>.\<close>

definition cirbuf_get_buf_head :: "'a cirbuf option \<Rightarrow> 'a list option \<Rightarrow> u32 \<Rightarrow> (int \<times> 'a list option) option" where
  "cirbuf_get_buf_head cbuf c sz =
    (case (cbuf, c) of
      (Some cb, Some out) \<Rightarrow>
        (let n = (if sz < CIRBUF_GET_LEN cb then sz else CIRBUF_GET_LEN cb) in
         if n = 0 then Some (0, c)
         else do {
           out \<leftarrow> (if start cb \<le> end_at cb then memcpy out 0 (buf cb) (unat (start cb)) (unat n)
                   else if n \<le> maxlen cb - start cb then memcpy out 0 (buf cb) (unat (start cb)) (unat n)
                   else do {
                     out \<leftarrow> memcpy out 0 (buf cb) (unat (start cb)) (unat (maxlen cb - start cb));
                     memcpy out (unat (maxlen cb) - unat (start cb)) (buf cb) 0 (unat (n - maxlen cb + start cb))
                   });
           Some (sint n, Some out) })
    | _ \<Rightarrow> Some (- EINVAL, c))"

definition cirbuf_get_buf_tail :: "'a cirbuf option \<Rightarrow> 'a list option \<Rightarrow> u32 \<Rightarrow> (int \<times> 'a list option) option" where
  "cirbuf_get_buf_tail cbuf c sz =
    (case (cbuf, c) of
      (Some cb, Some out) \<Rightarrow>
        (let n = (if sz < CIRBUF_GET_LEN cb then sz else CIRBUF_GET_LEN cb) in
         if n = 0 then Some (0, c)
         else do {
           out \<leftarrow> (if start cb \<le> end_at cb then memcpy out 0 (buf cb) (unat (end_at cb) + 1 - unat n) (unat n)
                   else if n \<le> end_at cb + 1 then memcpy out 0 (buf cb) (unat (end_at cb) + 1 - unat n) (unat n)
                   else do {
                     out \<leftarrow> memcpy out (unat (maxlen cb) - unat (start cb)) (buf cb) 0 (unat (end_at cb + 1));
                     memcpy out 0 (buf cb) (unat (maxlen cb) - unat n + unat (end_at cb) + 1) (unat (n - end_at cb - 1))
                   });
           Some (sint n, Some out) })
    | _ \<Rightarrow> Some (- EINVAL, c))"

definition cirbuf_get_head :: "'a cirbuf \<Rightarrow> 'a option" where
  "cirbuf_get_head cbuf = read_at (buf cbuf) (unat (start cbuf))"

definition cirbuf_get_tail :: "'a cirbuf \<Rightarrow> 'a option" where
  "cirbuf_get_tail cbuf = read_at (buf cbuf) (unat (end_at cbuf))"

section \<open>The invariant and the list it stands for\<close>

definition cb_size :: "'a cirbuf \<Rightarrow> nat" where
  "cb_size cb = unat (maxlen cb)"

definition cb_ok :: "'a cirbuf \<Rightarrow> bool" where
  "cb_ok cb \<longleftrightarrow> 0 < cb_size cb \<and> cb_size cb < 2 ^ 31 \<and> length (buf cb) = cb_size cb \<and>
    unat (start cb) < cb_size cb \<and> unat (len cb) \<le> cb_size cb \<and>
    unat (end_at cb) = (if len cb = 0 then unat (start cb) else (unat (start cb) + unat (len cb) - 1) mod cb_size cb)"

definition cb_list :: "'a cirbuf \<Rightarrow> 'a list" where
  "cb_list cb = map (\<lambda>i. buf cb ! ((unat (start cb) + i) mod cb_size cb)) [0..<unat (len cb)]"

lemma length_cb_list [simp]: "length (cb_list cb) = unat (len cb)"
  by (simp add: cb_list_def)

lemma cb_list_eqI:
  assumes "unat (len cb) = length xs"
    and "\<And>i. i < length xs \<Longrightarrow> buf cb ! ((unat (start cb) + i) mod cb_size cb) = xs ! i"
  shows "cb_list cb = xs"
  by (rule nth_equalityI) (simp_all add: cb_list_def assms)

lemma cb_list_nth: "i < unat (len cb) \<Longrightarrow> cb_list cb ! i = buf cb ! ((unat (start cb) + i) mod cb_size cb)"
  by (simp add: cb_list_def)

text \<open>Arithmetic of the indices: below \<open>2 ^ 31\<close> elements no sum of two of them wraps.\<close>

lemma mod_neq: "a < b \<Longrightarrow> b < a + m \<Longrightarrow> a mod m \<noteq> b mod m" for a b m :: nat
proof
  assume "a < b" "b < a + m" "a mod m = b mod m"
  then have "m dvd b - a" by (metis mod_eq_dvd_iff_nat less_imp_le)
  then show False using \<open>a < b\<close> \<open>b < a + m\<close> by (auto dest!: dvd_imp_le)
qed

text \<open>Storing \<open>n\<close> elements from position \<open>w\<close> on, around the end of the buffer.\<close>

definition stored :: "'a list \<Rightarrow> nat \<Rightarrow> 'a list \<Rightarrow> nat \<Rightarrow> 'a list \<Rightarrow> bool" where
  "stored b w c n b' \<longleftrightarrow> length b' = length b \<and>
    (\<forall>j < n. b' ! ((w + j) mod length b) = c ! j) \<and>
    (\<forall>p < length b. (\<forall>j < n. p \<noteq> (w + j) mod length b) \<longrightarrow> b' ! p = b ! p)"

lemma stored_straight:
  assumes "memcpy b w c 0 n = Some b'"
  shows "stored b w c n b'"
proof -
  have "w + n \<le> length b" using assms by (simp add: memcpy_Some)
  then show ?thesis
    using nth_memcpy [OF assms] length_memcpy [OF assms] unfolding stored_def
    by (auto, metis add_diff_cancel_left' mod_less le_add_diff_inverse nat_add_left_cancel_less order_less_le_trans)
qed

lemma stored_split:
  assumes "memcpy b w c 0 r = Some b1" "memcpy b1 0 c r (n - r) = Some b2" "w + r = length b" "n \<le> length b" "r \<le> n"
  shows "stored b w c n b2"
proof -
  have l: "length b1 = length b" "length b2 = length b" using length_memcpy [OF assms(1)] length_memcpy [OF assms(2)] by auto
  have at: "b2 ! p = (if p < n - r then c ! (r + p) else if w \<le> p then c ! (p - w) else b ! p)" if "p < length b" for p
    using nth_memcpy [OF assms(1)] nth_memcpy [OF assms(2)] that l assms(3) by auto
  have pos: "(w + j) mod length b = (if j < r then w + j else j - r)" if "j < n" for j
  proof -
    have "w + j < 2 * length b" using that assms(3-5) by linarith
    then show ?thesis using that assms(3-5) by (auto simp: mod_eq_sub_once)
  qed
  show ?thesis
    unfolding stored_def
  proof (intro conjI allI impI)
    fix j assume j: "j < n"
    then show "b2 ! ((w + j) mod length b) = c ! j"
      using at [of "w + j"] at [of "j - r"] assms(3-5) by (auto simp: pos)
  next
    fix p assume p: "p < length b" "\<forall>j < n. p \<noteq> (w + j) mod length b"
    have "\<not> p < n - r" using p(2)[rule_format, of "p + r"] pos [of "p + r"] by (auto simp: less_diff_conv)
    moreover have "\<not> w \<le> p"
    proof
      assume "w \<le> p"
      then have "p - w < r" using p(1) assms(3) by linarith
      then show False using p(2)[rule_format, of "p - w"] pos [of "p - w"] assms(5) \<open>w \<le> p\<close> by simp
    qed
    ultimately show "b2 ! p = b ! p" using at [OF p(1)] by simp
  qed (simp add: l)
qed

lemma stored_split_rev:
  assumes "memcpy b 0 c r (n - r) = Some b1" "memcpy b1 w c 0 r = Some b2" "w + r = length b" "n \<le> length b" "r \<le> n"
  shows "stored b w c n b2"
proof -
  have "n - r \<le> w" using assms(3,4) by simp
  then obtain b1' where b1': "memcpy b w c 0 r = Some b1'"
    using assms(2) length_memcpy [OF assms(1)] by (auto simp: memcpy_Some)
  obtain b2' where b2': "memcpy b1' 0 c r (n - r) = Some b2'"
    using assms(1) length_memcpy [OF b1'] by (auto simp: memcpy_Some)
  have "b2' = b2"
    using length_memcpy [OF assms(1)] length_memcpy [OF assms(2)] length_memcpy [OF b1'] length_memcpy [OF b2']
      nth_memcpy [OF assms(1)] nth_memcpy [OF assms(2)] nth_memcpy [OF b1'] nth_memcpy [OF b2'] \<open>n - r \<le> w\<close>
    by (intro nth_equalityI) auto
  then show ?thesis using stored_split [OF b1' b2' assms(3-5)] by simp
qed

lemma stored_mod: "stored b w c n b' \<Longrightarrow> w mod length b = v mod length b \<Longrightarrow> stored b v c n b'"
  unfolding stored_def by (metis mod_add_left_eq)


section \<open>Adding buffers\<close>

lemma cb_list_add_tail:
  assumes ok: "cb_ok cb" and st: "stored (buf cb) (unat (start cb) + unat (len cb)) c n b"
    and n: "unat (len cb) + n \<le> cb_size cb" "n \<le> length c"
    and cb': "maxlen cb' = maxlen cb" "start cb' = start cb" "buf cb' = b" "unat (len cb') = unat (len cb) + n"
  shows "cb_list cb' = cb_list cb @ take n c"
proof (rule cb_list_eqI)
  show "unat (len cb') = length (cb_list cb @ take n c)" using n cb' by simp
  fix i assume i: "i < length (cb_list cb @ take n c)"
  have L: "length (buf cb) = cb_size cb" and s: "cb_size cb' = cb_size cb"
    using ok cb' by (simp_all add: cb_ok_def cb_size_def)
  show "buf cb' ! ((unat (start cb') + i) mod cb_size cb') = (cb_list cb @ take n c) ! i"
  proof (cases "i < unat (len cb)")
    case True
    have "(unat (start cb) + i) mod cb_size cb \<noteq> (unat (start cb) + unat (len cb) + j) mod cb_size cb" if "j < n" for j
      by (rule mod_neq) (use True n that in auto)
    moreover have "(unat (start cb) + i) mod cb_size cb < cb_size cb" using ok by (simp add: cb_ok_def)
    ultimately have "b ! ((unat (start cb) + i) mod cb_size cb) = buf cb ! ((unat (start cb) + i) mod cb_size cb)"
      using st unfolding stored_def L by blast
    then show ?thesis using True by (simp add: cb' s nth_append cb_list_nth)
  next
    case False
    obtain j where j: "i = unat (len cb) + j" "j < n"
      by (rule that [of "i - unat (len cb)"]) (use False i n in auto)
    have "b ! ((unat (start cb) + unat (len cb) + j) mod cb_size cb) = c ! j"
      using st j(2) unfolding stored_def L by blast
    then show ?thesis using j by (simp add: cb' s nth_append add.assoc)
  qed
qed

lemma cb_list_add_head:
  assumes ok: "cb_ok cb" and st: "stored (buf cb) (unat (start cb')) c n b"
    and n: "unat (len cb) + n \<le> cb_size cb" "n \<le> length c"
    and cb': "maxlen cb' = maxlen cb" "buf cb' = b" "unat (len cb') = unat (len cb) + n"
    and sh: "unat (len cb) \<noteq> 0 \<Longrightarrow> (unat (start cb') + n) mod cb_size cb = unat (start cb)"
  shows "cb_list cb' = take n c @ cb_list cb"
proof (rule cb_list_eqI)
  show "unat (len cb') = length (take n c @ cb_list cb)" using n cb' by simp
  fix i assume i: "i < length (take n c @ cb_list cb)"
  have L: "length (buf cb) = cb_size cb" and s: "cb_size cb' = cb_size cb"
    using ok cb' by (simp_all add: cb_ok_def cb_size_def)
  show "buf cb' ! ((unat (start cb') + i) mod cb_size cb') = (take n c @ cb_list cb) ! i"
  proof (cases "i < n")
    case True
    have "b ! ((unat (start cb') + i) mod cb_size cb) = c ! i"
      using st True unfolding stored_def L by blast
    then show ?thesis using True n by (simp add: cb' s nth_append)
  next
    case False
    obtain j where j: "i = n + j" "j < unat (len cb)"
      by (rule that [of "i - n"]) (use False i n in auto)
    have "(unat (start cb') + i) mod cb_size cb = ((unat (start cb') + n) mod cb_size cb + j) mod cb_size cb"
      by (simp add: j(1) mod_add_left_eq add.assoc)
    then have at: "(unat (start cb') + i) mod cb_size cb = (unat (start cb) + j) mod cb_size cb"
      using sh j(2) by simp
    have "(unat (start cb') + i) mod cb_size cb \<noteq> (unat (start cb') + k) mod cb_size cb" if "k < n" for k
      by (rule mod_neq [symmetric]) (use False j n that in auto)
    moreover have "(unat (start cb') + i) mod cb_size cb < cb_size cb" using ok by (simp add: cb_ok_def)
    ultimately have "b ! ((unat (start cb') + i) mod cb_size cb) = buf cb ! ((unat (start cb') + i) mod cb_size cb)"
      using st unfolding stored_def L by blast
    then show ?thesis using j n at by (simp add: cb' s nth_append cb_list_nth)
  qed
qed

lemma cb_okI:
  assumes "cb_size cb = m" "0 < m" "m < 2 ^ 31" "length (buf cb) = m" "unat (start cb) < m" "unat (len cb) = l" "l \<le> m"
    "unat (end_at cb) = (if l = 0 then unat (start cb) else (unat (start cb) + l - 1) mod m)"
  shows "cb_ok cb"
  using assms by (auto simp: cb_ok_def unat_eq_0)

lemma cb_size_upd [simp]:
  "cb_size (cb\<lparr>buf := b\<rparr>) = cb_size cb" "cb_size (cb\<lparr>start := v\<rparr>) = cb_size cb"
  "cb_size (cb\<lparr>end_at := v\<rparr>) = cb_size cb" "cb_size (cb\<lparr>len := v\<rparr>) = cb_size cb"
  by (simp_all add: cb_size_def)

lemma memcpy_exists: "d + n \<le> length dst \<Longrightarrow> s + n \<le> length src \<Longrightarrow> \<exists>b. memcpy dst d src s n = Some b"
  by (simp add: memcpy_def)

lemma stored_length: "stored b w c n b' \<Longrightarrow> length b' = length b"
  by (simp add: stored_def)

lemma store_around:
  assumes "w \<le> length b" "n \<le> length b" "n \<le> length c"
  shows "\<exists>b'. (if n < length b - w then memcpy b w c 0 n
      else do { b1 \<leftarrow> memcpy b w c 0 (length b - w); memcpy b1 0 c (length b - w) (n - (length b - w)) }) = Some b' \<and>
    stored b w c n b'"
proof (cases "n < length b - w")
  case True
  then have "w + n \<le> length b" by linarith
  then obtain b' where b': "memcpy b w c 0 n = Some b'"
    using memcpy_exists [of w n b 0 c] assms(3) by auto
  then show ?thesis using True stored_straight [OF b'] by simp
next
  case False
  obtain b1 where b1: "memcpy b w c 0 (length b - w) = Some b1"
    using memcpy_exists [of w "length b - w" b 0 c] False assms by auto
  obtain b2 where b2: "memcpy b1 0 c (length b - w) (n - (length b - w)) = Some b2"
    using memcpy_exists [of 0 "n - (length b - w)" b1 "length b - w" c] False assms length_memcpy [OF b1]
    by fastforce
  have "stored b w c n b2"
    by (rule stored_split [OF b1 b2]) (use False assms in auto)
  then show ?thesis using False b1 b2 by simp
qed

lemma cirbuf_add_buf_tail_ok:
  assumes ok: "cb_ok cb" and n: "n \<noteq> 0" "n \<le> CIRBUF_GET_FREELEN cb" "unat n \<le> length c"
  shows "\<exists>cb'. cirbuf_add_buf_tail (Some cb) (Some c) n = Some (int (unat n), Some cb') \<and>
    cb_ok cb' \<and> maxlen cb' = maxlen cb \<and> cb_list cb' = cb_list cb @ take (unat n) c"
proof -
  define M S E L N where d: "M = cb_size cb" "S = unat (start cb)" "E = unat (end_at cb)" "L = unat (len cb)" "N = unat n"
  define e :: u32 where "e = (if CIRBUF_IS_EMPTY cb then 1 else 0)"
  define w where "w = E + (if e = 0 then 1 else 0)"
  have M: "0 < M" "M < 2 ^ 31" "length (buf cb) = M" "S < M" "L \<le> M" "unat (maxlen cb) = M"
    using ok by (simp_all add: cb_ok_def d cb_size_def)
  have E: "E = (if L = 0 then S else (S + L - 1) mod M)"
    using ok by (simp add: cb_ok_def d unat_eq_0)
  then have EM: "E < M" using M by simp
  have N: "0 < N" "N \<le> M - L"
  proof -
    show "0 < N" using n(1) by (simp add: d unat_gt_0)
    have "N \<le> unat (maxlen cb - len cb)" using n(2) by (simp add: CIRBUF_GET_FREELEN_def word_le_nat_alt d)
    then show "N \<le> M - L" using M by (simp add: unat_sub_exact d(4) cb_size_def d(1) [symmetric])
  qed
  have e0: "e = 0 \<longleftrightarrow> L \<noteq> 0" "unat e = (if L = 0 then 1 else 0)"
    by (auto simp: e_def CIRBUF_IS_EMPTY_def d unat_eq_0)
  have "unat (maxlen cb - end_at cb) = M - E" using M EM by (subst unat_sub_exact) (simp_all add: d(3) [symmetric])
  then have "unat (maxlen cb - end_at cb - 1) = M - E - 1" using EM by (subst unat_sub_exact) simp_all
  then have room: "unat (maxlen cb - end_at cb - 1 + e) = M - w"
    using e0 M EM by (subst unat_add_exact) (auto simp: w_def)
  have rest: "n - maxlen cb + end_at cb + 1 - e = n - (maxlen cb - end_at cb - 1 + e)"
    by (simp add: algebra_simps)
  have room': "unat (maxlen cb) - Suc E + unat e = M - w"
    using M EM e0 by (simp add: w_def)
  have wM: "w \<le> M" and NM: "N \<le> M" using EM N by (simp_all add: w_def)
  have NC: "N \<le> length c" using n(3) by (simp add: d)
  from store_around [of w "buf cb" N c, unfolded M(3), OF wM NM NC] obtain b where
    b: "(if N < M - w then memcpy (buf cb) w c 0 N
      else do { b \<leftarrow> memcpy (buf cb) w c 0 (M - w); memcpy b 0 c (M - w) (N - (M - w)) }) = Some b"
    "stored (buf cb) w c N b"
    by blast
  let ?cb' = "cb\<lparr>buf := b, len := len cb + n, end_at := (end_at cb + (n - e)) mod maxlen cb\<rparr>"
  have sub: "unat (n - (maxlen cb - end_at cb - 1 + e)) = N - (M - w)" if "\<not> N < M - w"
    using that room by (subst unat_sub_exact) (simp_all add: d(5) [symmetric])
  have lt: "n < maxlen cb - end_at cb - 1 + e \<longleftrightarrow> N < M - w"
    by (simp add: word_less_nat_alt room d(5))
  have "cirbuf_add_buf_tail (Some cb) (Some c) n = Some (sint n, Some ?cb')"
    using n(1,2) b(1) sub lt
    by (auto simp: cirbuf_add_buf_tail_def Let_def e_def [symmetric] room room' rest
        d(3,5) [symmetric] w_def [symmetric] linorder_not_le [symmetric] bind_eq_Some_conv split: if_splits)
  moreover have "sint n = int (unat n)" using N M by (intro sint_small) (simp add: d(5) [symmetric])
  moreover have len': "unat (len cb + n) = L + N" using M N by (subst unat_add_exact) (simp_all add: d)
  moreover have cong: "w mod M = (S + L) mod M"
  proof (cases "L = 0")
    case False
    then have "w mod M = ((S + L - 1) mod M + 1) mod M" using E e0 by (simp add: w_def)
    also have "\<dots> = (S + L - 1 + 1) mod M" by (rule mod_add_left_eq)
    finally show ?thesis using False by simp
  qed (use E e0 in \<open>simp add: w_def\<close>)
  have st: "stored (buf cb) (unat (start cb) + unat (len cb)) c N b"
    by (rule stored_mod [OF b(2)]) (simp only: M(3) cong d(2,4) [symmetric])
  have "L + N \<le> M" using N(2) M(5) by linarith
  then have "cb_list ?cb' = cb_list cb @ take N c"
    by (intro cb_list_add_tail [OF ok st]) (simp_all add: d(1,4) [symmetric] NC len')
  moreover have "unat (end_at cb + (n - e)) = E + (N - unat e)"
  proof -
    have "unat (n - e) = N - unat e" using e0 N by (subst unat_sub_exact) (simp_all add: d(5) [symmetric] split: if_splits)
    then show ?thesis using EM N M by (subst unat_add_exact) (simp_all add: d(3) [symmetric])
  qed
  then have end': "unat ((end_at cb + (n - e)) mod maxlen cb) = (S + (L + N) - 1) mod M"
    using E e0 N M by (auto simp: unat_mod_distrib mod_add_left_eq add.assoc)
  moreover have "cb_ok ?cb'"
    by (rule cb_okI [where m = M and l = "L + N"])
      (use M(1-5) N len' end' stored_length [OF b(2)] in \<open>simp_all add: d(1,2) [symmetric]\<close>)
  ultimately show ?thesis by (simp add: d)
qed

text \<open>The facts about the fields of a buffer the operations' proofs start from.\<close>

lemma cb_facts:
  assumes "cb_ok cb"
  shows "0 < cb_size cb" "cb_size cb < 2 ^ 31" "length (buf cb) = cb_size cb" "unat (start cb) < cb_size cb"
    "unat (len cb) \<le> cb_size cb" "unat (maxlen cb) = cb_size cb" "unat (end_at cb) < cb_size cb"
    "unat (end_at cb) = (if unat (len cb) = 0 then unat (start cb) else (unat (start cb) + unat (len cb) - 1) mod cb_size cb)"
  using assms by (auto simp: cb_ok_def cb_size_def unat_eq_0)

lemma empty_iff: "CIRBUF_IS_EMPTY cb \<longleftrightarrow> unat (len cb) = 0"
  by (simp add: CIRBUF_IS_EMPTY_def unat_eq_0)

lemma freelen_unat: "cb_ok cb \<Longrightarrow> unat (CIRBUF_GET_FREELEN cb) = cb_size cb - unat (len cb)"
  using cb_facts [of cb] by (simp add: CIRBUF_GET_FREELEN_def unat_sub_exact)

lemma full_iff: "cb_ok cb \<Longrightarrow> CIRBUF_IS_FULL cb \<longleftrightarrow> unat (len cb) = cb_size cb"
  unfolding CIRBUF_IS_FULL_def cb_size_def by (metis unsigned_word_eqI)

text \<open>Moving an index one step down, around the start of the buffer.\<close>

lemma step_down:
  assumes "x < m" "0 < m"
  shows "(x + (m - 1)) mod m = (if x = 0 then m - 1 else x - 1 :: nat)"
proof (cases "x = 0")
  case False
  then have "x + (m - 1) = m + (x - 1)" using assms by simp
  then have "(x + (m - 1)) mod m = (x - 1) mod m" by (simp only: mod_add_self1)
  then show ?thesis using False assms by simp
qed (use assms in simp)

lemma store_around_rev:
  assumes "n \<le> length b" "n \<le> length c" "k \<le> length b"
  shows "\<exists>b'. (if n < k then memcpy b (k - n) c 0 n
      else do { b1 \<leftarrow> memcpy b 0 c (n - k) k; memcpy b1 (length b - n + k) c 0 (n - k) }) = Some b' \<and>
    stored b (length b + k - n) c n b'"
proof (cases "n < k")
  case True
  then obtain b' where b': "memcpy b (k - n) c 0 n = Some b'"
    using memcpy_exists [of "k - n" n b 0 c] assms by auto
  have "length b + k - n = length b + (k - n)" using True by simp
  then have "(k - n) mod length b = (length b + k - n) mod length b" by simp
  then show ?thesis using True b' stored_mod [OF stored_straight [OF b']] by simp
next
  case False
  obtain b1 where b1: "memcpy b 0 c (n - k) k = Some b1"
    using memcpy_exists [of 0 k b "n - k" c] False assms by auto
  obtain b2 where b2: "memcpy b1 (length b - n + k) c 0 (n - k) = Some b2"
  proof -
    have "length b - n + k + (n - k) \<le> length b1" using False assms length_memcpy [OF b1] by simp
    moreover have "0 + (n - k) \<le> length c" using assms by simp
    ultimately show ?thesis using memcpy_exists that by blast
  qed
  have "stored b (length b - n + k) c n b2"
    by (rule stored_split_rev [of b c "n - k" n b1]) (use False assms b1 b2 in auto)
  moreover have "length b - n + k = length b + k - n" using assms(1) by simp
  ultimately have "stored b (length b + k - n) c n b2" by (simp only:)
  then show ?thesis using False b1 b2 by simp
qed

lemma cirbuf_add_buf_head_ok:
  assumes ok: "cb_ok cb" and n: "n \<noteq> 0" "n \<le> CIRBUF_GET_FREELEN cb" "unat n \<le> length c"
  shows "\<exists>cb'. cirbuf_add_buf_head (Some cb) (Some c) n = Some (int (unat n), Some cb') \<and>
    cb_ok cb' \<and> maxlen cb' = maxlen cb \<and> cb_list cb' = take (unat n) c @ cb_list cb"
proof -
  define M S E L N where d: "M = cb_size cb" "S = unat (start cb)" "E = unat (end_at cb)" "L = unat (len cb)" "N = unat n"
  note F = cb_facts [OF ok, folded d]
  define e :: u32 where "e = (if CIRBUF_IS_EMPTY cb then 1 else 0)"
  have e0: "unat e = (if L = 0 then 1 else 0)" by (simp add: e_def empty_iff d)
  have N: "0 < N" "N \<le> M - L" "N \<le> length c"
    using n freelen_unat [OF ok] by (auto simp: d unat_gt_0 word_le_nat_alt)
  define k where "k = S + unat e"
  have k: "unat (start cb + e) = k" "k \<le> M"
    using F e0 by (simp_all add: k_def unat_add_exact d)
  have NM: "N \<le> M" using N by simp
  from store_around_rev [of N "buf cb" c k, unfolded F(3), OF NM N(3) k(2)] obtain b where
    b: "(if N < k then memcpy (buf cb) (k - N) c 0 N
      else do { b1 \<leftarrow> memcpy (buf cb) 0 c (N - k) k; memcpy b1 (M - N + k) c 0 (N - k) }) = Some b"
    "stored (buf cb) (M + k - N) c N b"
    by blast
  let ?cb' = "cb\<lparr>buf := b, len := len cb + n, start := (start cb + (maxlen cb - n + e)) mod maxlen cb\<rparr>"
  have lt: "n < start cb + e \<longleftrightarrow> N < k" by (simp add: word_less_nat_alt k d(5))
  have sub: "unat (n - (start cb + e)) = N - k" if "\<not> N < k"
    using that k by (subst unat_sub_exact) (simp_all add: d(5) [symmetric])
  have "cirbuf_add_buf_head (Some cb) (Some c) n = Some (sint n, Some ?cb')"
    using n(1,2) b(1) sub lt F(6)
    by (auto simp: cirbuf_add_buf_head_def Let_def e_def [symmetric] k d(2,5) [symmetric] k_def [symmetric]
        linorder_not_le [symmetric] bind_eq_Some_conv split: if_splits)
  moreover have "sint n = int (unat n)" using N F(2,5) by (intro sint_small) (simp add: d(5) [symmetric])
  moreover have len': "unat (len cb + n) = L + N" using F N by (subst unat_add_exact) (simp_all add: d)
  moreover have sum: "unat (start cb + (maxlen cb - n + e)) = M + k - N"
  proof -
    have "unat (maxlen cb - n) = M - N" using F(6) NM by (subst unat_sub_exact) (simp_all add: d(5) [symmetric])
    then have "unat (maxlen cb - n + e) = M - N + unat e" using F(2) e0 by (subst unat_add_exact) auto
    then show ?thesis using F(2,4) e0 N NM by (subst unat_add_exact) (auto simp: d(2) [symmetric] k_def)
  qed
  then have start': "unat ((start cb + (maxlen cb - n + e)) mod maxlen cb) = (M + k - N) mod M"
    by (simp add: unat_mod_distrib F(6))
  have "L + N \<le> M" using N(2) F(5) by linarith
  have "cb_list ?cb' = take N c @ cb_list cb"
  proof (rule cb_list_add_head [OF ok, of _ _ _ b])
    show "stored (buf cb) (unat (start ?cb')) c N b"
      by (rule stored_mod [OF b(2)]) (simp add: F(3) start')
    show "(unat (start ?cb') + N) mod cb_size cb = unat (start cb)" if "unat (len cb) \<noteq> 0"
      using that F(4) N NM e0 by (simp add: start' d(1,2,4) [symmetric] mod_add_left_eq k_def)
  qed (use \<open>L + N \<le> M\<close> N(3) len' in \<open>simp_all add: d(1,4) [symmetric]\<close>)
  moreover have "E = ((M + k - N) mod M + (L + N) - 1) mod M"
  proof -
    have "((M + k - N) mod M + (L + N) - 1) mod M = ((M + k - N) mod M + (L + N - 1)) mod M"
      using N(1) by (simp add: Nat.add_diff_assoc)
    also have "\<dots> = (M + k - N + (L + N - 1)) mod M" by (rule mod_add_left_eq)
    also have "M + k - N + (L + N - 1) = M + (k + L - 1)"
    proof -
      have "1 \<le> k + L" using e0 by (simp add: k_def)
      then show ?thesis using N(1) NM by linarith
    qed
    also have "\<dots> mod M = (k + L - 1) mod M" by (rule mod_add_self1)
    also have "\<dots> = E" using F(4,8) e0 by (auto simp: k_def d(3))
    finally show ?thesis by simp
  qed
  then have "cb_ok ?cb'"
    by (intro cb_okI [where m = M and l = "L + N"])
      (use F(1-5) N len' start' stored_length [OF b(2)] \<open>L + N \<le> M\<close> in \<open>simp_all add: d(1,2,3) [symmetric]\<close>)
  ultimately show ?thesis by (simp add: d)
qed

section \<open>Single elements\<close>

lemma mod_add_pred: "0 < l \<Longrightarrow> (a mod m + l - 1) mod m = (a + l - 1 :: nat) mod m"
  by (cases l) (simp_all add: mod_add_left_eq)

lemma stored_one: "b \<noteq> [] \<Longrightarrow> stored b w [x] 1 (b[w mod length b := x])"
  by (auto simp: stored_def)

lemma cirbuf_add_tail_ok:
  assumes ok: "cb_ok cb" and room: "unat (len cb) < cb_size cb"
  shows "\<exists>cb'. cirbuf_add_tail cb x = Some cb' \<and> cb_ok cb' \<and> maxlen cb' = maxlen cb \<and>
    cb_list cb' = cb_list cb @ [x]"
proof -
  define M S L where d: "M = cb_size cb" "S = unat (start cb)" "L = unat (len cb)"
  note F = cb_facts [OF ok, folded d]
  define e where "e = (if \<not> CIRBUF_IS_EMPTY cb then (end_at cb + 1) mod maxlen cb else end_at cb)"
  have e: "unat e = (S + L) mod M"
  proof (cases "L = 0")
    case True
    then show ?thesis using F by (simp add: e_def empty_iff d(3) [symmetric])
  next
    case False
    have "unat (end_at cb + 1) = unat (end_at cb) + 1"
      using F(2,7) by (subst unat_add_exact) simp_all
    then have "unat e = ((S + L - 1) mod M + 1) mod M"
      using False F(6,8) by (simp add: e_def empty_iff d(3) [symmetric] unat_mod_distrib)
    also have "\<dots> = (S + L - 1 + 1) mod M" by (rule mod_add_left_eq)
    finally show ?thesis using False by simp
  qed
  have eM: "unat e < M" using e F(1) by simp
  let ?cb' = "cb\<lparr>end_at := e, buf := (buf cb)[unat e := x], len := len cb + 1\<rparr>"
  have "cirbuf_add_tail cb x = Some ?cb'"
    using eM F(3) by (simp add: cirbuf_add_tail_def e_def [symmetric] Let_def write_at_def)
  moreover have len': "unat (len cb + 1) = L + 1"
    using F(2) room by (subst unat_add_exact) (simp_all add: d)
  have "stored (buf cb) (S + L) [x] 1 ((buf cb)[unat e := x])"
    using stored_one [of "buf cb" "S + L" x] F(1,3) by (simp add: e) (metis list.size(3) less_numeral_extra(3))
  then have "cb_list ?cb' = cb_list cb @ take 1 [x]"
    by (intro cb_list_add_tail [OF ok]) (use room len' in \<open>simp_all add: d\<close>)
  moreover have "cb_ok ?cb'"
    by (rule cb_okI [where m = M and l = "L + 1"])
      (use F(1-5) room len' e in \<open>simp_all add: d(1,2) [symmetric] d(3)\<close>)
  ultimately show ?thesis by simp
qed

lemma cirbuf_add_head_ok:
  assumes ok: "cb_ok cb" and room: "unat (len cb) < cb_size cb"
  shows "\<exists>cb'. cirbuf_add_head cb x = Some cb' \<and> cb_ok cb' \<and> maxlen cb' = maxlen cb \<and>
    cb_list cb' = x # cb_list cb"
proof -
  define M S L where d: "M = cb_size cb" "S = unat (start cb)" "L = unat (len cb)"
  note F = cb_facts [OF ok, folded d]
  define st where "st = (if \<not> CIRBUF_IS_EMPTY cb then (start cb + (maxlen cb - 1)) mod maxlen cb else start cb)"
  have st: "unat st = (if L = 0 then S else (S + (M - 1)) mod M)"
  proof -
    have "unat (maxlen cb - 1) = M - 1" using F(1,6) by (subst unat_sub_exact) simp_all
    then have "unat (start cb + (maxlen cb - 1)) = S + (M - 1)"
      using F(2,4) by (subst unat_add_exact) (simp_all add: d(2) [symmetric])
    then show ?thesis by (simp add: st_def empty_iff d(2,3) [symmetric] unat_mod_distrib F(6))
  qed
  have stM: "unat st < M" using st F(1,4) by simp
  let ?cb' = "cb\<lparr>start := st, buf := (buf cb)[unat st := x], len := len cb + 1\<rparr>"
  have "cirbuf_add_head cb x = Some ?cb'"
    using stM F(3) by (simp add: cirbuf_add_head_def st_def [symmetric] Let_def write_at_def)
  moreover have len': "unat (len cb + 1) = L + 1"
    using F(2) room by (subst unat_add_exact) (simp_all add: d)
  have "buf cb \<noteq> []" using F(1,3) by auto
  then have "stored (buf cb) (unat st) [x] 1 ((buf cb)[unat st := x])"
    using stored_one [of "buf cb" "unat st" x] stM F(3) by simp
  moreover have up: "(unat st + 1) mod M = S" if "L \<noteq> 0"
  proof -
    have "(unat st + 1) mod M = (S + (M - 1) + 1) mod M" using that st by (simp only: if_False mod_add_left_eq)
    also have "S + (M - 1) + 1 = S + M" using F(1) by simp
    finally show ?thesis using F(4) by simp
  qed
  ultimately have "cb_list ?cb' = take 1 [x] @ cb_list cb"
    by (intro cb_list_add_head [OF ok, where n = 1]) (use room len' in \<open>simp_all add: d\<close>)
  moreover have "unat (end_at cb) = (unat st + (L + 1) - 1) mod M"
  proof (cases "L = 0")
    case False
    have "(unat st + (L + 1) - 1) mod M = (unat st + 1 + L - 1) mod M" by simp
    also have "\<dots> = ((unat st + 1) mod M + L - 1) mod M" using False by (simp only: mod_add_pred not_gr_zero)
    finally show ?thesis using False up F(8) by simp
  qed (use st F(4,8) in simp)
  then have "cb_ok ?cb'"
    by (intro cb_okI [where m = M and l = "L + 1"])
      (use F(1-5) room len' stM in \<open>simp_all add: d(1,2) [symmetric] d(3)\<close>)
  ultimately show ?thesis using \<open>cirbuf_add_head cb x = Some ?cb'\<close> by simp
qed

section \<open>Deleting\<close>

lemma cb_list_drop:
  assumes "maxlen cb' = maxlen cb" "buf cb' = buf cb" "unat (len cb') = unat (len cb) - n" "n \<le> unat (len cb)"
    and "n < unat (len cb) \<Longrightarrow> unat (start cb') = (unat (start cb) + n) mod cb_size cb"
  shows "cb_list cb' = drop n (cb_list cb)"
proof (rule cb_list_eqI)
  show "unat (len cb') = length (drop n (cb_list cb))" using assms by simp
  have sz: "cb_size cb' = cb_size cb" using assms(1) by (simp add: cb_size_def)
  fix i assume i: "i < length (drop n (cb_list cb))"
  then have "(unat (start cb') + i) mod cb_size cb = (unat (start cb) + (n + i)) mod cb_size cb"
    using assms(5) by (simp add: mod_add_left_eq add.assoc)
  then show "buf cb' ! ((unat (start cb') + i) mod cb_size cb') = drop n (cb_list cb) ! i"
    using i assms(2) by (simp add: sz cb_list_nth)
qed

lemma cb_list_take:
  assumes "maxlen cb' = maxlen cb" "buf cb' = buf cb" "start cb' = start cb" "unat (len cb') = unat (len cb) - n"
  shows "cb_list cb' = take (unat (len cb) - n) (cb_list cb)"
  by (rule cb_list_eqI) (use assms in \<open>auto simp: cb_list_nth cb_size_def\<close>)

lemma cirbuf_del_buf_head_ok:
  assumes ok: "cb_ok cb" and n: "n \<noteq> 0" "n \<le> len cb"
  shows "\<exists>cb'. cirbuf_del_buf_head (Some cb) n = (0, Some cb') \<and> cb_ok cb' \<and> maxlen cb' = maxlen cb \<and>
    cb_list cb' = drop (unat n) (cb_list cb)"
proof -
  define M S L N where d: "M = cb_size cb" "S = unat (start cb)" "L = unat (len cb)" "N = unat n"
  note F = cb_facts [OF ok, folded d]
  have N: "0 < N" "N \<le> L" using n by (simp_all add: d unat_gt_0 word_le_nat_alt)
  have len': "unat (len cb - n) = L - N" using N by (subst unat_sub_exact) (simp_all add: d)
  define st where "st = (if L = N then start cb + (n - 1) else start cb + n) mod maxlen cb"
  have sums: "unat (start cb + n) = S + N" "unat (start cb + (n - 1)) = S + N - 1"
  proof -
    show "unat (start cb + n) = S + N" using F(2,4,5) N by (subst unat_add_exact) (simp_all add: d)
    have "unat (n - 1) = N - 1" using N by (subst unat_sub_exact) (simp_all add: d)
    then show "unat (start cb + (n - 1)) = S + N - 1" using F(2,4,5) N by (subst unat_add_exact) (simp_all add: d)
  qed
  have st: "unat st = (if L = N then (S + N - 1) mod M else (S + N) mod M)"
    by (simp add: st_def sums unat_mod_distrib F(6))
  let ?cb' = "cb\<lparr>len := len cb - n, start := st\<rparr>"
  have "len cb - n = 0 \<longleftrightarrow> L = N" using n by (auto simp: d unat_inj)
  then have run: "cirbuf_del_buf_head (Some cb) n = (0, Some ?cb')"
    using n by (simp add: cirbuf_del_buf_head_def CIRBUF_GET_LEN_def CIRBUF_IS_EMPTY_def Let_def st_def)
  have "cb_list ?cb' = drop N (cb_list cb)"
    by (rule cb_list_drop) (use N len' st in \<open>simp_all add: d(1-3) [symmetric]\<close>)
  moreover have "unat (end_at cb) = (if L - N = 0 then unat st else (unat st + (L - N) - 1) mod M)"
  proof (cases "L = N")
    case False
    then have "(unat st + (L - N) - 1) mod M = (S + N + (L - N) - 1) mod M"
      using st N mod_add_pred [of "L - N" "S + N" M] by simp
    then show ?thesis using False N F(8) by simp
  qed (use st F(8) N in simp)
  then have "cb_ok ?cb'"
    by (intro cb_okI [where m = M and l = "L - N"])
      (use F(1-5) N len' st in \<open>simp_all add: d(1,2) [symmetric]\<close>)
  ultimately show ?thesis using run by (simp add: d)
qed

text \<open>Going back \<open>k\<close> places from the end of a run of \<open>l\<close> elements.\<close>

lemma end_back:
  assumes "e = (s + l - 1) mod m" "k \<le> m" "k < l" "0 < (m::nat)"
  shows "(e + (m - k)) mod m = (s + (l - k) - 1) mod m"
proof -
  have "(e + (m - k)) mod m = (s + l - 1 + (m - k)) mod m" unfolding assms(1) by (rule mod_add_left_eq)
  also have "s + l - 1 + (m - k) = s + (l - k) - 1 + m" using assms by simp
  finally show ?thesis by simp
qed

lemma cirbuf_del_buf_tail_ok:
  assumes ok: "cb_ok cb" and n: "n \<noteq> 0" "n \<le> len cb"
  shows "\<exists>cb'. cirbuf_del_buf_tail (Some cb) n = (0, Some cb') \<and> cb_ok cb' \<and> maxlen cb' = maxlen cb \<and>
    cb_list cb' = take (unat (len cb) - unat n) (cb_list cb)"
proof -
  define M S L N where d: "M = cb_size cb" "S = unat (start cb)" "L = unat (len cb)" "N = unat n"
  note F = cb_facts [OF ok, folded d]
  have N: "0 < N" "N \<le> L" using n by (simp_all add: d unat_gt_0 word_le_nat_alt)
  have len': "unat (len cb - n) = L - N" using N by (subst unat_sub_exact) (simp_all add: d)
  define e where "e = (if L = N then end_at cb + (maxlen cb - n + 1) else end_at cb + (maxlen cb - n)) mod maxlen cb"
  have mn: "unat (maxlen cb - n) = M - N" using F(5,6) N by (subst unat_sub_exact) (simp_all add: d(4) [symmetric])
  have e: "unat e = (unat (end_at cb) + (M - (if L = N then N - 1 else N))) mod M"
  proof -
    have "unat (maxlen cb - n + 1) = M - N + 1" using mn F(2) by (subst unat_add_exact) simp_all
    then have "unat (end_at cb + (maxlen cb - n + 1)) = unat (end_at cb) + (M - N + 1)"
      using F(2,7) by (subst unat_add_exact) simp_all
    moreover have "unat (end_at cb + (maxlen cb - n)) = unat (end_at cb) + (M - N)"
      using F(2,7) mn by (subst unat_add_exact) simp_all
    moreover have "M - N + 1 = M - (N - 1)" using N F(5) by simp
    ultimately show ?thesis by (simp only: e_def unat_mod_distrib F(6) if_distrib [of unat] split: if_splits) simp
  qed
  have "len cb - n = 0 \<longleftrightarrow> L = N" by (auto simp: d unat_inj)
  then have run: "cirbuf_del_buf_tail (Some cb) n = (0, Some (cb\<lparr>len := len cb - n, end_at := e\<rparr>))"
    using n by (simp add: cirbuf_del_buf_tail_def CIRBUF_GET_LEN_def CIRBUF_IS_EMPTY_def Let_def e_def)
  let ?cb' = "cb\<lparr>len := len cb - n, end_at := e\<rparr>"
  have "cb_list ?cb' = take (L - N) (cb_list cb)"
    using cb_list_take [of ?cb' cb N] len' by (simp add: d)
  moreover have "unat e = (if L - N = 0 then S else (S + (L - N) - 1) mod M)"
    using e end_back [of "unat (end_at cb)" S L M "if L = N then N - 1 else N"] F N by (auto split: if_splits)
  then have "cb_ok ?cb'"
    by (intro cb_okI [where m = M and l = "L - N"])
      (use F(1-5) N len' in \<open>simp_all add: d(1,2) [symmetric]\<close>)
  ultimately show ?thesis using run by (simp add: d)
qed

lemma cirbuf_del_head_ok:
  assumes ok: "cb_ok cb" and n: "unat (len cb) \<noteq> 0"
  shows "cb_ok (cirbuf_del_head cb)" "maxlen (cirbuf_del_head cb) = maxlen cb"
    "cb_list (cirbuf_del_head cb) = tl (cb_list cb)"
proof -
  have one: "(1 :: u32) \<le> len cb" using n by (simp add: word_le_nat_alt Suc_le_eq)
  obtain cb' where cb': "cirbuf_del_buf_head (Some cb) 1 = (0, Some cb')" "cb_ok cb'" "maxlen cb' = maxlen cb"
    "cb_list cb' = tl (cb_list cb)"
    using cirbuf_del_buf_head_ok [OF ok _ one] by (auto simp: drop_Suc)
  have "start cb mod maxlen cb = start cb"
    using cb_facts(4,6) [OF ok] unat_mod_distrib [of "start cb" "maxlen cb"] by (metis mod_less unat_inj)
  then have "cb' = cirbuf_del_head cb"
    using cb'(1) one by (auto simp: cirbuf_del_buf_head_def cirbuf_del_head_def Let_def CIRBUF_GET_LEN_def split: if_splits)
  then show "cb_ok (cirbuf_del_head cb)" "maxlen (cirbuf_del_head cb) = maxlen cb"
    "cb_list (cirbuf_del_head cb) = tl (cb_list cb)" using cb' by simp_all
qed

lemma cirbuf_del_tail_ok:
  assumes ok: "cb_ok cb" and n: "unat (len cb) \<noteq> 0"
  shows "cb_ok (cirbuf_del_tail cb)" "maxlen (cirbuf_del_tail cb) = maxlen cb"
    "cb_list (cirbuf_del_tail cb) = butlast (cb_list cb)"
proof -
  have one: "(1 :: u32) \<le> len cb" using n by (simp add: word_le_nat_alt Suc_le_eq)
  obtain cb' where cb': "cirbuf_del_buf_tail (Some cb) 1 = (0, Some cb')" "cb_ok cb'" "maxlen cb' = maxlen cb"
    "cb_list cb' = butlast (cb_list cb)"
    using cirbuf_del_buf_tail_ok [OF ok _ one] by (auto simp: butlast_conv_take)
  have "(end_at cb + maxlen cb) mod maxlen cb = end_at cb"
  proof -
    have "unat (end_at cb + maxlen cb) = unat (end_at cb) + cb_size cb"
      using cb_facts(2,6,7) [OF ok] by (subst unat_add_exact) simp_all
    then show ?thesis
      using cb_facts(6,7) [OF ok] unat_mod_distrib [of "end_at cb + maxlen cb" "maxlen cb"]
      by (metis mod_add_self2 mod_less unat_inj)
  qed
  then have "cb' = cirbuf_del_tail cb"
    using cb'(1) one by (auto simp: cirbuf_del_buf_tail_def cirbuf_del_tail_def Let_def CIRBUF_GET_LEN_def split: if_splits)
  then show "cb_ok (cirbuf_del_tail cb)" "maxlen (cirbuf_del_tail cb) = maxlen cb"
    "cb_list (cirbuf_del_tail cb) = butlast (cb_list cb)" using cb' by simp_all
qed

section \<open>Reading\<close>

lemma cirbuf_ends_ok:
  assumes "cb_ok cb" "unat (len cb) \<noteq> 0"
  shows "cirbuf_get_head cb = Some (hd (cb_list cb))" "cirbuf_get_tail cb = Some (last (cb_list cb))"
proof -
  have ne: "cb_list cb \<noteq> []" using assms(2) by (metis length_0_conv length_cb_list)
  show "cirbuf_get_head cb = Some (hd (cb_list cb))"
    using cb_facts [OF assms(1)] assms(2) by (simp add: cirbuf_get_head_def read_at_def hd_conv_nth [OF ne] cb_list_nth)
  show "cirbuf_get_tail cb = Some (last (cb_list cb))"
    using cb_facts [OF assms(1)] assms(2)
    by (simp add: cirbuf_get_tail_def read_at_def last_conv_nth [OF ne] cb_list_nth)
qed

text \<open>Reading \<open>n\<close> elements from position \<open>w\<close> on, around the end of the buffer.\<close>

definition around :: "'a list \<Rightarrow> nat \<Rightarrow> nat \<Rightarrow> 'a list" where
  "around b w n = map (\<lambda>j. b ! ((w + j) mod length b)) [0..<n]"

lemma around_list: "cb_ok cb \<Longrightarrow> k + n \<le> unat (len cb) \<Longrightarrow>
    around (buf cb) (unat (start cb) + k) n = take n (drop k (cb_list cb))"
  using cb_facts(3) [of cb]
  by (intro nth_equalityI) (auto simp: around_def cb_list_nth add.assoc)

lemma around_straight: "w + n \<le> length b \<Longrightarrow> around b w n = take n (drop w b)"
  by (rule nth_equalityI) (simp_all add: around_def)

lemma around_split: "w \<le> length b \<Longrightarrow> w < length b \<Longrightarrow> length b \<le> w + n \<Longrightarrow> n \<le> length b \<Longrightarrow>
    around b w n = drop w b @ take (n - (length b - w)) b"
  by (rule nth_equalityI) (auto simp: around_def nth_append mod_eq_sub_once add.commute)

lemma wrap_iff:
  assumes "cb_ok cb" "unat (len cb) \<noteq> 0"
  shows "start cb \<le> end_at cb \<longleftrightarrow> unat (start cb) + unat (len cb) \<le> cb_size cb"
    and "\<not> start cb \<le> end_at cb \<Longrightarrow> unat (end_at cb) + 1 = unat (start cb) + unat (len cb) - cb_size cb"
  using cb_facts [OF assms(1)] assms(2) mod_eq_sub_once [of "unat (start cb) + unat (len cb) - 1" "cb_size cb"]
  by (auto simp: word_le_nat_alt split: if_splits)

lemma around_shift: "around b (w + length b) n = around b w n"
  by (simp add: around_def add.assoc add.commute [of "length b"]) (simp flip: add.assoc)

text \<open>The number of elements both readers copy.\<close>

definition copied :: "'a cirbuf \<Rightarrow> u32 \<Rightarrow> nat" where
  "copied cb sz = min (unat sz) (unat (len cb))"

lemma copied_word: "unat (if sz < CIRBUF_GET_LEN cb then sz else CIRBUF_GET_LEN cb) = copied cb sz"
  by (auto simp: copied_def CIRBUF_GET_LEN_def word_less_nat_alt)

lemma sint_copied:
  assumes "cb_ok cb"
  shows "sint (if sz < CIRBUF_GET_LEN cb then sz else CIRBUF_GET_LEN cb) = int (copied cb sz)"
proof -
  have "copied cb sz < 2 ^ 31" using cb_facts(2,5) [OF assms] by (simp add: copied_def)
  then show ?thesis using sint_small copied_word [of sz cb] by metis
qed

lemma cirbuf_get_buf_head_ok:
  assumes ok: "cb_ok cb" and out: "unat sz \<le> length out"
  shows "cirbuf_get_buf_head (Some cb) (Some out) sz =
    Some (int (copied cb sz), Some (take (copied cb sz) (cb_list cb) @ drop (copied cb sz) out))"
proof (cases "copied cb sz = 0")
  case True
  then have "(if sz < CIRBUF_GET_LEN cb then sz else CIRBUF_GET_LEN cb) = 0"
    using copied_word [of sz cb] by (simp only: unat_eq_0)
  then show ?thesis using True by (simp add: cirbuf_get_buf_head_def Let_def)
next
  case False
  define n where "n = (if sz < CIRBUF_GET_LEN cb then sz else CIRBUF_GET_LEN cb)"
  define k where "k = copied cb sz"
  have n: "unat n = k" "sint n = int k" "n \<noteq> 0"
    using copied_word [of sz cb] sint_copied [OF ok, of sz] False by (auto simp: n_def k_def)
  have kL: "k \<le> unat (len cb)" "k \<le> length out" "0 < k" using out False by (simp_all add: k_def copied_def)
  note F = cb_facts [OF ok]
  have L: "unat (len cb) \<noteq> 0" using kL by simp
  have val: "take k (cb_list cb) = around (buf cb) (unat (start cb)) k"
    using around_list [OF ok, of 0 k] kL by simp
  have room: "unat (maxlen cb - start cb) = cb_size cb - unat (start cb)" using F by (subst unat_sub_exact) simp_all
  show ?thesis
  proof (cases "start cb \<le> end_at cb \<or> n \<le> maxlen cb - start cb")
    case True
    then have "unat (start cb) + k \<le> cb_size cb"
      using wrap_iff(1) [OF ok L] kL F(4) room n(1) by (auto simp: word_le_nat_alt)
    then have "memcpy out 0 (buf cb) (unat (start cb)) k = Some (take k (cb_list cb) @ drop k out)"
      using kL F(3) around_straight [of "unat (start cb)" k "buf cb"] by (simp add: memcpy_def val)
    then show ?thesis using True n
      by (auto simp: cirbuf_get_buf_head_def Let_def n_def [symmetric] k_def [symmetric])
  next
    case False
    then have big: "cb_size cb - unat (start cb) < k" using room n(1) by (simp add: word_le_nat_alt not_le)
    let ?r = "cb_size cb - unat (start cb)"
    have rest: "n - maxlen cb + start cb = n - (maxlen cb - start cb)" by (simp add: algebra_simps)
    have sub: "unat (n - (maxlen cb - start cb)) = k - ?r" using big room n(1) by (subst unat_sub_exact) simp_all
    obtain o1 where o1: "memcpy out 0 (buf cb) (unat (start cb)) ?r = Some o1"
      using memcpy_exists [of 0 ?r out "unat (start cb)" "buf cb"] big kL F(3,4) by auto
    have "?r + (k - ?r) \<le> length o1" "0 + (k - ?r) \<le> length (buf cb)"
      using big kL F(3,5) length_memcpy [OF o1] by linarith+
    then obtain o2 where o2: "memcpy o1 ?r (buf cb) 0 (k - ?r) = Some o2"
      using memcpy_exists by blast
    have "o2 = take k (cb_list cb) @ drop k out"
      using o1 o2 big F(3,4,5) kL around_split [of "unat (start cb)" "buf cb" k]
      by (auto simp: memcpy_Some val)
    then show ?thesis using False n o1 o2 F(6)
      by (auto simp: cirbuf_get_buf_head_def Let_def n_def [symmetric] k_def [symmetric] rest room sub)
  qed
qed

text \<open>
  The reader from the tail is right when its elements do not wrap, or when it
  reads them all.  When they wrap and only some are read, it stores the second
  part too far to the right, past the elements asked for.
\<close>

definition tail_reads_well :: "'a cirbuf \<Rightarrow> nat \<Rightarrow> bool" where
  "tail_reads_well cb k \<longleftrightarrow>
    unat (start cb) + unat (len cb) \<le> cb_size cb \<or> k \<le> unat (end_at cb) + 1 \<or> k = unat (len cb)"

lemma cirbuf_get_buf_tail_cases:
  assumes ok: "cb_ok cb" and out: "length out = unat sz"
  shows "cirbuf_get_buf_tail (Some cb) (Some out) sz =
    (if tail_reads_well cb (copied cb sz) then
       Some (int (copied cb sz), Some (drop (unat (len cb) - copied cb sz) (cb_list cb) @ drop (copied cb sz) out))
     else None)"
proof (cases "copied cb sz = 0")
  case True
  then have "(if sz < CIRBUF_GET_LEN cb then sz else CIRBUF_GET_LEN cb) = 0"
    using copied_word [of sz cb] by (simp only: unat_eq_0)
  then show ?thesis using True by (simp add: cirbuf_get_buf_tail_def Let_def tail_reads_well_def)
next
  case False
  define n where "n = (if sz < CIRBUF_GET_LEN cb then sz else CIRBUF_GET_LEN cb)"
  define k where "k = copied cb sz"
  have n: "unat n = k" "sint n = int k" "n \<noteq> 0"
    using copied_word [of sz cb] sint_copied [OF ok, of sz] False by (auto simp: n_def k_def)
  have kL: "k \<le> unat (len cb)" "k \<le> length out" "0 < k" using out False by (simp_all add: k_def copied_def)
  note F = cb_facts [OF ok]
  have L: "unat (len cb) \<noteq> 0" using kL by simp
  define w where "w = unat (start cb) + (unat (len cb) - k)"
  have val: "drop (unat (len cb) - k) (cb_list cb) = around (buf cb) w k"
    using around_list [OF ok, of "unat (len cb) - k" k] kL by (simp add: w_def)
  have e1: "unat (end_at cb + 1) = unat (end_at cb) + 1" using F(2,7) by (subst unat_add_exact) simp_all
  show ?thesis
  proof (cases "start cb \<le> end_at cb \<or> n \<le> end_at cb + 1")
    case True
    then have good: "tail_reads_well cb k"
      using wrap_iff(1) [OF ok L] e1 n(1) by (auto simp: tail_reads_well_def word_le_nat_alt)
    have at: "around (buf cb) w k = take k (drop (unat (end_at cb) + 1 - k) (buf cb)) \<and> k \<le> unat (end_at cb) + 1"
    proof (cases "start cb \<le> end_at cb")
      case True
      then have "unat (start cb) + unat (len cb) \<le> cb_size cb" using wrap_iff(1) [OF ok L] by simp
      then have "unat (end_at cb) + 1 = unat (start cb) + unat (len cb)" using F(8) L by simp
      then have "w = unat (end_at cb) + 1 - k" "w + k \<le> length (buf cb)" "k \<le> unat (end_at cb) + 1"
        using kL F(3,7) by (simp_all add: w_def)
      then show ?thesis using around_straight [of w k "buf cb"] by simp
    next
      case False
      have k: "k \<le> unat (end_at cb) + 1" using True False e1 n(1) by (simp add: word_le_nat_alt)
      have "unat (end_at cb) + 1 + cb_size cb = unat (start cb) + unat (len cb)"
        using wrap_iff [OF ok L] False by simp
      then have "w = unat (end_at cb) + 1 - k + length (buf cb)" using kL k F(3) by (simp add: w_def)
      then have "around (buf cb) w k = around (buf cb) (unat (end_at cb) + 1 - k) k" by (simp add: around_shift)
      then show ?thesis using around_straight [of "unat (end_at cb) + 1 - k" k "buf cb"] k F(3,7) by simp
    qed
    then have "memcpy out 0 (buf cb) (unat (end_at cb) + 1 - k) k =
        Some (drop (unat (len cb) - k) (cb_list cb) @ drop k out)"
      using kL F(3,7) by (simp add: memcpy_def val)
    then show ?thesis using True n good
      by (auto simp: cirbuf_get_buf_tail_def Let_def n_def [symmetric] k_def [symmetric])
  next
    case False
    have E: "unat (end_at cb) + 1 + cb_size cb = unat (start cb) + unat (len cb)"
      using wrap_iff [OF ok L] False by simp
    have k: "unat (end_at cb) + 1 < k" using False e1 n(1) by (simp add: word_le_nat_alt not_le)
    have good: "tail_reads_well cb k \<longleftrightarrow> k = unat (len cb)"
      using E k by (auto simp: tail_reads_well_def)
    have rest: "n - end_at cb - 1 = n - (end_at cb + 1)" by (simp add: algebra_simps)
    have sub: "unat (n - (end_at cb + 1)) = k - (unat (end_at cb) + 1)"
      using k n(1) e1 by (subst unat_sub_exact) simp_all
    have first: "memcpy out (cb_size cb - unat (start cb)) (buf cb) 0 (unat (end_at cb) + 1) =
      (if unat (len cb) \<le> length out then
         Some (take (cb_size cb - unat (start cb)) out @ take (unat (end_at cb) + 1) (buf cb) @ drop (unat (len cb)) out)
       else None)"
    proof -
      have "cb_size cb - unat (start cb) + (unat (end_at cb) + 1) = unat (len cb)" using E F(4) by linarith
      then show ?thesis using F(3,7) by (simp add: memcpy_def)
    qed
    show ?thesis
    proof (cases "k = unat (len cb)")
      case True
      then have le: "unat (len cb) \<le> length out" using kL by simp
      let ?o1 = "take (cb_size cb - unat (start cb)) out @ take (unat (end_at cb) + 1) (buf cb) @ drop (unat (len cb)) out"
      have cnt: "k - (unat (end_at cb) + 1) = cb_size cb - unat (start cb)" "cb_size cb - k + unat (end_at cb) + 1 = unat (start cb)"
        using True E F(4,5) by linarith+
      have len1: "cb_size cb - unat (start cb) \<le> length out" using le E F(4) by linarith
      have "memcpy ?o1 0 (buf cb) (unat (start cb)) (cb_size cb - unat (start cb)) =
          Some (drop (unat (start cb)) (buf cb) @ take (unat (end_at cb) + 1) (buf cb) @ drop (unat (len cb)) out)"
        using F(3,4) len1 by (simp add: memcpy_def min_absorb2)
      moreover have "cb_list cb = drop (unat (start cb)) (buf cb) @ take (unat (end_at cb) + 1) (buf cb)"
      proof -
        have "unat (len cb) - (length (buf cb) - unat (start cb)) = unat (end_at cb) + 1" using E F(3,4) by linarith
        then show ?thesis
          using around_list [OF ok, of 0 "unat (len cb)"] around_split [of "unat (start cb)" "buf cb" "unat (len cb)"]
            E F(3,4,5) by simp
      qed
      ultimately show ?thesis
        using \<open>\<not> (start cb \<le> end_at cb \<or> n \<le> end_at cb + 1)\<close> n good True first le F(6) cnt e1
        by (simp add: cirbuf_get_buf_tail_def Let_def n_def [symmetric] k_def [symmetric] rest sub)
    next
      case no: False
      then have "\<not> unat (len cb) \<le> length out" using out by (auto simp: k_def copied_def)
      then show ?thesis
        using False n good no first F(6) e1
        by (simp add: cirbuf_get_buf_tail_def Let_def n_def [symmetric] k_def [symmetric])
    qed
  qed
qed

section \<open>Alignment\<close>

text \<open>
  Both shifts move each element one place along a sequence \<open>f\<close> of positions:
  upwards from the start or downwards from the end.
\<close>

fun chain :: "(nat \<Rightarrow> nat) \<Rightarrow> nat \<Rightarrow> nat \<Rightarrow> 'a list \<Rightarrow> 'a list" where
  "chain f i 0 b = b"
| "chain f i (Suc k) b = chain f (Suc i) k (b[f i := b ! f (Suc i)])"

lemma length_chain [simp]: "length (chain f i k b) = length b"
  by (induction k arbitrary: i b) auto

lemma chain_other: "(\<And>j. i \<le> j \<Longrightarrow> j < i + k \<Longrightarrow> p \<noteq> f j) \<Longrightarrow> chain f i k b ! p = b ! p"
proof (induction k arbitrary: i b)
  case (Suc k)
  have "chain f (Suc i) k (b[f i := b ! f (Suc i)]) ! p = b[f i := b ! f (Suc i)] ! p"
    by (rule Suc.IH) (use Suc.prems in auto)
  moreover have "p \<noteq> f i" using Suc.prems [of i] by simp
  ultimately show ?case by simp
qed simp

lemma chain_moved:
  assumes "inj_on f {..<length b}" "\<And>j. j < length b \<Longrightarrow> f j < length b" "i + k \<le> length b"
    and "i \<le> j" "j < i + k" "Suc j < length b"
  shows "chain f i k b ! f j = b ! f (Suc j)"
  using assms
proof (induction k arbitrary: i b)
  case (Suc k)
  let ?b = "b[f i := b ! f (Suc i)]"
  show ?case
  proof (cases "j = i")
    case True
    have "chain f (Suc i) k ?b ! f i = ?b ! f i"
    proof (rule chain_other)
      fix j' assume "Suc i \<le> j'" "j' < Suc i + k"
      then show "f i \<noteq> f j'" using Suc.prems(3) inj_onD [OF Suc.prems(1), of i j'] by auto
    qed
    then show ?thesis using True Suc.prems(2) [of i] Suc.prems(6) by simp
  next
    case False
    then have "chain f (Suc i) k ?b ! f j = ?b ! f (Suc j)"
      using Suc.prems by (intro Suc.IH) auto
    moreover have "f (Suc j) \<noteq> f i"
      using inj_onD [OF Suc.prems(1), of "Suc j" i] Suc.prems(4,6) by auto
    ultimately show ?thesis by simp
  qed
qed simp

definition up_pos :: "'a cirbuf \<Rightarrow> nat \<Rightarrow> nat" where
  "up_pos cb i = (unat (start cb) + i) mod cb_size cb"

definition down_pos :: "'a cirbuf \<Rightarrow> nat \<Rightarrow> nat" where
  "down_pos cb i = (unat (end_at cb) + cb_size cb - i) mod cb_size cb"

lemma pos_ok:
  assumes "cb_ok cb"
  shows "up_pos cb i < cb_size cb" "down_pos cb i < cb_size cb"
    "inj_on (up_pos cb) {..<cb_size cb}" "inj_on (down_pos cb) {..<cb_size cb}"
proof -
  show "up_pos cb i < cb_size cb" "down_pos cb i < cb_size cb"
    using cb_facts(1) [OF assms] by (simp_all add: up_pos_def down_pos_def)
  show "inj_on (up_pos cb) {..<cb_size cb}"
  proof (rule linorder_inj_onI)
    fix i j assume "i < j" "i \<in> {..<cb_size cb}" "j \<in> {..<cb_size cb}"
    then show "up_pos cb i \<noteq> up_pos cb j" unfolding up_pos_def by (intro mod_neq) auto
  qed auto
  show "inj_on (down_pos cb) {..<cb_size cb}"
  proof (rule linorder_inj_onI)
    fix i j assume "i < j" "i \<in> {..<cb_size cb}" "j \<in> {..<cb_size cb}"
    then show "down_pos cb i \<noteq> down_pos cb j"
      unfolding down_pos_def by (intro mod_neq [symmetric]) auto
  qed auto
qed

lemma up_word: "cb_ok cb \<Longrightarrow> i \<le> cb_size cb \<Longrightarrow> unat ((start cb + of_nat i) mod maxlen cb) = up_pos cb i"
  using cb_facts [of cb] by (simp add: up_pos_def unat_mod_distrib unat_add_exact of_nat_u32)

lemma down_word:
  assumes "cb_ok cb" "i \<le> cb_size cb"
  shows "unat ((end_at cb + maxlen cb - of_nat i) mod maxlen cb) = down_pos cb i"
proof -
  note F = cb_facts [OF assms(1)]
  have i: "unat (of_nat i :: u32) = i" using F(2) assms(2) by (intro of_nat_u32) simp
  have "unat (end_at cb + maxlen cb) = unat (end_at cb) + cb_size cb" using F by (subst unat_add_exact) simp_all
  then have "unat (end_at cb + maxlen cb - of_nat i) = unat (end_at cb) + cb_size cb - i"
    using i assms(2) by (subst unat_sub_exact) simp_all
  then show ?thesis by (simp add: unat_mod_distrib F(6) down_pos_def)
qed

lemma shift_left_bytes_chain:
  assumes "cb_ok cb"
  shows "i + k \<le> cb_size cb \<Longrightarrow> length b = cb_size cb \<Longrightarrow>
    shift_left_bytes cb i k b = Some (chain (up_pos cb) i k b)"
proof (induction k arbitrary: i b)
  case (Suc k)
  have "start cb + of_nat i + 1 = start cb + of_nat (Suc i)" by simp
  then have "unat ((start cb + of_nat i + 1) mod maxlen cb) = up_pos cb (Suc i)"
    using up_word [OF assms, of "Suc i"] Suc.prems(1) by (simp only:)
  moreover have "unat ((start cb + of_nat i) mod maxlen cb) = up_pos cb i"
    using up_word [OF assms, of i] Suc.prems(1) by simp
  ultimately show ?case
    using Suc.IH [of "Suc i" "b[up_pos cb i := b ! up_pos cb (Suc i)]"] Suc.prems pos_ok(1) [OF assms]
    by (simp add: read_at_def write_at_def)
qed simp

lemma shift_right_bytes_chain:
  assumes "cb_ok cb"
  shows "i + k \<le> cb_size cb \<Longrightarrow> length b = cb_size cb \<Longrightarrow>
    shift_right_bytes cb i k b = Some (chain (down_pos cb) i k b)"
proof (induction k arbitrary: i b)
  case (Suc k)
  have "end_at cb + maxlen cb - of_nat i - 1 = end_at cb + maxlen cb - of_nat (Suc i)" by (simp add: algebra_simps)
  then have "unat ((end_at cb + maxlen cb - of_nat i - 1) mod maxlen cb) = down_pos cb (Suc i)"
    using down_word [OF assms, of "Suc i"] Suc.prems(1) by (simp only:)
  moreover have "unat ((end_at cb + maxlen cb - of_nat i) mod maxlen cb) = down_pos cb i"
    using down_word [OF assms, of i] Suc.prems(1) by simp
  ultimately show ?case
    using Suc.IH [of "Suc i" "b[down_pos cb i := b ! down_pos cb (Suc i)]"] Suc.prems pos_ok(2) [OF assms]
    by (simp add: read_at_def write_at_def)
qed simp


lemma dec_word:
  assumes "cb_ok cb" "unat x < cb_size cb"
  shows "unat ((x + (maxlen cb - 1)) mod maxlen cb) = (unat x + (cb_size cb - 1)) mod cb_size cb"
proof -
  note F = cb_facts [OF assms(1)]
  have "unat (maxlen cb - 1) = cb_size cb - 1" using F(1,6) by (subst unat_sub_exact) simp_all
  then have "unat (x + (maxlen cb - 1)) = unat x + (cb_size cb - 1)" using F(2) assms(2) by (subst unat_add_exact) auto
  then show ?thesis by (simp add: unat_mod_distrib F(6))
qed

lemma inc_word:
  assumes "cb_ok cb" "unat x < cb_size cb"
  shows "unat ((x + 1) mod maxlen cb) = (unat x + 1) mod cb_size cb"
proof -
  note F = cb_facts [OF assms(1)]
  have "unat (x + 1) = unat x + 1" using F(2) assms(2) by (subst unat_add_exact) auto
  then show ?thesis by (simp add: unat_mod_distrib F(6))
qed

lemma cirbuf_shift_left_ok:
  assumes ok: "cb_ok cb"
  shows "\<exists>cb'. cirbuf_shift_left cb = Some cb' \<and> cb_ok cb' \<and> maxlen cb' = maxlen cb \<and> cb_list cb' = cb_list cb \<and>
    unat (start cb') = (unat (start cb) + (cb_size cb - 1)) mod cb_size cb \<and>
    unat (end_at cb') = (unat (end_at cb) + (cb_size cb - 1)) mod cb_size cb"
proof -
  note F = cb_facts [OF ok] and P = pos_ok [OF ok]
  define M S L where d: "M = cb_size cb" "S = unat (start cb)" "L = unat (len cb)"
  let ?s = "(start cb + (maxlen cb - 1)) mod maxlen cb" and ?e = "(end_at cb + (maxlen cb - 1)) mod maxlen cb"
  have s: "unat ?s = (S + (M - 1)) mod M" and e: "unat ?e = (unat (end_at cb) + (M - 1)) mod M"
    using dec_word [OF ok] F(4,7) by (simp_all add: d)
  have sM: "unat ?s < M" using s F(1) by (simp add: d)
  define b2 where "b2 = chain (up_pos cb) 0 L (buf cb)"
  let ?b = "b2[unat ?s := buf cb ! S]"
  let ?cb' = "cb\<lparr>buf := ?b, start := ?s, end_at := ?e\<rparr>"
  have eq: "start cb - 1 + maxlen cb = start cb + (maxlen cb - 1)" by (simp add: algebra_simps)
  have run: "cirbuf_shift_left cb = Some ?cb'"
    unfolding cirbuf_shift_left_def eq
    using F(3,4,5) sM shift_left_bytes_chain [OF ok, of 0 "unat (len cb)" "buf cb"]
    by (simp add: read_at_def write_at_def b2_def d)
  have "cb_list ?cb' = cb_list cb"
  proof (rule cb_list_eqI)
    show "unat (len ?cb') = length (cb_list cb)" by simp
    fix i assume "i < length (cb_list cb)"
    then have i: "i < L" "L \<le> M" using F(5) by (simp_all add: d)
    have "?b ! ((unat ?s + i) mod M) = cb_list cb ! i"
    proof (cases i)
      case 0
      then show ?thesis using i sM F(3,4) by (simp add: b2_def cb_list_nth d)
    next
      case (Suc t)
      have "(unat ?s + i) mod M = (S + (M - 1) + Suc t) mod M" unfolding s Suc by (rule mod_add_left_eq)
      also have "S + (M - 1) + Suc t = S + t + M" using F(1) by (simp add: d)
      finally have at: "(unat ?s + i) mod M = up_pos cb t" by (simp add: up_pos_def d)
      have "unat ?s = up_pos cb (M - 1)" by (simp only: s up_pos_def d)
      then have "up_pos cb t \<noteq> unat ?s"
        using inj_onD [OF P(3), of t "M - 1"] Suc i by (auto simp: d)
      moreover have "b2 ! up_pos cb t = buf cb ! up_pos cb (Suc t)"
        unfolding b2_def
        by (rule chain_moved) (use P(1,3) F(3) Suc i in \<open>simp_all add: d\<close>)
      ultimately show ?thesis using i Suc at by (simp add: cb_list_nth up_pos_def d)
    qed
    then show "buf ?cb' ! ((unat (start ?cb') + i) mod cb_size ?cb') = cb_list cb ! i" by (simp add: d)
  qed
  moreover have "cb_ok ?cb'"
  proof (rule cb_okI [where m = M and l = L])
    show "unat (end_at ?cb') = (if L = 0 then unat (start ?cb') else (unat (start ?cb') + L - 1) mod M)"
    proof (cases "L = 0")
      case False
      have "(unat ?s + L - 1) mod M = (S + (M - 1) + L - 1) mod M" using False unfolding s by (intro mod_add_pred) simp
      also have "S + (M - 1) + L - 1 = S + L - 1 + (M - 1)" using False by simp
      also have "\<dots> mod M = ((S + L - 1) mod M + (M - 1)) mod M" by (rule mod_add_left_eq [symmetric])
      finally show ?thesis using False e F(8) by (simp add: d)
    qed (use e s F(8) in \<open>simp add: d\<close>)
  qed (use F(1-5) sM in \<open>simp_all add: d b2_def\<close>)
  ultimately show ?thesis using run s e by (simp add: d)
qed

lemma cirbuf_shift_right_ok:
  assumes ok: "cb_ok cb"
  shows "\<exists>cb'. cirbuf_shift_right cb = Some cb' \<and> cb_ok cb' \<and> maxlen cb' = maxlen cb \<and> cb_list cb' = cb_list cb \<and>
    unat (start cb') = (unat (start cb) + 1) mod cb_size cb \<and>
    unat (end_at cb') = (unat (end_at cb) + 1) mod cb_size cb"
proof -
  note F = cb_facts [OF ok] and P = pos_ok [OF ok]
  define M S E L where d: "M = cb_size cb" "S = unat (start cb)" "E = unat (end_at cb)" "L = unat (len cb)"
  let ?s = "(start cb + 1) mod maxlen cb" and ?e = "(end_at cb + 1) mod maxlen cb"
  have s: "unat ?s = (S + 1) mod M" and e: "unat ?e = (E + 1) mod M"
    using inc_word [OF ok] F(4,7) by (simp_all add: d)
  have sM: "unat ?s < M" "unat ?e < M" using s e F(1) by (simp_all add: d)
  define b2 where "b2 = chain (down_pos cb) 0 L (buf cb)"
  let ?b = "b2[unat ?e := buf cb ! E]"
  let ?cb' = "cb\<lparr>buf := ?b, start := ?s, end_at := ?e\<rparr>"
  have run: "cirbuf_shift_right cb = Some ?cb'"
    using F(3,5,7) sM shift_right_bytes_chain [OF ok, of 0 "unat (len cb)" "buf cb"]
    by (simp add: cirbuf_shift_right_def read_at_def write_at_def b2_def d)
  have "cb_list ?cb' = cb_list cb"
  proof (rule cb_list_eqI)
    show "unat (len ?cb') = length (cb_list cb)" by simp
    fix i assume "i < length (cb_list cb)"
    then have i: "i < L" "L \<le> M" using F(5) by (simp_all add: d)
    have E: "E = (S + L - 1) mod M" using F(8) i by (simp add: d)
    have bk: "down_pos cb (L - Suc k) = (S + k) mod M" if "k < L" for k
    proof -
      have "down_pos cb (L - Suc k) = (E + (M - (L - Suc k))) mod M" using i by (simp add: down_pos_def d)
      also have "\<dots> = (S + (L - (L - Suc k)) - 1) mod M"
        by (rule end_back [OF E]) (use that i F(1) in \<open>auto simp: d\<close>)
      finally show ?thesis using that by simp
    qed
    have "(unat ?s + i) mod M = (S + 1 + i) mod M" unfolding s by (rule mod_add_left_eq)
    then have at: "(unat ?s + i) mod M = (S + Suc i) mod M" by simp
    have "?b ! ((unat ?s + i) mod M) = cb_list cb ! i"
    proof (cases "Suc i = L")
      case True
      have "(E + 1) mod M = (S + Suc i) mod M"
        using E True F(1) mod_add_left_eq [of "S + L - 1" M 1] by (simp add: d)
      moreover have "E = (S + i) mod M" using E by (simp flip: True)
      ultimately show ?thesis using at e sM i True F(3) by (simp add: b2_def cb_list_nth d)
    next
      case False
      then have k: "Suc i < L" using i by simp
      let ?j = "L - Suc (Suc i)"
      have j: "(unat ?s + i) mod M = down_pos cb ?j" using bk [OF k] at by simp
      have "b2 ! down_pos cb ?j = buf cb ! down_pos cb (Suc ?j)"
        unfolding b2_def by (rule chain_moved) (use P(2,4) F(3) k i in \<open>simp_all add: d\<close>)
      moreover have "Suc ?j = L - Suc i" using k by simp
      moreover have "unat ?e \<noteq> down_pos cb ?j"
      proof -
        have "unat ?e = down_pos cb (M - 1)" using F(1) by (simp add: e down_pos_def d)
        moreover have "?j < M - 1" "M - 1 < M" "?j < M" using k i by simp_all
        ultimately show ?thesis using inj_onD [OF P(4), of ?j "M - 1"] by (auto simp: d)
      qed
      ultimately show ?thesis using i j bk [OF i(1)] by (simp add: cb_list_nth d)
    qed
    then show "buf ?cb' ! ((unat (start ?cb') + i) mod cb_size ?cb') = cb_list cb ! i" by (simp add: d)
  qed
  moreover have "cb_ok ?cb'"
  proof (rule cb_okI [where m = M and l = L])
    show "unat (end_at ?cb') = (if L = 0 then unat (start ?cb') else (unat (start ?cb') + L - 1) mod M)"
    proof (cases "L = 0")
      case False
      have "(unat ?s + L - 1) mod M = (S + 1 + L - 1) mod M" using False unfolding s by (intro mod_add_pred) simp
      also have "S + 1 + L - 1 = S + L - 1 + 1" using False by simp
      also have "\<dots> mod M = ((S + L - 1) mod M + 1) mod M" by (rule mod_add_left_eq [symmetric])
      finally show ?thesis using False e F(8) by (simp add: d)
    qed (use e s F(8) in \<open>simp add: d\<close>)
  qed (use F(1-5) sM in \<open>simp_all add: d b2_def\<close>)
  ultimately show ?thesis using run s e by (simp add: d)
qed

text \<open>A loop of shifts returns when each shift brings it closer to its end.\<close>

lemma shift_until_returns:
  assumes "\<And>c. P c \<Longrightarrow> \<not> stop c \<Longrightarrow> \<exists>c'. shift c = Some c' \<and> P c' \<and> m c' < (m c :: nat)"
  shows "P c \<Longrightarrow> \<exists>c'. shift_until stop shift c = Some c' \<and> P c' \<and> stop c'"
proof (induction "m c" arbitrary: c rule: less_induct)
  case less
  show ?case
  proof (cases "stop c")
    case True
    then show ?thesis using less.prems by (subst shift_until.simps) auto
  next
    case False
    obtain c' where c': "shift c = Some c'" "P c'" "m c' < m c" using assms [OF less.prems False] by blast
    from less.hyps [OF c'(3,2)] show ?thesis using False c'(1) by (subst shift_until.simps) auto
  qed
qed

text \<open>What every shift keeps.\<close>

definition same_as :: "'a cirbuf \<Rightarrow> 'a cirbuf \<Rightarrow> bool" where
  "same_as cb c \<longleftrightarrow> cb_ok c \<and> maxlen c = maxlen cb \<and> cb_list c = cb_list cb"

lemma same_refl: "cb_ok cb \<Longrightarrow> same_as cb cb"
  by (simp add: same_as_def)

lemma same_size: "same_as cb c \<Longrightarrow> cb_size c = cb_size cb"
  by (simp add: same_as_def cb_size_def)

lemma start_0: "start c = 0 \<longleftrightarrow> unat (start c) = 0"
  by (simp add: unat_eq_0)

lemma shifted_left:
  assumes "same_as cb c"
  obtains c' where "cirbuf_shift_left c = Some c'" "same_as cb c'"
    "unat (start c') = (if unat (start c) = 0 then cb_size cb - 1 else unat (start c) - 1)"
    "unat (end_at c') = (if unat (end_at c) = 0 then cb_size cb - 1 else unat (end_at c) - 1)"
proof -
  have ok: "cb_ok c" using assms by (simp add: same_as_def)
  note F = cb_facts [OF ok]
  obtain c' where c': "cirbuf_shift_left c = Some c'" "cb_ok c'" "maxlen c' = maxlen c" "cb_list c' = cb_list c"
    "unat (start c') = (unat (start c) + (cb_size c - 1)) mod cb_size c"
    "unat (end_at c') = (unat (end_at c) + (cb_size c - 1)) mod cb_size c"
    using cirbuf_shift_left_ok [OF ok] by blast
  show thesis
  proof (rule that [OF c'(1)])
    show "same_as cb c'" using c' assms by (simp add: same_as_def)
    show "unat (start c') = (if unat (start c) = 0 then cb_size cb - 1 else unat (start c) - 1)"
      using c'(5) step_down [OF F(4,1)] same_size [OF assms] by simp
    show "unat (end_at c') = (if unat (end_at c) = 0 then cb_size cb - 1 else unat (end_at c) - 1)"
      using c'(6) step_down [OF F(7,1)] same_size [OF assms] by simp
  qed
qed

lemma shifted_right:
  assumes "same_as cb c"
  obtains c' where "cirbuf_shift_right c = Some c'" "same_as cb c'"
    "unat (start c') = (if unat (start c) = cb_size cb - 1 then 0 else unat (start c) + 1)"
proof -
  have ok: "cb_ok c" using assms by (simp add: same_as_def)
  note F = cb_facts [OF ok]
  obtain c' where c': "cirbuf_shift_right c = Some c'" "cb_ok c'" "maxlen c' = maxlen c" "cb_list c' = cb_list c"
    "unat (start c') = (unat (start c) + 1) mod cb_size c"
    using cirbuf_shift_right_ok [OF ok] by blast
  show thesis
  proof (rule that [OF c'(1)])
    show "same_as cb c'" using c' assms by (simp add: same_as_def)
    show "unat (start c') = (if unat (start c) = cb_size cb - 1 then 0 else unat (start c) + 1)"
      using c'(5) F(1,4) same_size [OF assms] by (auto simp: mod_Suc)
  qed
qed

lemma same_bounds: "same_as cb c \<Longrightarrow> unat (start c) < cb_size cb \<and> unat (end_at c) < cb_size cb"
  using cb_facts(4,7) [of c] same_size [of cb c] by (simp add: same_as_def)

lemma align_left_loops:
  assumes "cb_ok cb"
  shows "\<exists>c. shift_until (\<lambda>c. start c = 0) cirbuf_shift_left cb = Some c \<and> same_as cb c \<and> start c = 0"
    and "\<exists>c. shift_until (\<lambda>c. start c = 0) cirbuf_shift_right cb = Some c \<and> same_as cb c \<and> start c = 0"
proof -
  show "\<exists>c. shift_until (\<lambda>c. start c = 0) cirbuf_shift_left cb = Some c \<and> same_as cb c \<and> start c = 0"
  proof (rule shift_until_returns [where P = "same_as cb" and c = cb and m = "\<lambda>c. unat (start c)",
        OF _ same_refl [OF assms]])
    fix c assume c: "same_as cb c" "start c \<noteq> 0"
    obtain c' where c': "cirbuf_shift_left c = Some c'" "same_as cb c'"
      "unat (start c') = (if unat (start c) = 0 then cb_size cb - 1 else unat (start c) - 1)"
      using shifted_left [OF c(1)] .
    then have "unat (start c') < unat (start c)" using c(2) by (simp add: start_0)
    then show "\<exists>c'. cirbuf_shift_left c = Some c' \<and> same_as cb c' \<and> unat (start c') < unat (start c)"
      using c' by blast
  qed
  show "\<exists>c. shift_until (\<lambda>c. start c = 0) cirbuf_shift_right cb = Some c \<and> same_as cb c \<and> start c = 0"
  proof (rule shift_until_returns [where P = "same_as cb" and c = cb and m = "\<lambda>c. if unat (start c) = 0 then 0 else cb_size cb - unat (start c)",
        OF _ same_refl [OF assms]])
    fix c assume c: "same_as cb c" "start c \<noteq> 0"
    obtain c' where c': "cirbuf_shift_right c = Some c'" "same_as cb c'"
      "unat (start c') = (if unat (start c) = cb_size cb - 1 then 0 else unat (start c) + 1)"
      using shifted_right [OF c(1)] .
    then have "(if unat (start c') = 0 then 0 else cb_size cb - unat (start c'))
        < (if unat (start c) = 0 then 0 else cb_size cb - unat (start c))"
      using c(2) same_bounds [OF c(1)] by (simp add: start_0 split: if_splits)
    then show "\<exists>c'. cirbuf_shift_right c = Some c' \<and> same_as cb c' \<and>
        (if unat (start c') = 0 then 0 else cb_size cb - unat (start c'))
        < (if unat (start c) = 0 then 0 else cb_size cb - unat (start c))"
      using c' by blast
  qed
qed

lemma last_index: "cb_ok c \<Longrightarrow> x = maxlen c - 1 \<longleftrightarrow> unat x = cb_size c - 1"
proof -
  assume "cb_ok c"
  then have "unat (maxlen c - 1) = cb_size c - 1" using cb_facts(1,6) [of c] by (subst unat_sub_exact) simp_all
  then show ?thesis using unat_inj by metis
qed

lemma align_right_loops:
  assumes "cb_ok cb"
  shows "\<exists>c. shift_until (\<lambda>c. end_at c = maxlen c - 1) cirbuf_shift_left cb = Some c \<and> same_as cb c \<and> end_at c = maxlen c - 1"
    and "\<exists>c. shift_until (\<lambda>c. start c = maxlen c - 1) cirbuf_shift_right cb = Some c \<and> same_as cb c \<and> start c = maxlen c - 1"
proof -
  show "\<exists>c. shift_until (\<lambda>c. end_at c = maxlen c - 1) cirbuf_shift_left cb = Some c \<and> same_as cb c \<and> end_at c = maxlen c - 1"
  proof (rule shift_until_returns [where P = "same_as cb" and c = cb and m = "\<lambda>c. if unat (end_at c) = cb_size cb - 1 then 0 else unat (end_at c) + 1",
        OF _ same_refl [OF assms]])
    fix c assume c: "same_as cb c" "end_at c \<noteq> maxlen c - 1"
    obtain c' where c': "cirbuf_shift_left c = Some c'" "same_as cb c'"
      "unat (end_at c') = (if unat (end_at c) = 0 then cb_size cb - 1 else unat (end_at c) - 1)"
      using shifted_left [OF c(1)] .
    have "unat (end_at c) \<noteq> cb_size cb - 1"
      using c(2) last_index [of c "end_at c"] same_size [OF c(1)] c(1) by (simp add: same_as_def)
    then have "(if unat (end_at c') = cb_size cb - 1 then 0 else unat (end_at c') + 1)
        < (if unat (end_at c) = cb_size cb - 1 then 0 else unat (end_at c) + 1)"
      using c'(3) same_bounds [OF c(1)] by (simp split: if_splits)
    then show "\<exists>c'. cirbuf_shift_left c = Some c' \<and> same_as cb c' \<and>
        (if unat (end_at c') = cb_size cb - 1 then 0 else unat (end_at c') + 1)
        < (if unat (end_at c) = cb_size cb - 1 then 0 else unat (end_at c) + 1)"
      using c' by blast
  qed
  show "\<exists>c. shift_until (\<lambda>c. start c = maxlen c - 1) cirbuf_shift_right cb = Some c \<and> same_as cb c \<and> start c = maxlen c - 1"
  proof (rule shift_until_returns [where P = "same_as cb" and c = cb and m = "\<lambda>c. cb_size cb - unat (start c)",
        OF _ same_refl [OF assms]])
    fix c assume c: "same_as cb c" "start c \<noteq> maxlen c - 1"
    obtain c' where c': "cirbuf_shift_right c = Some c'" "same_as cb c'"
      "unat (start c') = (if unat (start c) = cb_size cb - 1 then 0 else unat (start c) + 1)"
      using shifted_right [OF c(1)] .
    have "unat (start c) \<noteq> cb_size cb - 1"
      using c(2) last_index [of c "start c"] same_size [OF c(1)] c(1) by (simp add: same_as_def)
    then have "cb_size cb - unat (start c') < cb_size cb - unat (start c)"
      using c'(3) same_bounds [OF c(1)] by auto
    then show "\<exists>c'. cirbuf_shift_right c = Some c' \<and> same_as cb c' \<and>
        cb_size cb - unat (start c') < cb_size cb - unat (start c)"
      using c' by blast
  qed
qed

end
