(* ===== verification/Char_Stack.thy ===== *)
theory Char_Stack
  imports Dpdk_Prelude "HOL-Library.Monad_Syntax"
begin

text \<open>
  The contract of one end of a buffer as its client uses it: a stack with a
  bounded room, whose \<open>push\<close> may fail on a buffer without room.  The line editor
  keeps the characters before its caret in one stack and those after it in
  another, and moves characters between them; its loops are proved here, once
  for both directions.
\<close>

locale char_stack =
  fixes ok :: "'d \<Rightarrow> bool"
    and elems :: "'d \<Rightarrow> 'a list"
    and room :: "'d \<Rightarrow> nat"
    and emp :: "'d \<Rightarrow> bool"
    and peek :: "'d \<Rightarrow> 'a option"
    and pop :: "'d \<Rightarrow> 'd"
    and push :: "'d \<Rightarrow> 'a \<Rightarrow> 'd option"
  assumes emp_iff: "ok d \<Longrightarrow> emp d \<longleftrightarrow> elems d = []"
    and peek_hd: "ok d \<Longrightarrow> elems d \<noteq> [] \<Longrightarrow> peek d = Some (hd (elems d))"
    and pop_tl: "ok d \<Longrightarrow> elems d \<noteq> [] \<Longrightarrow>
      ok (pop d) \<and> elems (pop d) = tl (elems d) \<and> room (pop d) = Suc (room d)"
    and push_cons: "ok d \<Longrightarrow> 0 < room d \<Longrightarrow>
      \<exists>d'. push d x = Some d' \<and> ok d' \<and> elems d' = x # elems d \<and> room d' = room d - 1"

section \<open>The loops of the client\<close>

text \<open>
  \<open>while (!empty(a) && test(top(a))) { puts(s); pop(a); push(b, top); }\<close> and the same
  without the \<open>push\<close>; \<open>None\<close> when an operation fails or the loop does not end.
\<close>

partial_function (option) move_while ::
  "('d \<Rightarrow> bool) \<Rightarrow> ('d \<Rightarrow> 'a option) \<Rightarrow> ('d \<Rightarrow> 'd) \<Rightarrow> ('e \<Rightarrow> 'a \<Rightarrow> 'e option) \<Rightarrow> ('a \<Rightarrow> bool) \<Rightarrow> 'c list
   \<Rightarrow> 'd \<Rightarrow> 'e \<Rightarrow> 'c list \<Rightarrow> ('d \<times> 'e \<times> 'c list) option" where
  "move_while emp peek pop push test s a b out =
    (if emp a then Some (a, b, out)
     else do {
       x \<leftarrow> peek a;
       if test x then do { b \<leftarrow> push b x; move_while emp peek pop push test s (pop a) b (out @ s) }
       else Some (a, b, out) })"

partial_function (option) drop_while ::
  "('d \<Rightarrow> bool) \<Rightarrow> ('d \<Rightarrow> 'a option) \<Rightarrow> ('d \<Rightarrow> 'd) \<Rightarrow> ('a \<Rightarrow> bool) \<Rightarrow> 'c list
   \<Rightarrow> 'd \<Rightarrow> 'c list \<Rightarrow> ('d \<times> 'c list) option" where
  "drop_while emp peek pop test s a out =
    (if emp a then Some (a, out)
     else do {
       x \<leftarrow> peek a;
       if test x then drop_while emp peek pop test s (pop a) (out @ s)
       else Some (a, out) })"

context char_stack
begin

lemma drop_while_ok:
  "ok a \<Longrightarrow> \<exists>a'. drop_while emp peek pop test s a out =
      Some (a', out @ concat (replicate (length (takeWhile test (elems a))) s)) \<and>
    ok a' \<and> elems a' = dropWhile test (elems a) \<and> room a' = room a + length (takeWhile test (elems a))"
proof (induction "elems a" arbitrary: a out)
  case Nil
  then show ?case using emp_iff [of a] by (subst drop_while.simps) auto
next
  case (Cons x xs)
  have ne: "elems a \<noteq> []" "elems a = x # xs" using Cons.hyps(2) [symmetric] by simp_all
  show ?case
  proof (cases "test x")
    case True
    have p: "ok (pop a)" "elems (pop a) = xs" "room (pop a) = Suc (room a)"
      using pop_tl [OF Cons.prems ne(1)] ne(2) by simp_all
    obtain a' where a': "drop_while emp peek pop test s (pop a) (out @ s) =
        Some (a', (out @ s) @ concat (replicate (length (takeWhile test xs)) s))"
      "ok a'" "elems a' = dropWhile test xs" "room a' = Suc (room a) + length (takeWhile test xs)"
      using Cons.hyps(1) [of "pop a" "out @ s"] p by auto
    have "drop_while emp peek pop test s a out = drop_while emp peek pop test s (pop a) (out @ s)"
      using True ne peek_hd [OF Cons.prems ne(1)] emp_iff [OF Cons.prems] by (subst drop_while.simps) simp
    then show ?thesis using a' True ne(2) by simp
  next
    case False
    then show ?thesis
      using ne peek_hd [OF Cons.prems ne(1)] emp_iff [OF Cons.prems] Cons.prems by (subst drop_while.simps) simp
  qed
qed

end

text \<open>Two stacks, of which the first is emptied into the second.\<close>

locale stack_pair = src: char_stack ok elems room emp peek pop push + dst: char_stack ok' elems' room' emp' peek' pop' push'
  for ok :: "'d \<Rightarrow> bool" and elems :: "'d \<Rightarrow> 'a list" and room emp peek pop push
    and ok' :: "'e \<Rightarrow> bool" and elems' :: "'e \<Rightarrow> 'a list" and room' emp' peek' pop' push'
begin

lemma move_while_ok:
  "ok a \<Longrightarrow> ok' b \<Longrightarrow> length (takeWhile test (elems a)) \<le> room' b \<Longrightarrow>
    \<exists>a' b'. move_while emp peek pop push' test s a b out =
      Some (a', b', out @ concat (replicate (length (takeWhile test (elems a))) s)) \<and>
    ok a' \<and> ok' b' \<and> elems a' = dropWhile test (elems a) \<and>
    elems' b' = rev (takeWhile test (elems a)) @ elems' b \<and>
    room a' = room a + length (takeWhile test (elems a)) \<and>
    room' b' = room' b - length (takeWhile test (elems a))"
proof (induction "elems a" arbitrary: a b out)
  case Nil
  then show ?case using src.emp_iff [of a] by (subst move_while.simps) auto
next
  case (Cons x xs)
  have ne: "elems a \<noteq> []" "elems a = x # xs" using Cons.hyps(2) [symmetric] by simp_all
  show ?case
  proof (cases "test x")
    case True
    have p: "ok (pop a)" "elems (pop a) = xs" "room (pop a) = Suc (room a)"
      using src.pop_tl [OF Cons.prems(1) ne(1)] ne(2) by simp_all
    have "0 < room' b" using Cons.prems(3) True ne(2) by simp
    then obtain b1 where b1: "push' b x = Some b1" "ok' b1" "elems' b1 = x # elems' b" "room' b1 = room' b - 1"
      using dst.push_cons [OF Cons.prems(2)] by blast
    have "length (takeWhile test (elems (pop a))) \<le> room' b1" using Cons.prems(3) True ne(2) p b1 by simp
    from Cons.hyps(1) [OF p(2) [symmetric] p(1) b1(2) this, of "out @ s"] obtain a' b' where
      *: "move_while emp peek pop push' test s (pop a) b1 (out @ s) =
        Some (a', b', (out @ s) @ concat (replicate (length (takeWhile test xs)) s))"
      "ok a'" "ok' b'" "elems a' = dropWhile test xs" "elems' b' = rev (takeWhile test xs) @ x # elems' b"
      "room a' = Suc (room a) + length (takeWhile test xs)"
      "room' b' = room' b - 1 - length (takeWhile test xs)"
      using p b1 by auto
    have "move_while emp peek pop push' test s a b out = move_while emp peek pop push' test s (pop a) b1 (out @ s)"
      using True ne src.peek_hd [OF Cons.prems(1) ne(1)] src.emp_iff [OF Cons.prems(1)] b1(1)
      by (subst move_while.simps) simp
    then show ?thesis using * True ne(2) by simp
  next
    case False
    then show ?thesis
      using ne src.peek_hd [OF Cons.prems(1) ne(1)] src.emp_iff [OF Cons.prems(1)] Cons.prems
      by (subst move_while.simps) simp
  qed
qed

end

end
