(* ===== verification/Cirbuf_Correct.thy ===== *)
theory Cirbuf_Correct
  imports Cmdline_Cirbuf Char_Stack
begin

text \<open>
  What the circular buffer of the command line library guarantees: it implements
  a list bounded by its size, its two ends are stacks in the sense of the
  contract \<open>char_stack\<close>, and the two operations that do not do what their
  documentation says.
\<close>

section \<open>Both ends are stacks\<close>

definition cb_room :: "'a cirbuf \<Rightarrow> nat" where
  "cb_room cb = cb_size cb - unat (len cb)"

lemma nonempty_len: "cb_list cb \<noteq> [] \<Longrightarrow> unat (len cb) \<noteq> 0"
  by (metis length_0_conv length_cb_list)

lemma same_size_room: "cb_ok c \<Longrightarrow> maxlen c = maxlen cb \<Longrightarrow> cb_room c = cb_size cb - length (cb_list c)"
  by (simp add: cb_room_def cb_size_def)

interpretation head: char_stack cb_ok cb_list cb_room CIRBUF_IS_EMPTY cirbuf_get_head cirbuf_del_head cirbuf_add_head
proof (unfold_locales, goal_cases)
  case (1 d)
  then show ?case by (simp add: empty_iff flip: length_cb_list)
next
  case (2 d)
  then show ?case using cirbuf_ends_ok(1) nonempty_len by blast
next
  case (3 d)
  then have L: "unat (len d) \<noteq> 0" "unat (len d) \<le> cb_size d" using nonempty_len cb_facts(5) by blast+
  note del = cirbuf_del_head_ok [OF 3(1) L(1)]
  then show ?case using same_size_room [OF del(1,2)] same_size_room [OF 3(1), of d] L by auto
next
  case (4 d x)
  then have "unat (len d) < cb_size d" by (simp add: cb_room_def)
  then obtain d' where d': "cirbuf_add_head d x = Some d'" "cb_ok d'" "maxlen d' = maxlen d" "cb_list d' = x # cb_list d"
    using cirbuf_add_head_ok [OF 4(1)] by blast
  then show ?case using same_size_room [OF d'(2,3)] same_size_room [OF 4(1), of d] by simp
qed

interpretation tail: char_stack cb_ok "\<lambda>cb. rev (cb_list cb)" cb_room CIRBUF_IS_EMPTY cirbuf_get_tail cirbuf_del_tail
  cirbuf_add_tail
proof (unfold_locales, goal_cases)
  case (1 d)
  then show ?case by (simp add: empty_iff flip: length_cb_list)
next
  case (2 d)
  then show ?case using cirbuf_ends_ok(2) [of d] nonempty_len [of d] by (simp add: hd_rev)
next
  case (3 d)
  then have L: "unat (len d) \<noteq> 0" "unat (len d) \<le> cb_size d" using nonempty_len [of d] cb_facts(5) [of d] by simp_all
  note del = cirbuf_del_tail_ok [OF 3(1) L(1)]
  then show ?case using same_size_room [OF del(1,2)] same_size_room [OF 3(1), of d] L
    by (auto simp: butlast_rev [symmetric] rev_swap)
next
  case (4 d x)
  then have "unat (len d) < cb_size d" by (simp add: cb_room_def)
  then obtain d' where d': "cirbuf_add_tail d x = Some d'" "cb_ok d'" "maxlen d' = maxlen d" "cb_list d' = cb_list d @ [x]"
    using cirbuf_add_tail_ok [OF 4(1)] by blast
  then show ?case using same_size_room [OF d'(2,3)] same_size_room [OF 4(1), of d] by simp
qed

interpretation to_right: stack_pair cb_ok "\<lambda>cb. rev (cb_list cb)" cb_room CIRBUF_IS_EMPTY cirbuf_get_tail cirbuf_del_tail
  cirbuf_add_tail cb_ok cb_list cb_room CIRBUF_IS_EMPTY cirbuf_get_head cirbuf_del_head cirbuf_add_head
  by unfold_locales

interpretation to_left: stack_pair cb_ok cb_list cb_room CIRBUF_IS_EMPTY cirbuf_get_head cirbuf_del_head cirbuf_add_head
  cb_ok "\<lambda>cb. rev (cb_list cb)" cb_room CIRBUF_IS_EMPTY cirbuf_get_tail cirbuf_del_tail cirbuf_add_tail
  by unfold_locales

section \<open>Sessions\<close>

text \<open>Any sequence of operations on one buffer, and the bounded list it implements.\<close>

datatype 'a cb_op =
    Add_head 'a | Add_tail 'a | Add_buf_head "'a list" | Add_buf_tail "'a list"
  | Del_head | Del_tail | Del_buf_head u32 | Del_buf_tail u32 | Align_left | Align_right

fun cb_step :: "'a cb_op \<Rightarrow> 'a cirbuf option \<Rightarrow> (int \<times> 'a cirbuf option) option" where
  "cb_step (Add_head x) cb = cirbuf_add_head_safe cb x"
| "cb_step (Add_tail x) cb = cirbuf_add_tail_safe cb x"
| "cb_step (Add_buf_head xs) cb = cirbuf_add_buf_head cb (Some xs) (of_nat (length xs))"
| "cb_step (Add_buf_tail xs) cb = cirbuf_add_buf_tail cb (Some xs) (of_nat (length xs))"
| "cb_step Del_head cb = Some (cirbuf_del_head_safe cb)"
| "cb_step Del_tail cb = Some (cirbuf_del_tail_safe cb)"
| "cb_step (Del_buf_head n) cb = Some (cirbuf_del_buf_head cb n)"
| "cb_step (Del_buf_tail n) cb = Some (cirbuf_del_buf_tail cb n)"
| "cb_step Align_left cb = cirbuf_align_left cb"
| "cb_step Align_right cb = cirbuf_align_right cb"

fun list_step :: "nat \<Rightarrow> 'a cb_op \<Rightarrow> 'a list \<Rightarrow> int \<times> 'a list" where
  "list_step m (Add_head x) l = (if length l < m then (0, x # l) else (- EINVAL, l))"
| "list_step m (Add_tail x) l = (if length l < m then (0, l @ [x]) else (- EINVAL, l))"
| "list_step m (Add_buf_head xs) l =
     (if xs \<noteq> [] \<and> length xs + length l \<le> m then (int (length xs), xs @ l) else (- EINVAL, l))"
| "list_step m (Add_buf_tail xs) l =
     (if xs \<noteq> [] \<and> length xs + length l \<le> m then (int (length xs), l @ xs) else (- EINVAL, l))"
| "list_step m Del_head l = (if l \<noteq> [] then (0, tl l) else (- EINVAL, l))"
| "list_step m Del_tail l = (if l \<noteq> [] then (0, butlast l) else (- EINVAL, l))"
| "list_step m (Del_buf_head n) l =
     (if n \<noteq> 0 \<and> unat n \<le> length l then (0, drop (unat n) l) else (- EINVAL, l))"
| "list_step m (Del_buf_tail n) l =
     (if n \<noteq> 0 \<and> unat n \<le> length l then (0, take (length l - unat n) l) else (- EINVAL, l))"
| "list_step m Align_left l = (0, l)"
| "list_step m Align_right l = (0, l)"

fun op_fits :: "'a cb_op \<Rightarrow> bool" where
  "op_fits (Add_buf_head xs) \<longleftrightarrow> length xs < 2 ^ 32"
| "op_fits (Add_buf_tail xs) \<longleftrightarrow> length xs < 2 ^ 32"
| "op_fits _ \<longleftrightarrow> True"

lemma align_left_ok:
  assumes "cb_ok cb"
  shows "\<exists>c. cirbuf_align_left (Some cb) = Some (0, Some c) \<and> same_as cb c \<and> start c = 0"
  using align_left_loops [OF assms] by (auto simp: cirbuf_align_left_def)

lemma align_right_ok:
  assumes "cb_ok cb"
  shows "\<exists>c. cirbuf_align_right (Some cb) = Some (0, Some c) \<and> same_as cb c \<and>
    (if start cb \<ge> maxlen cb div 2 then end_at c = maxlen c - 1 else start c = maxlen c - 1)"
  using align_right_loops [OF assms] by (auto simp: cirbuf_align_right_def)

lemma len_le_iff: "n \<le> len cb \<longleftrightarrow> unat n \<le> length (cb_list cb)"
  by (simp add: word_le_nat_alt)

lemma buf_length_word:
  assumes "length xs < 2 ^ 32" "cb_ok cb"
  shows "(of_nat (length xs) :: u32) = 0 \<longleftrightarrow> xs = []" "unat (of_nat (length xs) :: u32) = length xs"
    "of_nat (length xs) \<le> CIRBUF_GET_FREELEN cb \<longleftrightarrow> length xs + length (cb_list cb) \<le> cb_size cb"
proof -
  show u: "unat (of_nat (length xs) :: u32) = length xs" by (rule of_nat_u32 [OF assms(1)])
  then show "(of_nat (length xs) :: u32) = 0 \<longleftrightarrow> xs = []" by (metis length_0_conv unat_eq_0)
  show "of_nat (length xs) \<le> CIRBUF_GET_FREELEN cb \<longleftrightarrow> length xs + length (cb_list cb) \<le> cb_size cb"
    using u freelen_unat [OF assms(2)] cb_facts(5) [OF assms(2)] by (auto simp: word_le_nat_alt)
qed

lemma cb_step_ok:
  assumes ok: "cb_ok cb" and fits: "op_fits op"
  shows "\<exists>c. cb_step op (Some cb) = Some (fst (list_step (cb_size cb) op (cb_list cb)), Some c) \<and>
    cb_ok c \<and> maxlen c = maxlen cb \<and> cb_list c = snd (list_step (cb_size cb) op (cb_list cb))"
proof (cases op)
  case (Add_head x)
  show ?thesis
  proof (cases "unat (len cb) < cb_size cb")
    case True
    then show ?thesis using cirbuf_add_head_ok [OF ok True, of x] Add_head
      by (auto simp: cirbuf_add_head_safe_def full_iff [OF ok])
  next
    case False
    then show ?thesis using ok Add_head cb_facts(5) [OF ok]
      by (auto simp: cirbuf_add_head_safe_def full_iff [OF ok])
  qed
next
  case (Add_tail x)
  show ?thesis
  proof (cases "unat (len cb) < cb_size cb")
    case True
    then show ?thesis using cirbuf_add_tail_ok [OF ok True, of x] Add_tail
      by (auto simp: cirbuf_add_tail_safe_def full_iff [OF ok])
  next
    case False
    then show ?thesis using ok Add_tail cb_facts(5) [OF ok]
      by (auto simp: cirbuf_add_tail_safe_def full_iff [OF ok])
  qed
next
  case (Add_buf_head xs)
  then have f: "length xs < 2 ^ 32" using fits by simp
  note B = buf_length_word [OF f ok]
  show ?thesis
  proof (cases "xs \<noteq> [] \<and> length xs + length (cb_list cb) \<le> cb_size cb")
    case True
    then show ?thesis using cirbuf_add_buf_head_ok [OF ok, of "of_nat (length xs)" xs] B Add_buf_head by simp
  next
    case False
    then show ?thesis using B Add_buf_head ok by (auto simp: cirbuf_add_buf_head_def not_le [symmetric])
  qed
next
  case (Add_buf_tail xs)
  then have f: "length xs < 2 ^ 32" using fits by simp
  note B = buf_length_word [OF f ok]
  show ?thesis
  proof (cases "xs \<noteq> [] \<and> length xs + length (cb_list cb) \<le> cb_size cb")
    case True
    then show ?thesis using cirbuf_add_buf_tail_ok [OF ok, of "of_nat (length xs)" xs] B Add_buf_tail by simp
  next
    case False
    then show ?thesis using B Add_buf_tail ok by (auto simp: cirbuf_add_buf_tail_def not_le [symmetric])
  qed
next
  case Del_head
  then show ?thesis using ok cirbuf_del_head_ok [OF ok] head.emp_iff [OF ok] nonempty_len [of cb]
    by (auto simp: cirbuf_del_head_safe_def)
next
  case Del_tail
  then show ?thesis using ok cirbuf_del_tail_ok [OF ok] head.emp_iff [OF ok] nonempty_len [of cb]
    by (auto simp: cirbuf_del_tail_safe_def)
next
  case (Del_buf_head n)
  then show ?thesis using ok cirbuf_del_buf_head_ok [OF ok, of n]
    by (auto simp: cirbuf_del_buf_head_def CIRBUF_GET_LEN_def len_le_iff not_le [symmetric])
next
  case (Del_buf_tail n)
  then show ?thesis using ok cirbuf_del_buf_tail_ok [OF ok, of n]
    by (auto simp: cirbuf_del_buf_tail_def CIRBUF_GET_LEN_def len_le_iff not_le [symmetric])
next
  case Align_left
  then show ?thesis using align_left_ok [OF ok] by (auto simp: same_as_def)
next
  case Align_right
  then show ?thesis using align_right_ok [OF ok] by (auto simp: same_as_def)
qed

fun cb_session :: "'a cb_op list \<Rightarrow> 'a cirbuf option \<Rightarrow> (int list \<times> 'a cirbuf option) option" where
  "cb_session [] cb = Some ([], cb)"
| "cb_session (op # ops) cb = do {
     (r, cb) \<leftarrow> cb_step op cb;
     (rs, cb) \<leftarrow> cb_session ops cb;
     Some (r # rs, cb) }"

fun list_session :: "nat \<Rightarrow> 'a cb_op list \<Rightarrow> 'a list \<Rightarrow> int list \<times> 'a list" where
  "list_session m [] l = ([], l)"
| "list_session m (op # ops) l =
    (case list_step m op l of (r, l') \<Rightarrow> case list_session m ops l' of (rs, l'') \<Rightarrow> (r # rs, l''))"

text \<open>A freshly initialised buffer.\<close>

lemma cirbuf_init_ok:
  assumes "0 < unat m" "unat m < 2 ^ 31" "length b = unat m" "s < m"
  shows "\<exists>cb. cirbuf_init (Some c) (Some b) s m = (0, Some cb) \<and> cb_ok cb \<and> cb_list cb = [] \<and> cb_size cb = unat m"
  using assms by (auto simp: cirbuf_init_def cb_ok_def cb_size_def cb_list_def word_less_nat_alt)

definition sample_cirbuf :: "nat cirbuf" where
  "sample_cirbuf = \<lparr>maxlen = 4, start = 3, end_at = 0, len = 2, buf = [11, 0, 0, 10]\<rparr>"

lemma sample_cirbuf_ok: "cb_ok sample_cirbuf" "cb_list sample_cirbuf = [10, 11]" "cb_size sample_cirbuf = 4"
  by (simp_all add: sample_cirbuf_def cb_ok_def cb_size_def cb_list_def upt_conv_Cons)

text \<open>C23: any sequence of operations on a circular buffer, from any position of its indices, never accesses memory
  outside it, answers call by call like the same operations on a list bounded by its size, and leaves that list.\<close>

theorem cirbuf_session_is_list:
  assumes "cb_ok cb" "\<forall>op \<in> set ops. op_fits op"
  shows "\<exists>c. cb_session ops (Some cb) = Some (fst (list_session (cb_size cb) ops (cb_list cb)), Some c) \<and>
    cb_ok c \<and> cb_list c = snd (list_session (cb_size cb) ops (cb_list cb))"
  using assms
proof (induction ops arbitrary: cb)
  case (Cons op ops)
  obtain c where c: "cb_step op (Some cb) = Some (fst (list_step (cb_size cb) op (cb_list cb)), Some c)"
    "cb_ok c" "maxlen c = maxlen cb" "cb_list c = snd (list_step (cb_size cb) op (cb_list cb))"
    using cb_step_ok [OF Cons.prems(1), of op] Cons.prems(2) by auto
  have "cb_size c = cb_size cb" using c(3) by (simp add: cb_size_def)
  moreover obtain c' where "cb_session ops (Some c) = Some (fst (list_session (cb_size c) ops (cb_list c)), Some c')"
    "cb_ok c'" "cb_list c' = snd (list_session (cb_size c) ops (cb_list c))"
    using Cons.IH [OF c(2)] Cons.prems(2) by auto
  ultimately show ?case using c(1,4) by (auto split: prod.splits)
qed simp

theorem cirbuf_session_is_list_witness:
  "\<exists>c. cb_session [Add_buf_tail [12, 13], Add_head 9, Del_head, Align_left, Del_buf_tail 2, Add_buf_head [7, 8]]
      (Some sample_cirbuf) = Some ([2, - 22, 0, 0, 0, 2], Some c) \<and> cb_list c = [7, 8, 11]"
  using cirbuf_session_is_list [of sample_cirbuf
      "[Add_buf_tail [12, 13], Add_head 9, Del_head, Align_left, Del_buf_tail 2, Add_buf_head [7, 8]]"]
  by (auto simp: sample_cirbuf_ok)

text \<open>C24: \<open>cirbuf_get_buf_head\<close> copies the first elements, as many as asked for and present.
  \<open>cirbuf_get_buf_tail\<close> copies the last ones, except when they wrap around the end of the buffer and only part of
  the content is asked for: then it writes past the end of a caller's buffer of the size asked for.\<close>

theorem cirbuf_readers:
  assumes "cb_ok cb" "length out = unat n"
  shows "let k = min (unat n) (length (cb_list cb)) in
    cirbuf_get_buf_head (Some cb) (Some out) n = Some (int k, Some (take k (cb_list cb) @ drop k out)) \<and>
    cirbuf_get_buf_tail (Some cb) (Some out) n =
      (if start cb \<le> end_at cb \<or> k \<le> unat (end_at cb) + 1 \<or> k = length (cb_list cb)
       then Some (int k, Some (drop (length (cb_list cb) - k) (cb_list cb) @ drop k out)) else None)"
proof -
  have k: "min (unat n) (length (cb_list cb)) = copied cb n" by (simp add: copied_def)
  have "tail_reads_well cb (copied cb n) \<longleftrightarrow>
    start cb \<le> end_at cb \<or> copied cb n \<le> unat (end_at cb) + 1 \<or> copied cb n = length (cb_list cb)"
    using wrap_iff(1) [OF assms(1)] by (cases "unat (len cb) = 0") (auto simp: tail_reads_well_def copied_def)
  then show ?thesis
    unfolding Let_def k
    using cirbuf_get_buf_head_ok [OF assms(1), of n out] cirbuf_get_buf_tail_cases [OF assms] assms(2) by simp
qed

definition sample_wrapped :: "nat cirbuf" where
  "sample_wrapped = \<lparr>maxlen = 4, start = 2, end_at = 0, len = 3, buf = [12, 0, 10, 11]\<rparr>"

theorem cirbuf_readers_witness:
  "cirbuf_get_buf_head (Some sample_wrapped) (Some [0, 0]) 2 = Some (2, Some [10, 11]) \<and>
   cirbuf_get_buf_tail (Some sample_wrapped) (Some [0, 0]) 2 = None"
  using cirbuf_readers [of sample_wrapped "[0, 0]" 2]
  by (simp add: sample_wrapped_def cb_ok_def cb_size_def cb_list_def upt_conv_Cons)

text \<open>C25: the alignments return and keep the content.  \<open>cirbuf_align_left\<close> moves it to index 0, as documented.
  \<open>cirbuf_align_right\<close> moves its end to the last index only when it starts in the upper half of the
  buffer; otherwise it moves its start there.\<close>

theorem cirbuf_align_returns:
  assumes "cb_ok cb"
  shows "\<exists>l r. cirbuf_align_left (Some cb) = Some (0, Some l) \<and> cb_ok l \<and> cb_list l = cb_list cb \<and> start l = 0 \<and>
    cirbuf_align_right (Some cb) = Some (0, Some r) \<and> cb_ok r \<and> cb_list r = cb_list cb \<and>
    (if start cb \<ge> maxlen cb div 2 then end_at r = maxlen cb - 1 else start r = maxlen cb - 1)"
proof -
  obtain l where l: "cirbuf_align_left (Some cb) = Some (0, Some l)" "same_as cb l" "start l = 0"
    using align_left_ok [OF assms] by blast
  obtain r where r: "cirbuf_align_right (Some cb) = Some (0, Some r)" "same_as cb r"
    "if start cb \<ge> maxlen cb div 2 then end_at r = maxlen r - 1 else start r = maxlen r - 1"
    using align_right_ok [OF assms] by blast
  show ?thesis
    by (intro exI [of _ l] exI [of _ r]) (use l r in \<open>simp add: same_as_def\<close>)
qed

definition sample_low :: "nat cirbuf" where
  "sample_low = \<lparr>maxlen = 4, start = 0, end_at = 1, len = 2, buf = [10, 11, 0, 0]\<rparr>"

theorem cirbuf_align_returns_witness:
  "\<exists>r. cirbuf_align_right (Some sample_low) = Some (0, Some r) \<and> cb_list r = [10, 11] \<and> start r = 3 \<and> end_at r = 0"
proof -
  have ok: "cb_ok sample_low" "cb_list sample_low = [10, 11]" "start sample_low = 0" "maxlen sample_low = 4"
    by (simp_all add: sample_low_def cb_ok_def cb_size_def cb_list_def upt_conv_Cons)
  obtain r where r: "cirbuf_align_right (Some sample_low) = Some (0, Some r)" "cb_ok r" "cb_list r = [10, 11]" "start r = 3"
    using cirbuf_align_returns [OF ok(1)] ok by auto
  have "maxlen r = 4" using r(1) align_right_ok [OF ok(1)] ok(4) by (auto simp: same_as_def)
  then have m: "cb_size r = 4" by (simp add: cb_size_def)
  have "unat (len r) = 2" using r(3) length_cb_list [of r] by simp
  then have "unat (end_at r) = 0" using cb_facts(8) [OF r(2)] r(4) m by simp
  then have "end_at r = 0" by (simp add: unat_eq_0)
  then show ?thesis using r by blast
qed

end
