(* ===== verification/Cmdline_Vt100.thy ===== *)
theory Cmdline_Vt100
  imports Dpdk_Prelude
begin

text \<open>
  lib/librte_cmdline/cmdline_vt100.c: the recogniser of control sequences.
  Characters are bytes.  The parser is called with the address of a field of the
  line editor, so its pointer is not an option.  \<open>bufpos\<close> never exceeds 8, so it
  is a natural number.
\<close>

datatype vt100_state = CMDLINE_VT100_INIT | CMDLINE_VT100_ESCAPE | CMDLINE_VT100_ESCAPE_CSI

definition CMDLINE_VT100_BUF_SIZE :: nat where [simp]: "CMDLINE_VT100_BUF_SIZE = 8"

record cmdline_vt100 =
  bufpos :: nat
  vt_buf :: "u8 list"
  vt_state :: vt100_state

text \<open>The sequences, by the index that the key constants name.\<close>

definition cmdline_vt100_commands :: "u8 list list" where
  "cmdline_vt100_commands =
    [[27, 91, 65], [27, 91, 66], [27, 91, 67], [27, 91, 68], [127], [10], [1], [5], [11], [25],
     [3], [6], [2], [27, 91, 51, 126], [9], [4], [12], [13], [27, 127], [27, 98],
     [27, 102], [63], [23], [16], [14], [27, 100]]"

definition vt100_init :: "cmdline_vt100 \<Rightarrow> cmdline_vt100" where
  "vt100_init vt = vt\<lparr>vt_state := CMDLINE_VT100_INIT\<rparr>"

definition match_command :: "u8 list \<Rightarrow> nat \<Rightarrow> int" where
  "match_command buf n =
    (case List.find (\<lambda>i. n = length (cmdline_vt100_commands ! i) \<and>
        take n buf = cmdline_vt100_commands ! i) [0..<length cmdline_vt100_commands] of
       Some i \<Rightarrow> int i | None \<Rightarrow> -1)"

definition vt100_parser :: "cmdline_vt100 \<Rightarrow> u8 \<Rightarrow> int \<times> cmdline_vt100" where
  "vt100_parser vt c =
    (let vt = (if bufpos vt \<ge> CMDLINE_VT100_BUF_SIZE
               then vt\<lparr>vt_state := CMDLINE_VT100_INIT, bufpos := 0\<rparr> else vt);
         vt = vt\<lparr>vt_buf := (vt_buf vt)[bufpos vt := c], bufpos := bufpos vt + 1\<rparr>;
         n = bufpos vt
     in case vt_state vt of
          CMDLINE_VT100_INIT \<Rightarrow>
            if c = 27 then (-2, vt\<lparr>vt_state := CMDLINE_VT100_ESCAPE\<rparr>)
            else (match_command (vt_buf vt) n, vt\<lparr>bufpos := 0\<rparr>)
        | CMDLINE_VT100_ESCAPE \<Rightarrow>
            if c = 91 then (-2, vt\<lparr>vt_state := CMDLINE_VT100_ESCAPE_CSI\<rparr>)
            else if c \<ge> 48 \<and> c \<le> 127
            then (match_command (vt_buf vt) n, vt\<lparr>bufpos := 0, vt_state := CMDLINE_VT100_INIT\<rparr>)
            else (-2, vt)
        | CMDLINE_VT100_ESCAPE_CSI \<Rightarrow>
            if c \<ge> 64 \<and> c \<le> 126
            then (match_command (vt_buf vt) n, vt\<lparr>bufpos := 0, vt_state := CMDLINE_VT100_INIT\<rparr>)
            else (-2, vt))"

section \<open>Properties\<close>

text \<open>The states the parser can be in between characters.\<close>

definition vt_ok :: "cmdline_vt100 \<Rightarrow> bool" where
  "vt_ok vt \<longleftrightarrow> length (vt_buf vt) = 8 \<and> bufpos vt \<le> 8"

definition vt_idle :: "cmdline_vt100 \<Rightarrow> bool" where
  "vt_idle vt \<longleftrightarrow> vt_ok vt \<and> vt_state vt = CMDLINE_VT100_INIT \<and> bufpos vt = 0"

fun vt100_run :: "cmdline_vt100 \<Rightarrow> u8 list \<Rightarrow> int list \<times> cmdline_vt100" where
  "vt100_run vt [] = ([], vt)"
| "vt100_run vt (c # cs) =
    (case vt100_parser vt c of (r, vt) \<Rightarrow> case vt100_run vt cs of (rs, vt) \<Rightarrow> (r # rs, vt))"

lemma vt100_parser_ok: "vt_ok vt \<Longrightarrow> vt_ok (snd (vt100_parser vt c))"
  by (auto simp: vt100_parser_def vt_ok_def Let_def split: vt100_state.splits)

lemma length_8: "length xs = 8 \<longleftrightarrow> (\<exists>a b c d e f g h. xs = [a, b, c, d, e, f, g, h])"
  by (auto simp: eval_nat_numeral length_Suc_conv)

lemma command_count: "length cmdline_vt100_commands = 26"
  by (simp add: cmdline_vt100_commands_def)

text \<open>The sequences are pairwise different, so a complete one is found under its index.\<close>

lemma match_own:
  assumes "i < 26" "take (length (cmdline_vt100_commands ! i)) b = cmdline_vt100_commands ! i"
  shows "match_command b (length (cmdline_vt100_commands ! i)) = int i"
proof -
  let ?P = "\<lambda>j. length (cmdline_vt100_commands ! i) = length (cmdline_vt100_commands ! j) \<and>
      take (length (cmdline_vt100_commands ! i)) b = cmdline_vt100_commands ! j"
  have d: "distinct cmdline_vt100_commands" by (simp add: cmdline_vt100_commands_def)
  have "List.find ?P [0..<26] = Some i"
    unfolding find_Some_iff
    using assms d by (intro exI [of _ i]) (auto simp: nth_eq_iff_index_eq command_count)
  then show ?thesis by (simp add: match_command_def command_count)
qed

text \<open>The shapes of sequences the parser follows to their end.\<close>

fun followed :: "u8 list \<Rightarrow> bool" where
  "followed [c] \<longleftrightarrow> c \<noteq> 27"
| "followed [c, d] \<longleftrightarrow> c = 27 \<and> d \<noteq> 91 \<and> 48 \<le> d \<and> d \<le> 127"
| "followed [c, d, e] \<longleftrightarrow> c = 27 \<and> d = 91 \<and> 64 \<le> e \<and> e \<le> 126"
| "followed [c, d, e, f] \<longleftrightarrow> c = 27 \<and> d = 91 \<and> \<not> (64 \<le> e \<and> e \<le> 126) \<and> 64 \<le> f \<and> f \<le> 126"
| "followed _ \<longleftrightarrow> False"

lemma commands_followed: "i < 26 \<Longrightarrow> followed (cmdline_vt100_commands ! i)"
proof -
  have "list_all followed cmdline_vt100_commands" by (simp add: cmdline_vt100_commands_def)
  then show "i < 26 \<Longrightarrow> followed (cmdline_vt100_commands ! i)" by (simp add: list_all_length command_count)
qed

lemma run_followed:
  assumes "vt_idle vt" "followed s"
  shows "\<exists>vt' b. vt100_run vt s = (replicate (length s - 1) (-2) @ [match_command b (length s)], vt') \<and>
    take (length s) b = s \<and> vt_idle vt'"
proof -
  obtain b0 b1 b2 b3 b4 b5 b6 b7 where b: "vt_buf vt = [b0, b1, b2, b3, b4, b5, b6, b7]"
    using assms(1) by (auto simp: vt_idle_def vt_ok_def length_8)
  show ?thesis
    using assms b
    by (cases s rule: followed.cases)
      (auto simp: vt100_parser_def Let_def vt_idle_def vt_ok_def intro!: exI [where P = "\<lambda>b. match_command _ _ = match_command b _ \<and> _ b"])
qed

lemma idle_char:
  assumes "vt_idle vt" "c \<noteq> 27"
  shows "\<exists>b vt'. vt100_parser vt c = (match_command (c # b) 1, vt') \<and> vt_idle vt'"
proof -
  obtain b0 b1 b2 b3 b4 b5 b6 b7 where "vt_buf vt = [b0, b1, b2, b3, b4, b5, b6, b7]"
    using assms(1) by (auto simp: vt_idle_def vt_ok_def length_8)
  then show ?thesis
    using assms by (auto simp: vt100_parser_def Let_def vt_idle_def vt_ok_def)
qed

lemma match_single:
  "match_command (c # b) 1 = (case List.find (\<lambda>i. cmdline_vt100_commands ! i = [c]) [0..<26] of Some i \<Rightarrow> int i | None \<Rightarrow> -1)"
proof -
  have "(1 = length (cmdline_vt100_commands ! i) \<and> take 1 (c # b) = cmdline_vt100_commands ! i) \<longleftrightarrow>
      cmdline_vt100_commands ! i = [c]" for i by auto
  then show ?thesis by (simp only: match_command_def command_count)
qed

text \<open>A printable character other than the question mark is no command.\<close>

lemma match_printable:
  assumes "32 \<le> c" "c \<le> 126" "c \<noteq> 63"
  shows "match_command (c # b) 1 = -1"
proof -
  have "List.find (\<lambda>i. cmdline_vt100_commands ! i = [c]) [0..<26] = None"
    using assms by (auto simp: find_None_iff cmdline_vt100_commands_def nth_Cons' upt_conv_Cons word_le_nat_alt)
  then show ?thesis unfolding match_single by simp
qed

definition idle_vt :: cmdline_vt100 where
  "idle_vt = \<lparr>bufpos = 0, vt_buf = replicate 8 0, vt_state = CMDLINE_VT100_INIT\<rparr>"

text \<open>C26: fed with the bytes of any of the 26 control sequences, the idle parser answers -2 until the last byte,
  then the index of the sequence, and is idle again.\<close>

theorem vt100_recognises:
  assumes "vt_idle vt" "i < 26"
  shows "\<exists>vt'. vt100_run vt (cmdline_vt100_commands ! i) =
      (replicate (length (cmdline_vt100_commands ! i) - 1) (-2) @ [int i], vt') \<and> vt_idle vt'"
  using run_followed [OF assms(1) commands_followed [OF assms(2)]] match_own [OF assms(2)] by auto

theorem vt100_recognises_witness:
  "\<exists>vt'. vt100_run idle_vt [27, 91, 51, 126] = ([-2, -2, -2, 13], vt') \<and> vt_idle vt'"
  using vt100_recognises [of idle_vt 13]
  by (auto simp: cmdline_vt100_commands_def idle_vt_def vt_idle_def vt_ok_def eval_nat_numeral)

text \<open>A buffer of two or more bytes that ends in a newline is no command.\<close>

lemma match_newline:
  assumes "1 \<le> n" "n < length b" "b ! n = 10"
  shows "match_command b (Suc n) = -1"
proof -
  have l: "list_all (\<lambda>c. 2 \<le> length c \<longrightarrow> last c \<noteq> 10) cmdline_vt100_commands"
    by (simp add: cmdline_vt100_commands_def)
  have "\<not> (Suc n = length (cmdline_vt100_commands ! i) \<and> take (Suc n) b = cmdline_vt100_commands ! i)"
    if "i < 26" for i
  proof
    assume a: "Suc n = length (cmdline_vt100_commands ! i) \<and> take (Suc n) b = cmdline_vt100_commands ! i"
    have "last (take (Suc n) b) = 10" using assms by (simp add: take_Suc_conv_app_nth)
    moreover have "last (cmdline_vt100_commands ! i) \<noteq> 10"
      using l that a assms(1) by (auto simp: list_all_length command_count)
    ultimately show False using a by metis
  qed
  then have "List.find (\<lambda>i. Suc n = length (cmdline_vt100_commands ! i) \<and>
      take (Suc n) b = cmdline_vt100_commands ! i) [0..<26] = None"
    by (auto simp: find_None_iff)
  then show ?thesis by (simp add: match_command_def command_count)
qed



end
