(* ===== verification/Cmdline_Rdline.thy ===== *)
theory Cmdline_Rdline
  imports Cirbuf_Correct Cmdline_Vt100
begin

text \<open>
  lib/librte_cmdline/cmdline_rdline.c: the line editor.  The line is kept in two
  circular buffers, the characters before the caret in \<open>left\<close> and those after it
  in \<open>right\<close>.

  The first \<open>RDLINE_BUF_SIZE\<close> bytes of the array \<open>left_buf\<close> are the memory of the
  buffer \<open>left\<close> and are kept there; the two bytes reserved for the end of the
  line are \<open>left_extra\<close>.  \<open>right_buf\<close> and \<open>history_buf\<close> are the memories of \<open>right\<close>
  and \<open>history\<close>.  \<open>write_char\<close> sends a character to the terminal, here to the end of
  the list \<open>sent\<close>.  \<open>validate\<close> and \<open>complete\<close> belong to the application and are
  parameters.  A result \<open>None\<close> is an access outside an array or a loop that does
  not end.  Constant strings are written without their final NUL.
\<close>

section \<open>State\<close>

datatype rdline_status = RDLINE_INIT | RDLINE_RUNNING | RDLINE_EXITED

record rdline =
  status :: rdline_status
  left :: "u8 cirbuf"
  right :: "u8 cirbuf"
  left_extra :: "u8 list"
  prompt :: "u8 list"
  prompt_size :: nat
  kill_buf :: "u8 list"
  kill_size :: u32
  history :: "u8 cirbuf"
  history_cur_line :: int
  vt100 :: cmdline_vt100
  sent :: "u8 list"

abbreviation RDLINE_BUF_SIZE :: nat where "RDLINE_BUF_SIZE \<equiv> 256"
abbreviation RDLINE_PROMPT_SIZE :: nat where "RDLINE_PROMPT_SIZE \<equiv> 32"
abbreviation BUFSIZ :: nat where "BUFSIZ \<equiv> 8192"
abbreviation RDLINE_HISTORY_BUF_SIZE :: nat where "RDLINE_HISTORY_BUF_SIZE \<equiv> BUFSIZ"

definition RDLINE_RES_SUCCESS :: int where "RDLINE_RES_SUCCESS = 0"
definition RDLINE_RES_VALIDATED :: int where "RDLINE_RES_VALIDATED = 1"
definition RDLINE_RES_COMPLETE :: int where "RDLINE_RES_COMPLETE = 2"
definition RDLINE_RES_NOT_RUNNING :: int where "RDLINE_RES_NOT_RUNNING = -1"
definition RDLINE_RES_EOF :: int where "RDLINE_RES_EOF = -2"
definition RDLINE_RES_EXITED :: int where "RDLINE_RES_EXITED = -3"

definition vt100_bs :: "u8 list" where "vt100_bs = [8]"
definition vt100_clear_right :: "u8 list" where "vt100_clear_right = [27, 91, 48, 75]"
definition vt100_right_arr :: "u8 list" where "vt100_right_arr = [27, 91, 67]"
definition vt100_left_arr :: "u8 list" where "vt100_left_arr = [27, 91, 68]"
definition vt100_multi_right :: "u8 list" where "vt100_multi_right = [27, 91, 37, 117, 67]"
definition vt100_multi_left :: "u8 list" where "vt100_multi_left = [27, 91, 37, 117, 68]"
definition vt100_home :: "u8 list" where "vt100_home = [27, 77, 27, 69]"
definition crnl :: "u8 list" where "crnl = [13, 10]"

text \<open>The result of \<open>vt100_parser\<close> for each key.\<close>

definition CMDLINE_KEY_UP_ARR :: int where "CMDLINE_KEY_UP_ARR = 0"
definition CMDLINE_KEY_DOWN_ARR :: int where "CMDLINE_KEY_DOWN_ARR = 1"
definition CMDLINE_KEY_RIGHT_ARR :: int where "CMDLINE_KEY_RIGHT_ARR = 2"
definition CMDLINE_KEY_LEFT_ARR :: int where "CMDLINE_KEY_LEFT_ARR = 3"
definition CMDLINE_KEY_BKSPACE :: int where "CMDLINE_KEY_BKSPACE = 4"
definition CMDLINE_KEY_RETURN :: int where "CMDLINE_KEY_RETURN = 5"
definition CMDLINE_KEY_CTRL_A :: int where "CMDLINE_KEY_CTRL_A = 6"
definition CMDLINE_KEY_CTRL_E :: int where "CMDLINE_KEY_CTRL_E = 7"
definition CMDLINE_KEY_CTRL_K :: int where "CMDLINE_KEY_CTRL_K = 8"
definition CMDLINE_KEY_CTRL_Y :: int where "CMDLINE_KEY_CTRL_Y = 9"
definition CMDLINE_KEY_CTRL_C :: int where "CMDLINE_KEY_CTRL_C = 10"
definition CMDLINE_KEY_CTRL_F :: int where "CMDLINE_KEY_CTRL_F = 11"
definition CMDLINE_KEY_CTRL_B :: int where "CMDLINE_KEY_CTRL_B = 12"
definition CMDLINE_KEY_SUPPR :: int where "CMDLINE_KEY_SUPPR = 13"
definition CMDLINE_KEY_TAB :: int where "CMDLINE_KEY_TAB = 14"
definition CMDLINE_KEY_CTRL_D :: int where "CMDLINE_KEY_CTRL_D = 15"
definition CMDLINE_KEY_CTRL_L :: int where "CMDLINE_KEY_CTRL_L = 16"
definition CMDLINE_KEY_RETURN2 :: int where "CMDLINE_KEY_RETURN2 = 17"
definition CMDLINE_KEY_META_BKSPACE :: int where "CMDLINE_KEY_META_BKSPACE = 18"
definition CMDLINE_KEY_WLEFT :: int where "CMDLINE_KEY_WLEFT = 19"
definition CMDLINE_KEY_WRIGHT :: int where "CMDLINE_KEY_WRIGHT = 20"
definition CMDLINE_KEY_HELP :: int where "CMDLINE_KEY_HELP = 21"
definition CMDLINE_KEY_CTRL_W :: int where "CMDLINE_KEY_CTRL_W = 22"
definition CMDLINE_KEY_CTRL_P :: int where "CMDLINE_KEY_CTRL_P = 23"
definition CMDLINE_KEY_CTRL_N :: int where "CMDLINE_KEY_CTRL_N = 24"
definition CMDLINE_KEY_META_D :: int where "CMDLINE_KEY_META_D = 25"

lemmas key_defs =
  CMDLINE_KEY_UP_ARR_def CMDLINE_KEY_DOWN_ARR_def CMDLINE_KEY_RIGHT_ARR_def CMDLINE_KEY_LEFT_ARR_def
  CMDLINE_KEY_BKSPACE_def CMDLINE_KEY_RETURN_def CMDLINE_KEY_CTRL_A_def CMDLINE_KEY_CTRL_E_def
  CMDLINE_KEY_CTRL_K_def CMDLINE_KEY_CTRL_Y_def CMDLINE_KEY_CTRL_C_def CMDLINE_KEY_CTRL_F_def
  CMDLINE_KEY_CTRL_B_def CMDLINE_KEY_SUPPR_def CMDLINE_KEY_TAB_def CMDLINE_KEY_CTRL_D_def
  CMDLINE_KEY_CTRL_L_def CMDLINE_KEY_RETURN2_def CMDLINE_KEY_META_BKSPACE_def CMDLINE_KEY_WLEFT_def
  CMDLINE_KEY_WRIGHT_def CMDLINE_KEY_HELP_def CMDLINE_KEY_CTRL_W_def CMDLINE_KEY_CTRL_P_def
  CMDLINE_KEY_CTRL_N_def CMDLINE_KEY_META_D_def

lemmas res_defs =
  RDLINE_RES_SUCCESS_def RDLINE_RES_VALIDATED_def RDLINE_RES_COMPLETE_def RDLINE_RES_NOT_RUNNING_def
  RDLINE_RES_EOF_def RDLINE_RES_EXITED_def

section \<open>Output\<close>

definition isblank2 :: "u8 \<Rightarrow> bool" where
  "isblank2 c \<longleftrightarrow> c = 32 \<or> c = 9"

definition is_print :: "u8 \<Rightarrow> bool" where
  "is_print c \<longleftrightarrow> 32 \<le> c \<and> c \<le> 126"

definition write_char :: "rdline \<Rightarrow> u8 \<Rightarrow> rdline" where
  "write_char rdl c = rdl\<lparr>sent := sent rdl @ [c]\<rparr>"

fun rdline_puts :: "rdline \<Rightarrow> u8 list \<Rightarrow> rdline" where
  "rdline_puts rdl [] = rdl"
| "rdline_puts rdl (c # cs) = rdline_puts (write_char rdl c) cs"

text \<open>The loop \<open>while (div)\<close> of \<open>rdline_miniprintf\<close>.\<close>

function print_digits :: "rdline \<Rightarrow> nat \<Rightarrow> u32 \<Rightarrow> bool \<Rightarrow> rdline \<times> u32 \<times> bool" where
  "print_digits rdl d val started =
    (if d = 0 then (rdl, val, started)
     else let c = ucast (val div of_nat d) :: u8
          in if c \<noteq> 0 \<or> started
             then print_digits (write_char rdl (c + 48)) (d div 10) (val mod of_nat d) True
             else print_digits rdl (d div 10) (val mod of_nat d) started)"
  by pat_completeness auto
termination by (relation "measure (\<lambda>(_, d, _, _). d)") auto

declare print_digits.simps [simp del]

text \<open>
  \<open>div\<close> and \<open>started\<close> keep their values between two formats.  Formats are constants of the
  library and none ends in a percent sign.
\<close>

fun rdline_miniprintf :: "rdline \<Rightarrow> u8 list \<Rightarrow> u32 \<Rightarrow> nat \<Rightarrow> bool \<Rightarrow> rdline" where
  "rdline_miniprintf rdl [] val d started = rdl"
| "rdline_miniprintf rdl [c] val d started = write_char rdl c"
| "rdline_miniprintf rdl (c # f # cs) val d started =
    (if c \<noteq> 37 then rdline_miniprintf (write_char rdl c) (f # cs) val d started
     else if f \<noteq> 117 then rdline_miniprintf (write_char (write_char rdl 37) f) cs val d started
     else case print_digits rdl d val started of (rdl, val, started) \<Rightarrow> rdline_miniprintf rdl cs val 0 started)"

definition miniprintf :: "rdline \<Rightarrow> u8 list \<Rightarrow> u32 \<Rightarrow> rdline" where
  "miniprintf rdl fmt val = rdline_miniprintf rdl fmt val 100 False"

section \<open>Life cycle\<close>

definition zero_cirbuf :: "nat \<Rightarrow> u8 cirbuf" where
  "zero_cirbuf n = \<lparr>maxlen = 0, start = 0, end_at = 0, len = 0, buf = replicate n 0\<rparr>"

text \<open>\<open>cirbuf_init(cb, <its memory>, 0, n)\<close>\<close>

definition cleared :: "u8 cirbuf \<Rightarrow> nat \<Rightarrow> u8 cirbuf" where
  "cleared cb n = the (snd (cirbuf_init (Some cb) (Some (buf cb)) 0 (of_nat n)))"

text \<open>The state \<open>memset\<close> leaves.  The history's memory is attached by \<open>cirbuf_init\<close>.\<close>

definition zero_rdline :: rdline where
  "zero_rdline = \<lparr>status = RDLINE_INIT, left = zero_cirbuf RDLINE_BUF_SIZE, right = zero_cirbuf RDLINE_BUF_SIZE,
     left_extra = replicate 2 0, prompt = replicate RDLINE_PROMPT_SIZE 0, prompt_size = 0,
     kill_buf = replicate RDLINE_BUF_SIZE 0, kill_size = 0, history = zero_cirbuf RDLINE_HISTORY_BUF_SIZE,
     history_cur_line = 0, vt100 = \<lparr>bufpos = 0, vt_buf = replicate 8 0, vt_state = CMDLINE_VT100_INIT\<rparr>, sent = []\<rparr>"

definition rdline_init :: "rdline option \<Rightarrow> 'w option \<Rightarrow> 'v option \<Rightarrow> 'c option \<Rightarrow> int \<times> rdline option" where
  "rdline_init rdl write_char_cb validate complete =
    (if rdl = None \<or> write_char_cb = None \<or> validate = None \<or> complete = None then (- EINVAL, rdl)
     else case cirbuf_init (Some (history zero_rdline)) (Some (buf (history zero_rdline))) 0
            (of_nat RDLINE_HISTORY_BUF_SIZE) of
            (r, h) \<Rightarrow> (r, Some (zero_rdline\<lparr>status := RDLINE_INIT, history := the h\<rparr>)))"

text \<open>\<open>strnlen\<close> of a string in memory: it reads up to the NUL or \<open>n\<close> bytes.\<close>

definition strnlen :: "u8 list \<Rightarrow> nat \<Rightarrow> nat option" where
  "strnlen s n = (let k = length (takeWhile (\<lambda>c. c \<noteq> 0) (take n s)) in if k = n \<or> k < length s then Some k else None)"

text \<open>The prompt to show: the one of the editor itself, or a string of the caller.\<close>

datatype prompt_arg = Own_prompt | Prompt "u8 list"

definition new_line :: "rdline \<Rightarrow> rdline" where
  "new_line rdl = rdl\<lparr>vt100 := vt100_init (vt100 rdl), left := cleared (left rdl) RDLINE_BUF_SIZE,
     right := cleared (right rdl) RDLINE_BUF_SIZE\<rparr>"

definition rdline_newline :: "rdline option \<Rightarrow> prompt_arg option \<Rightarrow> rdline option option" where
  "rdline_newline rdl pr =
    (case (rdl, pr) of
      (Some rdl, Some pr) \<Rightarrow> do {
        let rdl = new_line rdl;
        let s = (case pr of Own_prompt \<Rightarrow> prompt rdl | Prompt s \<Rightarrow> s);
        n \<leftarrow> strnlen s (RDLINE_PROMPT_SIZE - 1);
        let rdl = rdl\<lparr>prompt_size := n\<rparr>;
        p \<leftarrow> (if pr = Own_prompt then Some (prompt rdl) else memcpy (prompt rdl) 0 s 0 n);
        p \<leftarrow> write_at p (RDLINE_PROMPT_SIZE - 1) 0;
        let rdl = rdline_puts (rdl\<lparr>prompt := p\<rparr>) (take n p);
        Some (Some (rdl\<lparr>status := RDLINE_RUNNING, history_cur_line := -1\<rparr>)) }
    | _ \<Rightarrow> Some rdl)"

definition rdline_stop :: "rdline option \<Rightarrow> rdline option" where
  "rdline_stop rdl = (case rdl of None \<Rightarrow> None | Some rdl \<Rightarrow> Some (rdl\<lparr>status := RDLINE_INIT\<rparr>))"

definition rdline_quit :: "rdline option \<Rightarrow> rdline option" where
  "rdline_quit rdl = (case rdl of None \<Rightarrow> None | Some rdl \<Rightarrow> Some (rdl\<lparr>status := RDLINE_EXITED\<rparr>))"

definition rdline_restart :: "rdline option \<Rightarrow> rdline option" where
  "rdline_restart rdl = (case rdl of None \<Rightarrow> None | Some rdl \<Rightarrow> Some (rdl\<lparr>status := RDLINE_RUNNING\<rparr>))"

definition rdline_reset :: "rdline option \<Rightarrow> rdline option" where
  "rdline_reset rdl =
    (case rdl of None \<Rightarrow> None
     | Some rdl \<Rightarrow> Some ((new_line rdl)\<lparr>status := RDLINE_RUNNING, history_cur_line := -1\<rparr>))"

section \<open>Display\<close>

definition display_right_buffer :: "rdline \<Rightarrow> bool \<Rightarrow> rdline" where
  "display_right_buffer rdl force =
    (if \<not> force \<and> CIRBUF_IS_EMPTY (right rdl) then rdl
     else let rdl = rdline_puts rdl vt100_clear_right;
              rdl = rdline_puts rdl (CIRBUF_FOREACH (right rdl))
          in if \<not> CIRBUF_IS_EMPTY (right rdl) then miniprintf rdl vt100_multi_left (CIRBUF_GET_LEN (right rdl)) else rdl)"

definition redisplay :: "rdline \<Rightarrow> rdline" where
  "redisplay rdl =
    (let rdl = rdline_puts rdl vt100_home;
         rdl = rdline_puts rdl (take (prompt_size rdl) (prompt rdl));
         rdl = rdline_puts rdl (CIRBUF_FOREACH (left rdl))
     in display_right_buffer rdl True)"

definition rdline_redisplay :: "rdline option \<Rightarrow> rdline option" where
  "rdline_redisplay rdl = (case rdl of None \<Rightarrow> None | Some rdl \<Rightarrow> Some (redisplay rdl))"

section \<open>The line as one string\<close>

definition left_buf :: "rdline \<Rightarrow> u8 list" where
  "left_buf rdl = buf (left rdl) @ left_extra rdl"

definition set_left_buf :: "rdline \<Rightarrow> u8 list \<Rightarrow> rdline" where
  "set_left_buf rdl m = rdl\<lparr>left := (left rdl)\<lparr>buf := take RDLINE_BUF_SIZE m\<rparr>, left_extra := drop RDLINE_BUF_SIZE m\<rparr>"

definition aligned :: "u8 cirbuf \<Rightarrow> u8 cirbuf option" where
  "aligned cb = do { (_, c) \<leftarrow> cirbuf_align_left (Some cb); c }"

text \<open>The result points to \<open>left_buf\<close>: the string is its content.\<close>

definition rdline_get_buffer :: "rdline option \<Rightarrow> (u8 list option \<times> rdline option) option" where
  "rdline_get_buffer rdl =
    (case rdl of
      None \<Rightarrow> Some (None, None)
    | Some rdl \<Rightarrow> do {
        l \<leftarrow> aligned (left rdl);
        r \<leftarrow> aligned (right rdl);
        let rdl = rdl\<lparr>left := l, right := r\<rparr>;
        let len_l = CIRBUF_GET_LEN l;
        let len_r = CIRBUF_GET_LEN r;
        m \<leftarrow> memcpy (left_buf rdl) (unat len_l) (buf r) 0 (unat len_r);
        m \<leftarrow> write_at m (unat (len_l + len_r)) 10;
        m \<leftarrow> write_at m (unat (len_l + len_r + 1)) 0;
        Some (Some m, Some (set_left_buf rdl m)) })"

section \<open>The history\<close>

text \<open>Its items are strings ended by NUL, from the oldest to the latest.\<close>

partial_function (option) remove_old_item :: "u8 cirbuf \<Rightarrow> u8 cirbuf option" where
  "remove_old_item h =
    (if CIRBUF_IS_EMPTY h then Some h
     else do {
       c \<leftarrow> cirbuf_get_head h;
       let h = cirbuf_del_head h;
       if c = 0 then Some h else remove_old_item h })"

definition rdline_remove_old_history_item :: "rdline \<Rightarrow> rdline option" where
  "rdline_remove_old_history_item rdl = do { h \<leftarrow> remove_old_item (history rdl); Some (rdl\<lparr>history := h\<rparr>) }"

definition rdline_remove_first_history_item :: "rdline \<Rightarrow> rdline option" where
  "rdline_remove_first_history_item rdl =
    (if CIRBUF_IS_EMPTY (history rdl) then Some rdl
     else do {
       (h, _) \<leftarrow> drop_while CIRBUF_IS_EMPTY cirbuf_get_tail cirbuf_del_tail (\<lambda>c. c \<noteq> 0) ([] :: u8 list)
         (cirbuf_del_tail (history rdl)) [];
       Some (rdl\<lparr>history := h\<rparr>) })"

fun count_nul :: "u8 list \<Rightarrow> nat \<Rightarrow> nat" where
  "count_nul [] n = n"
| "count_nul (c # cs) n = count_nul cs (if c = 0 then Suc n else n)"

definition rdline_get_history_size :: "rdline \<Rightarrow> nat" where
  "rdline_get_history_size rdl = count_nul (CIRBUF_FOREACH (history rdl)) 0"

text \<open>The index at which the loop of \<open>rdline_get_history_item\<close> returns.\<close>

fun item_index :: "u8 list \<Rightarrow> nat \<Rightarrow> nat \<Rightarrow> nat \<Rightarrow> nat option" where
  "item_index [] i idx n = None"
| "item_index (c # cs) i idx n =
    (if idx = n - 1 then Some i else item_index cs (Suc i) idx (if c = 0 then n - 1 else n))"

text \<open>The result points into \<open>history_buf\<close>: the memory from there on.\<close>

definition rdline_get_history_item :: "rdline option \<Rightarrow> nat \<Rightarrow> (u8 list option \<times> rdline option) option" where
  "rdline_get_history_item rdl idx =
    (case rdl of
      None \<Rightarrow> Some (None, None)
    | Some rdl \<Rightarrow>
        let n = rdline_get_history_size rdl
        in if n \<le> idx then Some (None, Some rdl)
           else do {
             h \<leftarrow> aligned (history rdl);
             let rdl = rdl\<lparr>history := h\<rparr>;
             case item_index (CIRBUF_FOREACH h) 0 idx n of
               Some i \<Rightarrow> Some (Some (drop i (buf h)), Some rdl)
             | None \<Rightarrow> Some (None, Some rdl) })"

partial_function (option) make_room :: "nat \<Rightarrow> rdline \<Rightarrow> rdline option" where
  "make_room n rdl =
    (if of_nat n \<ge> CIRBUF_GET_FREELEN (history rdl)
     then do { rdl \<leftarrow> rdline_remove_old_history_item rdl; make_room n rdl }
     else Some rdl)"

definition rdline_add_history :: "rdline option \<Rightarrow> u8 list option \<Rightarrow> (int \<times> rdline option) option" where
  "rdline_add_history rdl b =
    (case (rdl, b) of
      (Some rdl, Some b) \<Rightarrow> do {
        n \<leftarrow> strnlen b RDLINE_BUF_SIZE;
        let n = length (takeWhile (\<lambda>c. c \<noteq> 10) (take n b));
        if n \<ge> RDLINE_HISTORY_BUF_SIZE then Some (-1, Some rdl)
        else do {
          rdl \<leftarrow> make_room n rdl;
          (_, h) \<leftarrow> cirbuf_add_buf_tail (Some (history rdl)) (Some b) (of_nat n);
          h \<leftarrow> h;
          h \<leftarrow> cirbuf_add_tail h 0;
          Some (0, Some (rdl\<lparr>history := h\<rparr>)) } }
    | _ \<Rightarrow> Some (- EINVAL, rdl))"

definition rdline_clear_history :: "rdline option \<Rightarrow> rdline option" where
  "rdline_clear_history rdl =
    (case rdl of None \<Rightarrow> None
     | Some rdl \<Rightarrow> Some (rdl\<lparr>history := cleared (history rdl) RDLINE_HISTORY_BUF_SIZE\<rparr>))"

section \<open>The keys\<close>

text \<open>Each definition is one case of the \<open>switch\<close> of \<open>rdline_char_in\<close>.\<close>

definition move_left_while :: "(u8 \<Rightarrow> bool) \<Rightarrow> u8 list \<Rightarrow> rdline \<Rightarrow> rdline option" where
  "move_left_while test s rdl = do {
     (l, r, snt) \<leftarrow> move_while CIRBUF_IS_EMPTY cirbuf_get_tail cirbuf_del_tail cirbuf_add_head test s
       (left rdl) (right rdl) (sent rdl);
     Some (rdl\<lparr>left := l, right := r, sent := snt\<rparr>) }"

definition move_right_while :: "(u8 \<Rightarrow> bool) \<Rightarrow> u8 list \<Rightarrow> rdline \<Rightarrow> rdline option" where
  "move_right_while test s rdl = do {
     (r, l, snt) \<leftarrow> move_while CIRBUF_IS_EMPTY cirbuf_get_head cirbuf_del_head cirbuf_add_tail test s
       (right rdl) (left rdl) (sent rdl);
     Some (rdl\<lparr>left := l, right := r, sent := snt\<rparr>) }"

definition drop_left_while :: "(u8 \<Rightarrow> bool) \<Rightarrow> u8 list \<Rightarrow> rdline \<Rightarrow> rdline option" where
  "drop_left_while test s rdl = do {
     (l, snt) \<leftarrow> drop_while CIRBUF_IS_EMPTY cirbuf_get_tail cirbuf_del_tail test s (left rdl) (sent rdl);
     Some (rdl\<lparr>left := l, sent := snt\<rparr>) }"

definition drop_right_while :: "(u8 \<Rightarrow> bool) \<Rightarrow> u8 list \<Rightarrow> rdline \<Rightarrow> rdline option" where
  "drop_right_while test s rdl = do {
     (r, snt) \<leftarrow> drop_while CIRBUF_IS_EMPTY cirbuf_get_head cirbuf_del_head test s (right rdl) (sent rdl);
     Some (rdl\<lparr>right := r, sent := snt\<rparr>) }"

definition key_left :: "rdline \<Rightarrow> rdline option" where
  "key_left rdl =
    (if CIRBUF_IS_EMPTY (left rdl) then Some rdl
     else do {
       tmp \<leftarrow> cirbuf_get_tail (left rdl);
       let rdl = rdl\<lparr>left := cirbuf_del_tail (left rdl)\<rparr>;
       r \<leftarrow> cirbuf_add_head (right rdl) tmp;
       Some (rdline_puts (rdl\<lparr>right := r\<rparr>) vt100_left_arr) })"

definition key_right :: "rdline \<Rightarrow> rdline option" where
  "key_right rdl =
    (if CIRBUF_IS_EMPTY (right rdl) then Some rdl
     else do {
       tmp \<leftarrow> cirbuf_get_head (right rdl);
       let rdl = rdl\<lparr>right := cirbuf_del_head (right rdl)\<rparr>;
       l \<leftarrow> cirbuf_add_tail (left rdl) tmp;
       Some (rdline_puts (rdl\<lparr>left := l\<rparr>) vt100_right_arr) })"

definition key_wleft :: "rdline \<Rightarrow> rdline option" where
  "key_wleft rdl = do {
     rdl \<leftarrow> move_left_while (\<lambda>tmp. tmp \<noteq> 0 \<and> isblank2 tmp) vt100_left_arr rdl;
     move_left_while (\<lambda>tmp. tmp \<noteq> 0 \<and> \<not> isblank2 tmp) vt100_left_arr rdl }"

definition key_wright :: "rdline \<Rightarrow> rdline option" where
  "key_wright rdl = do {
     rdl \<leftarrow> move_right_while (\<lambda>tmp. tmp \<noteq> 0 \<and> isblank2 tmp) vt100_right_arr rdl;
     move_right_while (\<lambda>tmp. tmp \<noteq> 0 \<and> \<not> isblank2 tmp) vt100_right_arr rdl }"

definition key_ctrl_a :: "rdline \<Rightarrow> rdline option" where
  "key_ctrl_a rdl =
    (if CIRBUF_IS_EMPTY (left rdl) then Some rdl
     else move_left_while (\<lambda>_. True) [] (miniprintf rdl vt100_multi_left (CIRBUF_GET_LEN (left rdl))))"

definition key_ctrl_e :: "rdline \<Rightarrow> rdline option" where
  "key_ctrl_e rdl =
    (if CIRBUF_IS_EMPTY (right rdl) then Some rdl
     else move_right_while (\<lambda>_. True) [] (miniprintf rdl vt100_multi_right (CIRBUF_GET_LEN (right rdl))))"

definition key_bkspace :: "rdline \<Rightarrow> rdline option" where
  "key_bkspace rdl =
    (case cirbuf_del_tail_safe (Some (left rdl)) of (r, l) \<Rightarrow> do {
       l \<leftarrow> l;
       let rdl = rdl\<lparr>left := l\<rparr>;
       Some (if r = 0 then display_right_buffer (rdline_puts rdl vt100_bs) True else rdl) })"

definition key_suppr :: "rdline \<Rightarrow> rdline option" where
  "key_suppr rdl =
    (case cirbuf_del_head_safe (Some (right rdl)) of (n, r) \<Rightarrow> do {
       r \<leftarrow> r;
       let rdl = rdl\<lparr>right := r\<rparr>;
       Some (if n = 0 then display_right_buffer rdl True else rdl) })"

definition key_ctrl_w :: "rdline \<Rightarrow> rdline option" where
  "key_ctrl_w rdl = do {
     rdl \<leftarrow> drop_left_while isblank2 vt100_bs rdl;
     rdl \<leftarrow> drop_left_while (\<lambda>c. \<not> isblank2 c) vt100_bs rdl;
     Some (display_right_buffer rdl True) }"

definition key_meta_d :: "rdline \<Rightarrow> rdline option" where
  "key_meta_d rdl = do {
     rdl \<leftarrow> drop_right_while isblank2 [] rdl;
     rdl \<leftarrow> drop_right_while (\<lambda>c. \<not> isblank2 c) [] rdl;
     Some (display_right_buffer rdl True) }"

definition key_ctrl_k :: "rdline \<Rightarrow> rdline option" where
  "key_ctrl_k rdl = do {
     (_, k) \<leftarrow> cirbuf_get_buf_head (Some (right rdl)) (Some (kill_buf rdl)) (of_nat RDLINE_BUF_SIZE);
     k \<leftarrow> k;
     let rdl = rdl\<lparr>kill_buf := k, kill_size := CIRBUF_GET_LEN (right rdl)\<rparr>;
     r \<leftarrow> snd (cirbuf_del_buf_head (Some (right rdl)) (kill_size rdl));
     Some (rdline_puts (rdl\<lparr>right := r\<rparr>) vt100_clear_right) }"

text \<open>
  The loop that pastes: \<open>while (len(right) + len(left) < RDLINE_BUF_SIZE && i < n)\<close>, adding
  \<open>b[i]\<close>.
\<close>

function paste :: "u8 list \<Rightarrow> nat \<Rightarrow> nat \<Rightarrow> rdline \<Rightarrow> rdline option" where
  "paste b i n rdl =
    (if unat (CIRBUF_GET_LEN (right rdl) + CIRBUF_GET_LEN (left rdl)) < RDLINE_BUF_SIZE \<and> i < n
     then do {
       c \<leftarrow> read_at b i;
       l \<leftarrow> cirbuf_add_tail (left rdl) c;
       paste b (Suc i) n (write_char (rdl\<lparr>left := l\<rparr>) c) }
     else Some rdl)"
  by pat_completeness auto
termination by (relation "measure (\<lambda>(_, i, n, _). n - i)") auto

declare paste.simps [simp del]

definition key_ctrl_y :: "rdline \<Rightarrow> rdline option" where
  "key_ctrl_y rdl = do {
     rdl \<leftarrow> paste (kill_buf rdl) 0 (unat (kill_size rdl)) rdl;
     Some (display_right_buffer rdl False) }"

definition key_ctrl_c :: "rdline \<Rightarrow> rdline option" where
  "key_ctrl_c rdl = do { r \<leftarrow> rdline_newline (Some (rdline_puts rdl crnl)) (Some Own_prompt); r }"

text \<open>The string at the start of a buffer.\<close>

definition cstring :: "u8 list \<Rightarrow> u8 list option" where
  "cstring b = (let s = takeWhile (\<lambda>c. c \<noteq> 0) b in if length s < length b then Some s else None)"

text \<open>
  \<open>complete rdl line dst state\<close> stands for the application's callback: its answer, what it
  leaves in \<open>tmp_buf\<close>, the next state and the editor it returns.
\<close>

type_synonym complete_fn = "rdline \<Rightarrow> u8 list \<Rightarrow> int \<Rightarrow> int \<times> u8 list \<times> int \<times> rdline"

partial_function (option) show_choices :: "complete_fn \<Rightarrow> int \<Rightarrow> u8 list \<Rightarrow> int \<Rightarrow> rdline \<Rightarrow> rdline option" where
  "show_choices complete ret tmp_buf st rdl =
    (if ret = 0 then Some rdl
     else do {
       s \<leftarrow> cstring tmp_buf;
       let rdl = rdline_puts (rdline_puts (write_char rdl 32) s) crnl;
       (case complete rdl (left_buf rdl) st of
          (ret, tmp_buf, st, rdl) \<Rightarrow> show_choices complete ret tmp_buf st rdl) })"

definition key_tab :: "complete_fn option \<Rightarrow> int \<Rightarrow> rdline \<Rightarrow> (int \<times> rdline) option" where
  "key_tab complete cmd rdl = do {
     l \<leftarrow> aligned (left rdl);
     let rdl = rdl\<lparr>left := l\<rparr>;
     m \<leftarrow> write_at (left_buf rdl) (unat (CIRBUF_GET_LEN (left rdl))) 0;
     let rdl = set_left_buf rdl m;
     (case complete of
       None \<Rightarrow> Some (RDLINE_RES_COMPLETE, rdl)
     | Some complete \<Rightarrow>
         let complete_state = (if cmd = CMDLINE_KEY_TAB then 0 else -1)
         in case complete rdl (left_buf rdl) complete_state of
              (ret, tmp_buf, complete_state, rdl) \<Rightarrow>
                if ret \<le> 0 then Some (RDLINE_RES_COMPLETE, rdl)
                else do {
                  tmp_size \<leftarrow> strnlen tmp_buf BUFSIZ;
                  if ret = RDLINE_RES_COMPLETE
                  then do {
                    rdl \<leftarrow> paste tmp_buf 0 tmp_size rdl;
                    Some (RDLINE_RES_COMPLETE, display_right_buffer rdl True) }
                  else do {
                    rdl \<leftarrow> show_choices complete ret tmp_buf complete_state (rdline_puts rdl crnl);
                    Some (RDLINE_RES_COMPLETE, redisplay rdl) } }) }"

type_synonym validate_fn = "rdline \<Rightarrow> u8 list \<Rightarrow> u32 \<Rightarrow> rdline"

definition key_return :: "validate_fn option \<Rightarrow> rdline \<Rightarrow> (int \<times> rdline) option" where
  "key_return validate rdl = do {
     (_, r) \<leftarrow> rdline_get_buffer (Some rdl);
     rdl \<leftarrow> r;
     let rdl = rdline_puts (rdl\<lparr>status := RDLINE_INIT\<rparr>) crnl;
     rdl \<leftarrow> (if history_cur_line rdl \<noteq> -1 then rdline_remove_first_history_item rdl else Some rdl);
     let rdl = (case validate of
                  None \<Rightarrow> rdl
                | Some validate \<Rightarrow> validate rdl (left_buf rdl) (CIRBUF_GET_LEN (left rdl) + 2));
     Some (if status rdl = RDLINE_EXITED then RDLINE_RES_EXITED else RDLINE_RES_VALIDATED, rdl) }"

text \<open>The line becomes the string at \<open>b\<close>.\<close>

definition show_item :: "u8 list \<Rightarrow> rdline \<Rightarrow> rdline option" where
  "show_item b rdl = do {
     let rdl = new_line rdl;
     n \<leftarrow> strnlen b RDLINE_BUF_SIZE;
     (_, l) \<leftarrow> cirbuf_add_buf_tail (Some (left rdl)) (Some b) (of_nat n);
     l \<leftarrow> l;
     Some (redisplay (rdl\<lparr>left := l\<rparr>)) }"

text \<open>UP starts by saving the line, in place of the one it saved before.\<close>

definition save_line :: "rdline \<Rightarrow> rdline option" where
  "save_line rdl = do {
     rdl \<leftarrow> (if history_cur_line rdl = 0 then rdline_remove_first_history_item rdl else Some rdl);
     if history_cur_line rdl \<le> 0 then do {
       (b, r) \<leftarrow> rdline_get_buffer (Some rdl);
       (_, r) \<leftarrow> rdline_add_history r b;
       rdl \<leftarrow> r;
       Some (rdl\<lparr>history_cur_line := 0\<rparr>) }
     else Some rdl }"

definition key_up :: "rdline \<Rightarrow> rdline option" where
  "key_up rdl = do {
     rdl \<leftarrow> save_line rdl;
     (b, r) \<leftarrow> rdline_get_history_item (Some rdl) (nat (history_cur_line rdl + 1));
     rdl \<leftarrow> r;
     (case b of None \<Rightarrow> Some rdl
      | Some b \<Rightarrow> show_item b (rdl\<lparr>history_cur_line := history_cur_line rdl + 1\<rparr>)) }"

definition key_down :: "rdline \<Rightarrow> rdline option" where
  "key_down rdl =
    (if history_cur_line rdl - 1 < 0 then Some rdl
     else do {
       let rdl = rdl\<lparr>history_cur_line := history_cur_line rdl - 1\<rparr>;
       (b, r) \<leftarrow> rdline_get_history_item (Some rdl) (nat (history_cur_line rdl));
       rdl \<leftarrow> r;
       (case b of None \<Rightarrow> Some rdl | Some b \<Rightarrow> show_item b rdl) })"

section \<open>A character\<close>

definition success :: "rdline option \<Rightarrow> (int \<times> rdline) option" where
  "success r = do { rdl \<leftarrow> r; Some (RDLINE_RES_SUCCESS, rdl) }"

definition rdline_key :: "validate_fn option \<Rightarrow> complete_fn option \<Rightarrow> int \<Rightarrow> rdline \<Rightarrow> (int \<times> rdline) option" where
  "rdline_key validate complete cmd rdl =
    (if cmd = CMDLINE_KEY_CTRL_B \<or> cmd = CMDLINE_KEY_LEFT_ARR then success (key_left rdl)
     else if cmd = CMDLINE_KEY_CTRL_F \<or> cmd = CMDLINE_KEY_RIGHT_ARR then success (key_right rdl)
     else if cmd = CMDLINE_KEY_WLEFT then success (key_wleft rdl)
     else if cmd = CMDLINE_KEY_WRIGHT then success (key_wright rdl)
     else if cmd = CMDLINE_KEY_CTRL_A then success (key_ctrl_a rdl)
     else if cmd = CMDLINE_KEY_CTRL_E then success (key_ctrl_e rdl)
     else if cmd = CMDLINE_KEY_BKSPACE then success (key_bkspace rdl)
     else if cmd = CMDLINE_KEY_SUPPR \<or> cmd = CMDLINE_KEY_CTRL_D then
       if cmd = CMDLINE_KEY_CTRL_D \<and> CIRBUF_IS_EMPTY (left rdl) \<and> CIRBUF_IS_EMPTY (right rdl)
       then Some (RDLINE_RES_EOF, rdl)
       else success (key_suppr rdl)
     else if cmd = CMDLINE_KEY_META_BKSPACE \<or> cmd = CMDLINE_KEY_CTRL_W then success (key_ctrl_w rdl)
     else if cmd = CMDLINE_KEY_META_D then success (key_meta_d rdl)
     else if cmd = CMDLINE_KEY_CTRL_K then success (key_ctrl_k rdl)
     else if cmd = CMDLINE_KEY_CTRL_Y then success (key_ctrl_y rdl)
     else if cmd = CMDLINE_KEY_CTRL_C then success (key_ctrl_c rdl)
     else if cmd = CMDLINE_KEY_CTRL_L then success (Some (redisplay rdl))
     else if cmd = CMDLINE_KEY_TAB \<or> cmd = CMDLINE_KEY_HELP then key_tab complete cmd rdl
     else if cmd = CMDLINE_KEY_RETURN \<or> cmd = CMDLINE_KEY_RETURN2 then key_return validate rdl
     else if cmd = CMDLINE_KEY_UP_ARR \<or> cmd = CMDLINE_KEY_CTRL_P then success (key_up rdl)
     else if cmd = CMDLINE_KEY_DOWN_ARR \<or> cmd = CMDLINE_KEY_CTRL_N then success (key_down rdl)
     else Some (RDLINE_RES_SUCCESS, rdl))"

definition standard_char :: "u8 \<Rightarrow> rdline \<Rightarrow> rdline option" where
  "standard_char c rdl =
    (if \<not> is_print c then Some rdl
     else if unat (CIRBUF_GET_LEN (left rdl) + CIRBUF_GET_LEN (right rdl)) \<ge> RDLINE_BUF_SIZE then Some rdl
     else do {
       (n, l) \<leftarrow> cirbuf_add_tail_safe (Some (left rdl)) c;
       l \<leftarrow> l;
       let rdl = rdl\<lparr>left := l\<rparr>;
       if n \<noteq> 0 then Some rdl
       else Some (display_right_buffer (write_char rdl c) False) })"

definition rdline_char_in ::
  "validate_fn option \<Rightarrow> complete_fn option \<Rightarrow> rdline option \<Rightarrow> u8 \<Rightarrow> (int \<times> rdline option) option" where
  "rdline_char_in validate complete rdl c =
    (case rdl of
      None \<Rightarrow> Some (- EINVAL, None)
    | Some rdl \<Rightarrow>
        if status rdl = RDLINE_EXITED then Some (RDLINE_RES_EXITED, Some rdl)
        else if status rdl \<noteq> RDLINE_RUNNING then Some (RDLINE_RES_NOT_RUNNING, Some rdl)
        else case vt100_parser (vt100 rdl) c of
          (cmd, vt) \<Rightarrow>
            let rdl = rdl\<lparr>vt100 := vt\<rparr>
            in if cmd = -2 then Some (RDLINE_RES_SUCCESS, Some rdl)
               else do {
                 (r, rdl) \<leftarrow> (if cmd \<ge> 0 then rdline_key validate complete cmd rdl
                             else success (standard_char c rdl));
                 Some (r, Some rdl) })"

end
