(* ===== verification/Rdline_Edit.thy ===== *)
theory Rdline_Edit
  imports Cmdline_Rdline
begin

text \<open>
  The editing keys of the line editor on the strings before and after the caret:
  what each key leaves and what it sends to the terminal.
\<close>

section \<open>The line\<close>

definition line_is :: "rdline \<Rightarrow> u8 list \<Rightarrow> u8 list \<Rightarrow> bool" where
  "line_is rdl l r \<longleftrightarrow> cb_ok (left rdl) \<and> cb_size (left rdl) = 256 \<and> cb_list (left rdl) = l \<and>
     cb_ok (right rdl) \<and> cb_size (right rdl) = 256 \<and> cb_list (right rdl) = r \<and>
     length l + length r \<le> 256 \<and> 0 \<notin> set l \<and> 0 \<notin> set r"

text \<open>What the editing keys leave alone.\<close>

definition others ::
  "rdline \<Rightarrow> (rdline_status \<times> u8 list \<times> u8 list \<times> nat) \<times> (u8 list \<times> u32) \<times> u8 cirbuf \<times> int \<times> cmdline_vt100" where
  "others rdl = ((status rdl, left_extra rdl, prompt rdl, prompt_size rdl), (kill_buf rdl, kill_size rdl),
     history rdl, history_cur_line rdl, vt100 rdl)"

text \<open>\<open>rdl'\<close> is the editor after a key that left the line \<open>l\<close>, \<open>r\<close> and sent \<open>s\<close>.\<close>

definition does :: "rdline \<Rightarrow> rdline \<Rightarrow> u8 list \<Rightarrow> u8 list \<Rightarrow> u8 list \<Rightarrow> bool" where
  "does rdl rdl' l r s \<longleftrightarrow> line_is rdl' l r \<and> others rdl' = others rdl \<and> sent rdl' = sent rdl @ s"

lemma does_trans: "does a b l r s \<Longrightarrow> does b c l' r' s' \<Longrightarrow> does a c l' r' (s @ s')"
  by (simp add: does_def)

lemma does_refl: "line_is a l r \<Longrightarrow> does a a l r []"
  by (simp add: does_def)

lemma line_empty:
  assumes "line_is rdl l r"
  shows "CIRBUF_IS_EMPTY (left rdl) \<longleftrightarrow> l = []" "CIRBUF_IS_EMPTY (right rdl) \<longleftrightarrow> r = []"
  using assms head.emp_iff [of "left rdl"] head.emp_iff [of "right rdl"] by (auto simp: line_is_def)

lemma line_lengths:
  assumes "line_is rdl l r"
  shows "unat (CIRBUF_GET_LEN (left rdl)) = length l" "unat (CIRBUF_GET_LEN (right rdl)) = length r"
  using assms length_cb_list [of "left rdl"] length_cb_list [of "right rdl"]
  by (auto simp: line_is_def CIRBUF_GET_LEN_def)

lemma line_total:
  assumes "line_is rdl l r"
  shows "unat (CIRBUF_GET_LEN (left rdl) + CIRBUF_GET_LEN (right rdl)) = length l + length r"
    "unat (CIRBUF_GET_LEN (right rdl) + CIRBUF_GET_LEN (left rdl)) = length l + length r"
proof -
  have "length l + length r \<le> 256" using assms by (simp add: line_is_def)
  then show "unat (CIRBUF_GET_LEN (left rdl) + CIRBUF_GET_LEN (right rdl)) = length l + length r"
    "unat (CIRBUF_GET_LEN (right rdl) + CIRBUF_GET_LEN (left rdl)) = length l + length r"
    using line_lengths [OF assms] by (simp_all add: unat_add_exact)
qed

lemma foreach_list:
  assumes "cb_ok cb"
  shows "CIRBUF_FOREACH cb = cb_list cb"
proof -
  have "unat ((start cb + of_nat i) mod maxlen cb) = (unat (start cb) + i) mod cb_size cb"
    if "i < unat (len cb)" for i
    using up_word [OF assms, of i] that assms by (simp add: cb_ok_def up_pos_def)
  then show ?thesis by (simp add: CIRBUF_FOREACH_def cb_list_def)
qed

section \<open>Output\<close>

lemma puts_sends: "rdline_puts rdl s = rdl\<lparr>sent := sent rdl @ s\<rparr>"
  by (induction s arbitrary: rdl) (simp_all add: write_char_def)

lemma others_sent [simp]: "others (rdl\<lparr>sent := s\<rparr>) = others rdl"
  by (simp add: others_def)

lemma line_is_sent [simp]: "line_is (rdl\<lparr>sent := s\<rparr>) l r = line_is rdl l r"
  by (simp add: line_is_def)

text \<open>The decimal digits of a number.\<close>

fun decimal :: "nat \<Rightarrow> u8 list" where
  "decimal n = (if n < 10 then [48 + of_nat n] else decimal (n div 10) @ [48 + of_nat (n mod 10)])"

declare decimal.simps [simp del]

definition left_by :: "nat \<Rightarrow> u8 list" where
  "left_by n = [27, 91] @ decimal n @ [68]"

definition right_by :: "nat \<Rightarrow> u8 list" where
  "right_by n = [27, 91] @ decimal n @ [67]"

lemma print_digits_step:
  assumes "0 < d" "d < 1000" "unat val < 10 * d"
  shows "print_digits rdl d val started =
    (if 0 < unat val div d \<or> started
     then print_digits (write_char rdl (of_nat (unat val div d) + 48)) (d div 10) (of_nat (unat val mod d)) True
     else print_digits rdl (d div 10) (of_nat (unat val mod d)) started)"
proof -
  have d: "unat (of_nat d :: u32) = d" using assms(2) by (intro of_nat_u32) simp
  have q: "unat val div d < 10" using assms(1,3) by (simp add: less_mult_imp_div_less mult.commute)
  have c: "(ucast (val div of_nat d) :: u8) = of_nat (unat val div d)"
    using arg_cong [OF d, of "\<lambda>x. of_nat (unat val div x) :: u8"]
    by (metis unat_div_distrib of_nat_unat)
  have z: "(of_nat (unat val div d) :: u8) \<noteq> 0 \<longleftrightarrow> 0 < unat val div d"
    using q by (simp add: word_unat_eq_iff unat_of_nat)
  have m: "val mod of_nat d = of_nat (unat val mod d)"
    using unat_mod_distrib [of val "of_nat d"] d by (metis of_nat_unat ucast_id)
  show ?thesis
  proof (cases "0 < unat val div d")
    case True
    then have "(of_nat (unat val div d) :: u8) \<noteq> 0" using z by blast
    then show ?thesis using assms(1) True by (subst print_digits.simps) (simp only: c m Let_def, simp)
  next
    case False
    then show ?thesis using assms(1) by (subst print_digits.simps) (simp add: c m Let_def)
  qed
qed

lemma print_digits_0: "print_digits rdl 0 val started = (rdl, val, started)"
  by (subst print_digits.simps) simp

lemma decimal_digits:
  "n < 10 \<Longrightarrow> decimal n = [48 + of_nat n]"
  "10 \<le> n \<Longrightarrow> n < 100 \<Longrightarrow> decimal n = [48 + of_nat (n div 10), 48 + of_nat (n mod 10)]"
  "100 \<le> n \<Longrightarrow> n < 1000 \<Longrightarrow>
    decimal n = [48 + of_nat (n div 100), 48 + of_nat (n mod 100 div 10), 48 + of_nat (n mod 10)]"
proof -
  show 1: "n < 10 \<Longrightarrow> decimal n = [48 + of_nat n]" for n by (subst decimal.simps) simp
  show 2: "10 \<le> n \<Longrightarrow> n < 100 \<Longrightarrow> decimal n = [48 + of_nat (n div 10), 48 + of_nat (n mod 10)]" for n
    using 1 [of "n div 10"] by (subst decimal.simps) simp
  show "100 \<le> n \<Longrightarrow> n < 1000 \<Longrightarrow>
      decimal n = [48 + of_nat (n div 100), 48 + of_nat (n mod 100 div 10), 48 + of_nat (n mod 10)]"
  proof -
    assume n: "100 \<le> n" "n < 1000"
    have "n mod 100 = 10 * (n div 10 mod 10) + n mod 10" using mod_mult2_eq [of n 10 10] by simp
    then have "n div 10 mod 10 = n mod 100 div 10" by simp
    moreover have "n div 10 div 10 = n div 100" by (simp add: div_mult2_eq [symmetric])
    ultimately show ?thesis
      using n 2 [of "n div 10"] by (subst decimal.simps) simp
  qed
qed

lemma print_digits_100:
  assumes "0 < unat val" "unat val < 1000"
  shows "\<exists>val'. print_digits rdl 100 val False = (rdl\<lparr>sent := sent rdl @ decimal (unat val)\<rparr>, val', True)"
proof -
  define v where "v = unat val"
  have u: "unat (of_nat (v mod 100) :: u32) = v mod 100" "unat (of_nat (v mod 10) :: u32) = v mod 10"
    "unat (of_nat v :: u32) = v"
    using assms(2) by (simp_all add: v_def unsigned_of_nat take_bit_nat_eq_self)
  have mm: "v mod 100 mod 10 = v mod 10" by (simp add: mod_mod_cancel)
  consider "v < 10" | "10 \<le> v" "v < 100" | "100 \<le> v" "v < 1000" using assms(2) v_def by linarith
  then show ?thesis
    using assms
    by cases (simp_all add: print_digits_step print_digits_0 u mm v_def [symmetric] decimal_digits write_char_def add.commute)
qed

lemma miniprintf_left_by:
  assumes "0 < unat val" "unat val < 1000"
  shows "miniprintf rdl vt100_multi_left val = rdl\<lparr>sent := sent rdl @ left_by (unat val)\<rparr>"
    "miniprintf rdl vt100_multi_right val = rdl\<lparr>sent := sent rdl @ right_by (unat val)\<rparr>"
proof -
  define w where "w = write_char (write_char rdl 27) 91"
  obtain val' where "print_digits w 100 val False = (w\<lparr>sent := sent w @ decimal (unat val)\<rparr>, val', True)"
    using print_digits_100 [OF assms] by blast
  then show "miniprintf rdl vt100_multi_left val = rdl\<lparr>sent := sent rdl @ left_by (unat val)\<rparr>"
    "miniprintf rdl vt100_multi_right val = rdl\<lparr>sent := sent rdl @ right_by (unat val)\<rparr>"
    by (simp_all add: miniprintf_def vt100_multi_left_def vt100_multi_right_def w_def [symmetric] left_by_def right_by_def)
      (simp_all add: w_def write_char_def)
qed

section \<open>Moving and dropping characters\<close>

text \<open>What \<open>display_right_buffer\<close> sends.\<close>

definition right_shown :: "u8 list \<Rightarrow> u8 list" where
  "right_shown r = vt100_clear_right @ r @ (if r = [] then [] else left_by (length r))"

lemma display_right:
  assumes "line_is rdl l r"
  shows "display_right_buffer rdl force =
    rdl\<lparr>sent := sent rdl @ (if \<not> force \<and> r = [] then [] else right_shown r)\<rparr>"
proof -
  have n: "unat (CIRBUF_GET_LEN (right rdl)) = length r" "length r \<le> 256" "CIRBUF_FOREACH (right rdl) = r"
    using assms line_lengths [OF assms] foreach_list [of "right rdl"] by (simp_all add: line_is_def)
  show ?thesis
  proof (cases "r = []")
    case True
    then show ?thesis using line_empty [OF assms] n
      by (simp add: display_right_buffer_def puts_sends right_shown_def Let_def)
  next
    case False
    then have "0 < unat (CIRBUF_GET_LEN (right rdl))" "unat (CIRBUF_GET_LEN (right rdl)) < 1000" using n by auto
    then show ?thesis using False line_empty [OF assms] n
      by (simp add: display_right_buffer_def puts_sends right_shown_def Let_def miniprintf_left_by)
  qed
qed

lemma does_display:
  assumes "does rdl rdl' l r s"
  shows "does rdl (display_right_buffer rdl' force) l r (s @ (if \<not> force \<and> r = [] then [] else right_shown r))"
  using assms display_right [of rdl' l r force] by (simp add: does_def)

lemma size_from_room: "cb_ok a \<Longrightarrow> cb_ok b \<Longrightarrow> cb_room b = cb_room a + length (cb_list a) - length (cb_list b) \<Longrightarrow>
    length (cb_list b) \<le> cb_room a + length (cb_list a) \<Longrightarrow> cb_size b = cb_size a"
  using cb_facts(5) [of a] cb_facts(5) [of b] by (simp add: cb_room_def)

lemma while_length: "length (takeWhile P (rev l)) \<le> length l"
  using length_takeWhile_le [of P "rev l"] by simp

lemma rev_while:
  "rev (takeWhile P (rev l)) = drop (length l - length (takeWhile P (rev l))) l"
  "rev (dropWhile P (rev l)) = take (length l - length (takeWhile P (rev l))) l"
proof -
  show "rev (takeWhile P (rev l)) = drop (length l - length (takeWhile P (rev l))) l"
    by (metis takeWhile_eq_take take_rev rev_rev_ident)
  show "rev (dropWhile P (rev l)) = take (length l - length (takeWhile P (rev l))) l"
    by (metis dropWhile_eq_drop drop_rev rev_rev_ident)
qed

text \<open>\<open>n\<close> characters cross the caret.\<close>

lemma move_left_while_ok:
  assumes "line_is rdl l r" and n: "n = length (takeWhile test (rev l))"
  shows "\<exists>rdl'. move_left_while test s rdl = Some rdl' \<and>
    does rdl rdl' (take (length l - n) l) (drop (length l - n) l @ r) (concat (replicate n s))"
proof -
  note A = assms(1) [unfolded line_is_def]
  have room: "length (takeWhile test (rev (cb_list (left rdl)))) \<le> cb_room (right rdl)"
    using A while_length [of test l] by (auto simp: cb_room_def)
  obtain a b where ab: "move_while CIRBUF_IS_EMPTY cirbuf_get_tail cirbuf_del_tail cirbuf_add_head test s
      (left rdl) (right rdl) (sent rdl) = Some (a, b, sent rdl @ concat (replicate n s))"
    "cb_ok a" "cb_ok b" "rev (cb_list a) = dropWhile test (rev l)"
    "cb_list b = rev (takeWhile test (rev l)) @ r"
    "cb_room a = cb_room (left rdl) + n" "cb_room b = cb_room (right rdl) - n"
    using to_right.move_while_ok [of "left rdl" "right rdl" test s "sent rdl"] A room n by auto
  have la: "cb_list a = take (length l - n) l" using ab(4) rev_while(2) [of test l] n by (metis rev_rev_ident)
  have lb: "cb_list b = drop (length l - n) l @ r" using ab(5) rev_while(1) [of test l] n by simp
  have "n \<le> length l" using n while_length [of test l] by simp
  then have "cb_size a = 256" "cb_size b = 256"
    using size_from_room [OF _ ab(2), of "left rdl"] size_from_room [OF _ ab(3), of "right rdl"] A ab(6,7) la lb room n
    by auto
  moreover have "0 \<notin> set (take (length l - n) l)" "0 \<notin> set (drop (length l - n) l)"
    using A by (auto dest: in_set_takeD in_set_dropD)
  ultimately show ?thesis
    using A ab(1-3) la lb \<open>n \<le> length l\<close> by (simp add: move_left_while_def does_def line_is_def others_def)
qed

lemma move_right_while_ok:
  assumes "line_is rdl l r" and n: "n = length (takeWhile test r)"
  shows "\<exists>rdl'. move_right_while test s rdl = Some rdl' \<and>
    does rdl rdl' (l @ take n r) (drop n r) (concat (replicate n s))"
proof -
  note A = assms(1) [unfolded line_is_def]
  have le: "n \<le> length r" using n length_takeWhile_le [of test r] by simp
  have room: "length (takeWhile test (cb_list (right rdl))) \<le> cb_room (left rdl)"
    using A le n by (auto simp: cb_room_def)
  obtain a b where ab: "move_while CIRBUF_IS_EMPTY cirbuf_get_head cirbuf_del_head cirbuf_add_tail test s
      (right rdl) (left rdl) (sent rdl) = Some (a, b, sent rdl @ concat (replicate n s))"
    "cb_ok a" "cb_ok b" "cb_list a = dropWhile test r"
    "rev (cb_list b) = rev (takeWhile test r) @ rev l"
    "cb_room a = cb_room (right rdl) + n" "cb_room b = cb_room (left rdl) - n"
    using to_left.move_while_ok [of "right rdl" "left rdl" test s "sent rdl"] A room n by auto
  have la: "cb_list a = drop n r" using ab(4) n by (simp add: dropWhile_eq_drop)
  have "cb_list b = l @ takeWhile test r" using ab(5) by (metis rev_append rev_rev_ident)
  then have lb: "cb_list b = l @ take n r" using n by (simp add: takeWhile_eq_take [symmetric])
  have "cb_size a = 256" "cb_size b = 256"
    using size_from_room [OF _ ab(2), of "right rdl"] size_from_room [OF _ ab(3), of "left rdl"] A ab(6,7) la lb room n le
    by auto
  moreover have "0 \<notin> set (take n r)" "0 \<notin> set (drop n r)"
    using A by (auto dest: in_set_takeD in_set_dropD)
  ultimately show ?thesis
    using A ab(1-3) la lb le by (simp add: move_right_while_def does_def line_is_def others_def)
qed

lemma drop_left_while_ok:
  assumes "line_is rdl l r" and n: "n = length (takeWhile test (rev l))"
  shows "\<exists>rdl'. drop_left_while test s rdl = Some rdl' \<and>
    does rdl rdl' (take (length l - n) l) r (concat (replicate n s))"
proof -
  note A = assms(1) [unfolded line_is_def]
  obtain a where a: "drop_while CIRBUF_IS_EMPTY cirbuf_get_tail cirbuf_del_tail test s (left rdl) (sent rdl) =
      Some (a, sent rdl @ concat (replicate n s))"
    "cb_ok a" "rev (cb_list a) = dropWhile test (rev l)" "cb_room a = cb_room (left rdl) + n"
    using tail.drop_while_ok [of "left rdl" test s "sent rdl"] A n by auto
  have la: "cb_list a = take (length l - n) l" using a(3) rev_while(2) [of test l] n by (metis rev_rev_ident)
  have "n \<le> length l" using n while_length [of test l] by simp
  then have "cb_size a = 256"
    using size_from_room [OF _ a(2), of "left rdl"] A a(4) la by auto
  moreover have "0 \<notin> set (take (length l - n) l)" "length l - n + length r \<le> 256"
    using A by (auto dest: in_set_takeD)
  ultimately show ?thesis
    using A a(1,2) la by (simp add: drop_left_while_def does_def line_is_def others_def)
qed

lemma drop_right_while_ok:
  assumes "line_is rdl l r" and n: "n = length (takeWhile test r)"
  shows "\<exists>rdl'. drop_right_while test s rdl = Some rdl' \<and>
    does rdl rdl' l (drop n r) (concat (replicate n s))"
proof -
  note A = assms(1) [unfolded line_is_def]
  obtain a where a: "drop_while CIRBUF_IS_EMPTY cirbuf_get_head cirbuf_del_head test s (right rdl) (sent rdl) =
      Some (a, sent rdl @ concat (replicate n s))"
    "cb_ok a" "cb_list a = dropWhile test r" "cb_room a = cb_room (right rdl) + n"
    using head.drop_while_ok [of "right rdl" test s "sent rdl"] A n by auto
  have la: "cb_list a = drop n r" using a(3) n by (simp add: dropWhile_eq_drop)
  have "n \<le> length r" using n length_takeWhile_le [of test r] by simp
  then have "cb_size a = 256"
    using size_from_room [OF _ a(2), of "right rdl"] A a(4) la by auto
  moreover have "0 \<notin> set (drop n r)" "length l + (length r - n) \<le> 256"
    using A by (auto dest: in_set_dropD)
  ultimately show ?thesis
    using A a(1,2) la by (simp add: drop_right_while_def does_def line_is_def others_def)
qed

section \<open>The keys\<close>

text \<open>Blanks and then a word: how far a word key goes in \<open>s\<close>.\<close>

definition word_len :: "u8 list \<Rightarrow> nat" where
  "word_len s = (let n = length (takeWhile isblank2 s)
     in n + length (takeWhile (\<lambda>c. \<not> isblank2 c) (drop n s)))"

lemma word_len_le: "word_len s \<le> length s"
proof -
  define n where "n = length (takeWhile isblank2 s)"
  have "n \<le> length s" by (simp add: n_def length_takeWhile_le)
  moreover have "length (takeWhile (\<lambda>c. \<not> isblank2 c) (drop n s)) \<le> length s - n"
    using length_takeWhile_le [of _ "drop n s"] by simp
  ultimately show ?thesis by (simp add: word_len_def n_def [symmetric] Let_def)
qed

lemma while_nonzero:
  assumes "0 \<notin> set s"
  shows "takeWhile (\<lambda>c. c \<noteq> 0 \<and> P c) s = takeWhile P s"
  using assms by (intro takeWhile_cong) auto

lemma concat_replicate: "concat (replicate (m + n) s) = concat (replicate m s) @ concat (replicate n s)"
  by (simp add: replicate_add)

lemma twice_left:
  assumes "m \<le> length l"
  shows "m + length (takeWhile P (drop m (rev l))) = m + length (takeWhile P (rev (take (length l - m) l)))"
  by (simp add: drop_rev)

lemma key_left_ok:
  assumes "line_is rdl l r"
  shows "\<exists>rdl'. key_left rdl = Some rdl' \<and>
    (if l = [] then does rdl rdl' l r [] else does rdl rdl' (butlast l) (last l # r) vt100_left_arr)"
proof (cases "l = []")
  case True
  then show ?thesis using line_empty [OF assms] does_refl [OF assms] by (simp add: key_left_def)
next
  case False
  note A = assms [unfolded line_is_def]
  have p: "cirbuf_get_tail (left rdl) = Some (last l)" using tail.peek_hd [of "left rdl"] A False by (simp add: hd_rev)
  have d: "cb_ok (cirbuf_del_tail (left rdl))" "cb_list (cirbuf_del_tail (left rdl)) = butlast l"
    "maxlen (cirbuf_del_tail (left rdl)) = maxlen (left rdl)"
    using cirbuf_del_tail_ok [of "left rdl"] A False nonempty_len [of "left rdl"] by auto
  have "unat (len (right rdl)) < cb_size (right rdl)"
    using A False length_cb_list [of "right rdl"] by (cases l) auto
  then obtain b where b: "cirbuf_add_head (right rdl) (last l) = Some b" "cb_ok b" "maxlen b = maxlen (right rdl)"
    "cb_list b = last l # r"
    using cirbuf_add_head_ok [of "right rdl" "last l"] A by auto
  have "length (butlast l) + length (last l # r) = length l + length r" using False by (cases l) auto
  then have "length (butlast l) + length (last l # r) \<le> 256" using A by linarith
  moreover have "0 \<notin> set (butlast l)" using A in_set_butlastD [of 0 l] by blast
  moreover have "last l \<noteq> 0" using A False last_in_set [of l] by metis
  ultimately show ?thesis
    using A False p d b line_empty [OF assms]
    by (simp add: key_left_def puts_sends does_def line_is_def others_def cb_size_def)
qed

lemma key_right_ok:
  assumes "line_is rdl l r"
  shows "\<exists>rdl'. key_right rdl = Some rdl' \<and>
    (if r = [] then does rdl rdl' l r [] else does rdl rdl' (l @ [hd r]) (tl r) vt100_right_arr)"
proof (cases "r = []")
  case True
  then show ?thesis using line_empty [OF assms] does_refl [OF assms] by (simp add: key_right_def)
next
  case False
  note A = assms [unfolded line_is_def]
  have p: "cirbuf_get_head (right rdl) = Some (hd r)" using head.peek_hd [of "right rdl"] A False by simp
  have d: "cb_ok (cirbuf_del_head (right rdl))" "cb_list (cirbuf_del_head (right rdl)) = tl r"
    "maxlen (cirbuf_del_head (right rdl)) = maxlen (right rdl)"
    using cirbuf_del_head_ok [of "right rdl"] A False nonempty_len [of "right rdl"] by auto
  have "unat (len (left rdl)) < cb_size (left rdl)"
    using A False length_cb_list [of "left rdl"] by (cases r) auto
  then obtain b where b: "cirbuf_add_tail (left rdl) (hd r) = Some b" "cb_ok b" "maxlen b = maxlen (left rdl)"
    "cb_list b = l @ [hd r]"
    using cirbuf_add_tail_ok [of "left rdl" "hd r"] A by auto
  have "length (l @ [hd r]) + length (tl r) \<le> 256" "0 \<notin> set (tl r)" "hd r \<noteq> 0"
    using A False by (cases r; auto)+
  then show ?thesis
    using A False p d b line_empty [OF assms]
    by (simp add: key_right_def puts_sends does_def line_is_def others_def cb_size_def)
qed

lemma key_wleft_ok:
  assumes "line_is rdl l r" and n: "n = word_len (rev l)"
  shows "\<exists>rdl'. key_wleft rdl = Some rdl' \<and>
    does rdl rdl' (take (length l - n) l) (drop (length l - n) l @ r) (concat (replicate n vt100_left_arr))"
proof -
  have z: "0 \<notin> set (rev l)" using assms(1) by (simp add: line_is_def)
  define i where "i = length (takeWhile isblank2 (rev l))"
  obtain a where a: "move_left_while (\<lambda>c. c \<noteq> 0 \<and> isblank2 c) vt100_left_arr rdl = Some a"
    "does rdl a (take (length l - i) l) (drop (length l - i) l @ r) (concat (replicate i vt100_left_arr))"
    using move_left_while_ok [OF assms(1), of i "\<lambda>c. c \<noteq> 0 \<and> isblank2 c"] while_nonzero [OF z] i_def by auto
  define l' where "l' = take (length l - i) l"
  have ll: "length l' = length l - i" "i \<le> length l" "rev l' = drop i (rev l)"
    by (simp_all add: l'_def i_def drop_rev while_length)
  have z': "0 \<notin> set (rev l')" using z by (auto simp: l'_def dest: in_set_takeD)
  define j where "j = length (takeWhile (\<lambda>c. \<not> isblank2 c) (rev l'))"
  obtain b where b: "move_left_while (\<lambda>c. c \<noteq> 0 \<and> \<not> isblank2 c) vt100_left_arr a = Some b"
    "does a b (take (length l' - j) l') (drop (length l' - j) l' @ drop (length l - i) l @ r)
       (concat (replicate j vt100_left_arr))"
    using move_left_while_ok [of a l' "drop (length l - i) l @ r" j "\<lambda>c. c \<noteq> 0 \<and> \<not> isblank2 c"]
      a(2) while_nonzero [OF z'] j_def by (auto simp: does_def l'_def)
  have nij: "n = i + j" using n ll(3) by (simp add: word_len_def i_def j_def Let_def)
  have "take (length l' - j) l' = take (length l - n) l"
    by (simp add: nij ll(1) l'_def)
  moreover have "drop (length l' - j) l' @ drop (length l - i) l = drop (length l - n) l"
  proof -
    have "drop (length l - n) l = drop (length l - n) (l' @ drop (length l - i) l)" by (simp add: l'_def)
    also have "\<dots> = drop (length l' - j) l' @ drop (length l - i) l"
      using ll by (simp add: nij)
    finally show ?thesis by simp
  qed
  ultimately show ?thesis
    using does_trans [OF a(2) b(2)] a(1) b(1) by (simp add: key_wleft_def nij replicate_add flip: append_assoc)
qed

lemma key_wright_ok:
  assumes "line_is rdl l r" and n: "n = word_len r"
  shows "\<exists>rdl'. key_wright rdl = Some rdl' \<and>
    does rdl rdl' (l @ take n r) (drop n r) (concat (replicate n vt100_right_arr))"
proof -
  have z: "0 \<notin> set r" using assms(1) by (simp add: line_is_def)
  define i where "i = length (takeWhile isblank2 r)"
  obtain a where a: "move_right_while (\<lambda>c. c \<noteq> 0 \<and> isblank2 c) vt100_right_arr rdl = Some a"
    "does rdl a (l @ take i r) (drop i r) (concat (replicate i vt100_right_arr))"
    using move_right_while_ok [OF assms(1), of i "\<lambda>c. c \<noteq> 0 \<and> isblank2 c"] while_nonzero [OF z] i_def by auto
  have z': "0 \<notin> set (drop i r)" using z by (auto dest: in_set_dropD)
  define j where "j = length (takeWhile (\<lambda>c. \<not> isblank2 c) (drop i r))"
  obtain b where b: "move_right_while (\<lambda>c. c \<noteq> 0 \<and> \<not> isblank2 c) vt100_right_arr a = Some b"
    "does a b ((l @ take i r) @ take j (drop i r)) (drop j (drop i r)) (concat (replicate j vt100_right_arr))"
    using move_right_while_ok [of a "l @ take i r" "drop i r" j "\<lambda>c. c \<noteq> 0 \<and> \<not> isblank2 c"]
      a(2) while_nonzero [OF z'] j_def by (auto simp: does_def)
  have nij: "n = i + j" using n by (simp add: word_len_def i_def j_def Let_def)
  show ?thesis
    using does_trans [OF a(2) b(2)] a(1) b(1)
    by (simp add: key_wright_def nij replicate_add take_add add.commute)
qed

lemma key_ctrl_a_ok:
  assumes "line_is rdl l r"
  shows "\<exists>rdl'. key_ctrl_a rdl = Some rdl' \<and> does rdl rdl' [] (l @ r) (if l = [] then [] else left_by (length l))"
proof (cases "l = []")
  case True
  then show ?thesis using line_empty [OF assms] does_refl [OF assms] by (simp add: key_ctrl_a_def)
next
  case False
  have n: "0 < unat (CIRBUF_GET_LEN (left rdl))" "unat (CIRBUF_GET_LEN (left rdl)) < 1000"
    using False assms line_lengths [OF assms] by (simp_all add: line_is_def)
  define a where "a = rdl\<lparr>sent := sent rdl @ left_by (length l)\<rparr>"
  have a: "line_is a l r" "does rdl a l r (left_by (length l))" using assms by (simp_all add: a_def does_def)
  obtain b where b: "move_left_while (\<lambda>_. True) [] a = Some b" "does a b [] (l @ r) []"
    using move_left_while_ok [OF a(1), of "length l" "\<lambda>_. True" "[]"] by (auto simp: takeWhile_eq_all_conv [THEN iffD2])
  show ?thesis
    using False line_empty [OF assms] b(1) does_trans [OF a(2) b(2)] line_lengths [OF assms]
    by (simp add: key_ctrl_a_def miniprintf_left_by [OF n] a_def)
qed

lemma key_ctrl_e_ok:
  assumes "line_is rdl l r"
  shows "\<exists>rdl'. key_ctrl_e rdl = Some rdl' \<and> does rdl rdl' (l @ r) [] (if r = [] then [] else right_by (length r))"
proof (cases "r = []")
  case True
  then show ?thesis using line_empty [OF assms] does_refl [OF assms] by (simp add: key_ctrl_e_def)
next
  case False
  have n: "0 < unat (CIRBUF_GET_LEN (right rdl))" "unat (CIRBUF_GET_LEN (right rdl)) < 1000"
    using False assms line_lengths [OF assms] by (simp_all add: line_is_def)
  define a where "a = rdl\<lparr>sent := sent rdl @ right_by (length r)\<rparr>"
  have a: "line_is a l r" "does rdl a l r (right_by (length r))" using assms by (simp_all add: a_def does_def)
  obtain b where b: "move_right_while (\<lambda>_. True) [] a = Some b" "does a b (l @ r) [] []"
    using move_right_while_ok [OF a(1), of "length r" "\<lambda>_. True" "[]"] by (auto simp: takeWhile_eq_all_conv [THEN iffD2])
  show ?thesis
    using False line_empty [OF assms] b(1) does_trans [OF a(2) b(2)] line_lengths [OF assms]
    by (simp add: key_ctrl_e_def miniprintf_left_by [OF n] a_def)
qed

text \<open>A line of which one half shrank.\<close>

lemma line_is_shrunk:
  assumes "line_is rdl l r"
  shows "cb_ok c \<Longrightarrow> maxlen c = maxlen (left rdl) \<Longrightarrow> cb_list c = l' \<Longrightarrow> length l' \<le> length l \<Longrightarrow> set l' \<subseteq> set l \<Longrightarrow>
      does rdl (rdl\<lparr>left := c\<rparr>) l' r []"
    "cb_ok c \<Longrightarrow> maxlen c = maxlen (right rdl) \<Longrightarrow> cb_list c = l' \<Longrightarrow> length l' \<le> length r \<Longrightarrow> set l' \<subseteq> set r \<Longrightarrow>
      does rdl (rdl\<lparr>right := c\<rparr>) l l' []"
  using assms by (auto simp: line_is_def does_def others_def cb_size_def)

lemma key_bkspace_ok:
  assumes "line_is rdl l r"
  shows "\<exists>rdl'. key_bkspace rdl = Some rdl' \<and>
    (if l = [] then does rdl rdl' l r [] else does rdl rdl' (butlast l) r (vt100_bs @ right_shown r))"
proof (cases "l = []")
  case True
  then show ?thesis using line_empty [OF assms] does_refl [OF assms]
    by (simp add: key_bkspace_def cirbuf_del_tail_safe_def EINVAL_def)
next
  case False
  note A = assms [unfolded line_is_def]
  have d: "cb_ok (cirbuf_del_tail (left rdl))" "cb_list (cirbuf_del_tail (left rdl)) = butlast l"
    "maxlen (cirbuf_del_tail (left rdl)) = maxlen (left rdl)"
    using cirbuf_del_tail_ok [of "left rdl"] A False nonempty_len [of "left rdl"] by auto
  have "does rdl (rdl\<lparr>left := cirbuf_del_tail (left rdl)\<rparr>) (butlast l) r []"
    by (rule line_is_shrunk(1) [OF assms d(1,3,2)]) (auto dest: in_set_butlastD)
  moreover define a where "a = rdline_puts (rdl\<lparr>left := cirbuf_del_tail (left rdl)\<rparr>) vt100_bs"
  ultimately have "does rdl a (butlast l) r vt100_bs" by (simp add: does_def puts_sends)
  from does_display [OF this, of True]
  show ?thesis using False line_empty [OF assms]
    by (simp add: key_bkspace_def cirbuf_del_tail_safe_def a_def)
qed

lemma key_suppr_ok:
  assumes "line_is rdl l r"
  shows "\<exists>rdl'. key_suppr rdl = Some rdl' \<and>
    (if r = [] then does rdl rdl' l r [] else does rdl rdl' l (tl r) (right_shown (tl r)))"
proof (cases "r = []")
  case True
  then show ?thesis using line_empty [OF assms] does_refl [OF assms]
    by (simp add: key_suppr_def cirbuf_del_head_safe_def EINVAL_def)
next
  case False
  note A = assms [unfolded line_is_def]
  have d: "cb_ok (cirbuf_del_head (right rdl))" "cb_list (cirbuf_del_head (right rdl)) = tl r"
    "maxlen (cirbuf_del_head (right rdl)) = maxlen (right rdl)"
    using cirbuf_del_head_ok [of "right rdl"] A False nonempty_len [of "right rdl"] by auto
  have "does rdl (rdl\<lparr>right := cirbuf_del_head (right rdl)\<rparr>) l (tl r) []"
    by (rule line_is_shrunk(2) [OF assms d(1,3,2)]) (cases r; auto)+
  from does_display [OF this, of True]
  show ?thesis using False line_empty [OF assms]
    by (simp add: key_suppr_def cirbuf_del_head_safe_def)
qed

lemma key_ctrl_w_ok:
  assumes "line_is rdl l r" and n: "n = word_len (rev l)"
  shows "\<exists>rdl'. key_ctrl_w rdl = Some rdl' \<and>
    does rdl rdl' (take (length l - n) l) r (concat (replicate n vt100_bs) @ right_shown r)"
proof -
  define i where "i = length (takeWhile isblank2 (rev l))"
  obtain a where a: "drop_left_while isblank2 vt100_bs rdl = Some a"
    "does rdl a (take (length l - i) l) r (concat (replicate i vt100_bs))"
    using drop_left_while_ok [OF assms(1), of i isblank2] i_def by auto
  define l' where "l' = take (length l - i) l"
  have ll: "length l' = length l - i" "i \<le> length l" "rev l' = drop i (rev l)"
    by (simp_all add: l'_def i_def drop_rev while_length)
  define j where "j = length (takeWhile (\<lambda>c. \<not> isblank2 c) (rev l'))"
  obtain b where b: "drop_left_while (\<lambda>c. \<not> isblank2 c) vt100_bs a = Some b"
    "does a b (take (length l' - j) l') r (concat (replicate j vt100_bs))"
    using drop_left_while_ok [of a l' r j "\<lambda>c. \<not> isblank2 c"] a(2) j_def by (auto simp: does_def l'_def)
  have nij: "n = i + j" using n ll(3) by (simp add: word_len_def i_def j_def Let_def)
  have "take (length l' - j) l' = take (length l - n) l"
    by (simp add: nij ll(1) l'_def)
  then show ?thesis
    using does_display [OF does_trans [OF a(2) b(2)], of True] a(1) b(1)
    by (simp add: key_ctrl_w_def nij replicate_add)
qed

lemma key_meta_d_ok:
  assumes "line_is rdl l r" and n: "n = word_len r"
  shows "\<exists>rdl'. key_meta_d rdl = Some rdl' \<and> does rdl rdl' l (drop n r) (right_shown (drop n r))"
proof -
  define i where "i = length (takeWhile isblank2 r)"
  obtain a where a: "drop_right_while isblank2 [] rdl = Some a" "does rdl a l (drop i r) []"
    using drop_right_while_ok [OF assms(1), of i isblank2 "[]"] i_def by auto
  define j where "j = length (takeWhile (\<lambda>c. \<not> isblank2 c) (drop i r))"
  obtain b where b: "drop_right_while (\<lambda>c. \<not> isblank2 c) [] a = Some b" "does a b l (drop j (drop i r)) []"
    using drop_right_while_ok [of a l "drop i r" j "\<lambda>c. \<not> isblank2 c" "[]"] a(2) j_def by (auto simp: does_def)
  have nij: "n = i + j" using n by (simp add: word_len_def i_def j_def Let_def)
  show ?thesis
    using does_display [OF does_trans [OF a(2) b(2)], of True] a(1) b(1)
    by (simp add: key_meta_d_def nij add.commute)
qed

section \<open>Cutting, pasting and typing\<close>

definition killed :: "rdline \<Rightarrow> u8 list" where
  "killed rdl = take (unat (kill_size rdl)) (kill_buf rdl)"

definition kill_ok :: "rdline \<Rightarrow> bool" where
  "kill_ok rdl \<longleftrightarrow> length (kill_buf rdl) = 256 \<and> unat (kill_size rdl) \<le> 256 \<and> 0 \<notin> set (killed rdl)"

lemma key_ctrl_k_ok:
  assumes "line_is rdl l r" "kill_ok rdl"
  shows "\<exists>rdl'. key_ctrl_k rdl = Some rdl' \<and> line_is rdl' l [] \<and> killed rdl' = r \<and> kill_ok rdl' \<and>
    sent rdl' = sent rdl @ vt100_clear_right \<and>
    others rdl' = (fst (others rdl), (kill_buf rdl', kill_size rdl'), snd (snd (others rdl)))"
proof -
  note A = assms(1) [unfolded line_is_def]
  note B = assms(2) [unfolded kill_ok_def]
  have len: "unat (len (right rdl)) = length r" using A length_cb_list [of "right rdl"] by auto
  have c: "copied (right rdl) 256 = length r"
    using len A by (auto simp: copied_def)
  define k where "k = r @ drop (length r) (kill_buf rdl)"
  have g: "cirbuf_get_buf_head (Some (right rdl)) (Some (kill_buf rdl)) 256 = Some (int (length r), Some k)"
    using cirbuf_get_buf_head_ok [of "right rdl" 256 "kill_buf rdl"] A B c by (auto simp: k_def)
  have lk: "length k = 256" using A B by (simp add: k_def)
  obtain d where d: "snd (cirbuf_del_buf_head (Some (right rdl)) (len (right rdl))) = Some d"
    "cb_ok d" "maxlen d = maxlen (right rdl)" "cb_list d = []"
  proof (cases "len (right rdl) = 0")
    case True
    then have "r = []" using len by simp
    then show ?thesis using that [of "right rdl"] A True by (simp add: cirbuf_del_buf_head_def)
  next
    case False
    then show ?thesis using cirbuf_del_buf_head_ok [of "right rdl" "len (right rdl)"] A len that by auto
  qed
  have "key_ctrl_k rdl = Some (rdl\<lparr>kill_buf := k, kill_size := len (right rdl), right := d,
      sent := sent rdl @ vt100_clear_right\<rparr>)"
    using g d by (simp add: key_ctrl_k_def puts_sends CIRBUF_GET_LEN_def)
  then show ?thesis
    using A B d len lk
    by (simp add: line_is_def cb_size_def killed_def kill_ok_def others_def) (simp add: k_def)
qed

lemma paste_ok:
  assumes "line_is rdl l r" "i \<le> n" "n \<le> length b" "0 \<notin> set (take n b)"
  shows "\<exists>rdl'. paste b i n rdl = Some rdl' \<and>
    (let s = take (256 - length l - length r) (drop i (take n b)) in does rdl rdl' (l @ s) r s)"
  using assms
proof (induction b i n rdl arbitrary: l rule: paste.induct)
  case (1 b i n rdl)
  note A = 1(2) [unfolded line_is_def]
  note t = line_total(2) [OF 1(2)]
  show ?case
  proof (cases "length l + length r < 256 \<and> i < n")
    case False
    then have "take (256 - length l - length r) (drop i (take n b)) = []" by auto
    then show ?thesis using False t does_refl [OF 1(2)] by (subst paste.simps) auto
  next
    case True
    then have i: "i < length b" "read_at b i = Some (b ! i)" using 1(4) by (auto simp: read_at_def)
    have "unat (len (left rdl)) < cb_size (left rdl)" using A True length_cb_list [of "left rdl"] by auto
    then obtain c where c: "cirbuf_add_tail (left rdl) (b ! i) = Some c" "cb_ok c" "maxlen c = maxlen (left rdl)"
      "cb_list c = l @ [b ! i]"
      using cirbuf_add_tail_ok [of "left rdl" "b ! i"] A by auto
    have nz: "b ! i \<noteq> 0" using 1(4,5) True by (metis in_set_conv_nth length_take min.absorb2 nth_take)
    define a where "a = write_char (rdl\<lparr>left := c\<rparr>) (b ! i)"
    have a: "does rdl a (l @ [b ! i]) r [b ! i]"
      using A c nz True by (simp add: a_def write_char_def does_def line_is_def others_def cb_size_def)
    define s where "s = take (256 - Suc (length l) - length r) (drop (Suc i) (take n b))"
    have "\<exists>rdl'. paste b (Suc i) n a = Some rdl' \<and> does a rdl' ((l @ [b ! i]) @ s) r s"
      using 1(1) [of "b ! i" c "l @ [b ! i]"] True t i c(1) a 1(3-5)
      by (simp add: a_def does_def Let_def s_def)
    then obtain z where z: "paste b (Suc i) n a = Some z" "does a z ((l @ [b ! i]) @ s) r s" by blast
    have "drop i (take n b) = b ! i # drop (Suc i) (take n b)"
      using True i by (metis Cons_nth_drop_Suc length_take min_less_iff_conj nth_take)
    moreover have "256 - length l - length r = Suc (256 - Suc (length l) - length r)" using True by linarith
    ultimately have s: "take (256 - length l - length r) (drop i (take n b)) = b ! i # s" by (simp add: s_def)
    have "paste b i n rdl = Some z"
      using True t i c(1) z(1) by (subst paste.simps) (simp add: a_def)
    then show ?thesis using does_trans [OF a z(2)] s by simp
  qed
qed

text \<open>The part of a string that fits.\<close>

definition fitting :: "u8 list \<Rightarrow> u8 list \<Rightarrow> u8 list \<Rightarrow> u8 list" where
  "fitting l r s = take (256 - length l - length r) s"

definition after_shown :: "u8 list \<Rightarrow> u8 list" where
  "after_shown r = (if r = [] then [] else right_shown r)"

lemma key_ctrl_y_ok:
  assumes "line_is rdl l r" "kill_ok rdl"
  shows "\<exists>rdl'. key_ctrl_y rdl = Some rdl' \<and>
    (let s = fitting l r (killed rdl) in does rdl rdl' (l @ s) r (s @ after_shown r))"
proof -
  note B = assms(2) [unfolded kill_ok_def]
  obtain a where a: "paste (kill_buf rdl) 0 (unat (kill_size rdl)) rdl = Some a"
    "does rdl a (l @ fitting l r (killed rdl)) r (fitting l r (killed rdl))"
    using paste_ok [OF assms(1), of 0 "unat (kill_size rdl)" "kill_buf rdl"] B
    by (auto simp: Let_def fitting_def killed_def)
  show ?thesis using does_display [OF a(2), of False] a(1) by (simp add: key_ctrl_y_def after_shown_def)
qed

lemma standard_char_ok:
  assumes "line_is rdl l r"
  shows "\<exists>rdl'. standard_char c rdl = Some rdl' \<and>
    (if is_print c \<and> length l + length r < 256 then does rdl rdl' (l @ [c]) r (c # after_shown r)
     else rdl' = rdl)"
proof (cases "is_print c \<and> length l + length r < 256")
  case False
  then show ?thesis using line_total(1) [OF assms] by (auto simp: standard_char_def)
next
  case True
  note A = assms [unfolded line_is_def]
  have f: "unat (len (left rdl)) < cb_size (left rdl)" using A True length_cb_list [of "left rdl"] by auto
  then obtain b where b: "cirbuf_add_tail (left rdl) c = Some b" "cb_ok b" "maxlen b = maxlen (left rdl)"
    "cb_list b = l @ [c]"
    using cirbuf_add_tail_ok [of "left rdl" c] A by auto
  have "cirbuf_add_tail_safe (Some (left rdl)) c = Some (0, Some b)"
    using b(1) full_iff [of "left rdl"] A f by (simp add: cirbuf_add_tail_safe_def)
  moreover have "c \<noteq> 0" using True by (auto simp: is_print_def)
  then have "does rdl (write_char (rdl\<lparr>left := b\<rparr>) c) (l @ [c]) r [c]"
    using A b True by (simp add: write_char_def does_def line_is_def others_def cb_size_def)
  ultimately show ?thesis
    using True line_total(1) [OF assms] does_display [of rdl "write_char (rdl\<lparr>left := b\<rparr>) c" "l @ [c]" r "[c]" False]
    by (simp add: standard_char_def after_shown_def)
qed

text \<open>What \<open>rdline_redisplay\<close> sends.\<close>

lemma redisplay_ok:
  assumes "line_is rdl l r"
  shows "does rdl (redisplay rdl) l r (vt100_home @ take (prompt_size rdl) (prompt rdl) @ l @ right_shown r)"
proof -
  have "CIRBUF_FOREACH (left rdl) = l" using assms foreach_list [of "left rdl"] by (simp add: line_is_def)
  then have "does rdl (redisplay rdl) l r ((vt100_home @ take (prompt_size rdl) (prompt rdl) @ l) @ right_shown r)"
    unfolding redisplay_def Let_def
    using does_display [of rdl "rdl\<lparr>sent := sent rdl @ vt100_home @ take (prompt_size rdl) (prompt rdl) @ l\<rparr>" l r
        "vt100_home @ take (prompt_size rdl) (prompt rdl) @ l" True] assms
    by (simp add: does_def puts_sends)
  then show ?thesis by simp
qed

section \<open>Starting a line\<close>

lemma strnlen_string: "0 \<notin> set s \<Longrightarrow> length s \<le> n \<Longrightarrow> strnlen (s @ 0 # t) n = Some (length s)"
proof -
  assume a: "0 \<notin> set s" "length s \<le> n"
  have t: "takeWhile (\<lambda>c. c \<noteq> 0) s = s" using a(1) by (auto simp: takeWhile_eq_all_conv)
  have "length (takeWhile (\<lambda>c. c \<noteq> 0) (take n (s @ 0 # t))) = length s"
    using a by (cases "n - length s") (auto simp: takeWhile_append t)
  then show ?thesis by (simp add: strnlen_def)
qed

lemma cleared_line:
  assumes "length (buf (left rdl)) = 256" "length (buf (right rdl)) = 256"
  shows "line_is (new_line rdl) [] []"
  using assms
  by (simp add: new_line_def line_is_def cleared_def cirbuf_init_def cb_ok_def cb_size_def cb_list_def)

text \<open>What \<open>rdline_newline\<close> needs of the editor.\<close>

definition arrays_ok :: "rdline \<Rightarrow> bool" where
  "arrays_ok rdl \<longleftrightarrow> length (buf (left rdl)) = 256 \<and> length (buf (right rdl)) = 256 \<and> length (prompt rdl) = 32"

lemma newline_ok:
  assumes "arrays_ok rdl" "0 \<notin> set p" "length p \<le> 31"
  shows "\<exists>r. rdline_newline (Some rdl) (Some (Prompt (p @ 0 # t))) = Some (Some r) \<and>
    line_is r [] [] \<and> prompt_size r = length p \<and> prompt r = p @ take (31 - length p) (drop (length p) (prompt rdl)) @ [0] \<and>
    status r = RDLINE_RUNNING \<and> history_cur_line r = -1 \<and> vt100 r = vt100_init (vt100 rdl) \<and>
    kill_buf r = kill_buf rdl \<and> kill_size r = kill_size rdl \<and> sent r = sent rdl @ p \<and>
    history r = history rdl \<and> left_extra r = left_extra rdl"
proof -
  define q where "q = p @ drop (length p) (prompt rdl)"
  have lp: "length (prompt rdl) = 32" using assms(1) by (simp add: arrays_ok_def)
  have m: "memcpy (prompt (new_line rdl)) 0 (p @ 0 # t) 0 (length p) = Some q"
    using assms(3) lp by (simp add: memcpy_def q_def new_line_def)
  have q: "q[31 := 0] = p @ take (31 - length p) (drop (length p) (prompt rdl)) @ [0]"
    using assms(3) lp by (auto simp: q_def list_eq_iff_nth_eq nth_append nth_list_update)
  have w: "write_at q 31 0 = Some (q[31 := 0])" using lp assms(3) by (simp add: write_at_def q_def)
  have "line_is (new_line rdl) [] []" using cleared_line assms(1) by (simp add: arrays_ok_def)
  then show ?thesis
    using m w q strnlen_string [OF assms(2,3), of t]
    by (simp add: rdline_newline_def puts_sends) (simp add: line_is_def new_line_def)
qed

end
