(* ===== verification/Rdline_Screen.thy ===== *)
theory Rdline_Screen
  imports Rdline_Edit
begin

text \<open>
  The line editor from the bytes the user sends to what the terminal shows.  The
  editor is compared with an abstract one, on the strings before and after the
  caret and the cut string.  The terminal is a specification: the meaning the
  VT100 manual gives to the sequences the editor sends, on one row that is long
  enough.
\<close>

section \<open>The terminal\<close>

datatype terminal_mode = Text | Esc | Csi "nat option" | Up | Up_esc

type_synonym terminal = "terminal_mode \<times> u8 list \<times> u8 list"

definition caret_left :: "nat \<Rightarrow> u8 list \<Rightarrow> u8 list \<Rightarrow> terminal" where
  "caret_left n b a = (Text, take (length b - n) b, drop (length b - n) b @ a)"

definition caret_right :: "nat \<Rightarrow> u8 list \<Rightarrow> u8 list \<Rightarrow> terminal" where
  "caret_right n b a = (Text, b @ take n a, drop n a)"

definition times_given :: "nat option \<Rightarrow> nat" where
  "times_given n = (case n of None \<Rightarrow> 1 | Some n \<Rightarrow> n)"

fun terminal_step :: "terminal \<Rightarrow> u8 \<Rightarrow> terminal" where
  "terminal_step (Text, b, a) c =
    (if c = 27 then (Esc, b, a)
     else if c = 8 then caret_left 1 b a
     else if c = 13 then (Text, [], b @ a)
     else if c = 10 then (Text, replicate (length b) 32, [])
     else (Text, b @ [c], tl a))"
| "terminal_step (Esc, b, a) c =
    (if c = 91 then (Csi None, b, a) else if c = 77 then (Up, b, a) else (Text, b, a))"
| "terminal_step (Csi n, b, a) c =
    (if 48 \<le> c \<and> c \<le> 57
     then (Csi (Some ((case n of None \<Rightarrow> 0 | Some n \<Rightarrow> 10 * n) + unat (c - 48))), b, a)
     else if c = 75 then (Text, b, [])
     else if c = 67 then caret_right (times_given n) b a
     else if c = 68 then caret_left (times_given n) b a
     else (Text, b, a))"
| "terminal_step (Up, b, a) c = (if c = 27 then (Up_esc, b, a) else (Up, b, a))"
| "terminal_step (Up_esc, b, a) c = (if c = 69 then (Text, [], b @ a) else (Up, b, a))"

definition terminal_shows :: "terminal \<Rightarrow> u8 list \<Rightarrow> terminal" where
  "terminal_shows t s = foldl terminal_step t s"

lemma shows_append: "terminal_shows t (s @ s') = terminal_shows (terminal_shows t s) s'"
  by (simp add: terminal_shows_def)

lemma shows_Nil: "terminal_shows t [] = t"
  by (simp add: terminal_shows_def)

lemma shows_text:
  "(\<forall>c \<in> set s. is_print c) \<Longrightarrow> terminal_shows (Text, b, a) s = (Text, b @ s, drop (length s) a)"
proof (induction s arbitrary: b a)
  case (Cons c s)
  have "c \<noteq> 27" "c \<noteq> 8" "c \<noteq> 13" "c \<noteq> 10" using Cons.prems by (auto simp: is_print_def word_le_nat_alt)
  then show ?case using Cons.IH [of "b @ [c]" "tl a"] Cons.prems by (simp add: terminal_shows_def drop_Suc)
qed (simp add: terminal_shows_def)

lemma shows_clear_right: "terminal_shows (Text, b, a) vt100_clear_right = (Text, b, [])"
  by (simp add: terminal_shows_def vt100_clear_right_def)

lemma shows_left_arr: "terminal_shows (Text, b, a) vt100_left_arr = caret_left 1 b a"
  by (simp add: terminal_shows_def vt100_left_arr_def times_given_def)

lemma shows_right_arr: "terminal_shows (Text, b, a) vt100_right_arr = caret_right 1 b a"
  by (simp add: terminal_shows_def vt100_right_arr_def times_given_def)

lemma shows_bs: "terminal_shows (Text, b, a) vt100_bs = caret_left 1 b a"
  by (simp add: terminal_shows_def vt100_bs_def)

lemma shows_home: "terminal_shows (Text, b, a) vt100_home = (Text, [], b @ a)"
  by (simp add: terminal_shows_def vt100_home_def)

lemma shows_crnl: "terminal_shows (Text, b, a) crnl = (Text, [], [])"
  by (simp add: terminal_shows_def crnl_def)

lemma shows_digit:
  assumes "d < 10"
  shows "terminal_step (Csi n, b, a) (48 + of_nat d) = (Csi (Some ((case n of None \<Rightarrow> 0 | Some n \<Rightarrow> 10 * n) + d)), b, a)"
proof -
  have u: "unat (of_nat d :: u8) = d" using assms by (simp add: unsigned_of_nat take_bit_nat_eq_self)
  have "unat (48 + of_nat d :: u8) = 48 + d" using u assms by (simp add: unat_word_ariths)
  then have "48 \<le> (48 + of_nat d :: u8)" "(48 + of_nat d :: u8) \<le> 57" using assms by (simp_all add: word_le_nat_alt)
  then show ?thesis using u by simp
qed

lemma shows_decimal:
  "terminal_shows (Csi None, b, a) (decimal n) = (Csi (Some n), b, a)"
proof (induction n rule: less_induct)
  case (less n)
  show ?case
  proof (cases "n < 10")
    case True
    then show ?thesis using shows_digit [of n None b a] by (simp add: decimal_digits terminal_shows_def)
  next
    case False
    then have "terminal_shows (Csi None, b, a) (decimal n) =
        terminal_step (Csi (Some (n div 10)), b, a) (48 + of_nat (n mod 10))"
      using less [of "n div 10"] by (subst decimal.simps) (simp add: terminal_shows_def)
    then show ?thesis using shows_digit [of "n mod 10" "Some (n div 10)" b a] by simp
  qed
qed

lemma shows_by:
  "terminal_shows (Text, b, a) (left_by n) = caret_left n b a"
  "terminal_shows (Text, b, a) (right_by n) = caret_right n b a"
  using shows_decimal [of b a n]
  by (simp_all add: left_by_def right_by_def terminal_shows_def times_given_def)

lemma caret_left_append: "length r = n \<Longrightarrow> caret_left n (b @ r) a = (Text, b, r @ a)"
  by (simp add: caret_left_def)

lemma shows_right_shown:
  assumes "\<forall>c \<in> set r. is_print c"
  shows "terminal_shows (Text, b, a) (right_shown r) = (Text, b, r)"
  by (auto simp: right_shown_def shows_append shows_clear_right shows_text [OF assms] shows_by caret_left_append shows_Nil)

lemma shows_many_left:
  assumes "n \<le> length b" "s = vt100_left_arr \<or> s = vt100_bs"
  shows "terminal_shows (Text, b, a) (concat (replicate n s)) = caret_left n b a"
  using assms
proof (induction n arbitrary: b a)
  case (Suc n)
  have "b = butlast b @ [last b]" using Suc.prems by (cases b rule: rev_cases) auto
  then have one: "terminal_shows (Text, b, a) s = (Text, butlast b, last b # a)"
    using Suc.prems(2) caret_left_append [of "[last b]" 1 "butlast b" a] by (auto simp: shows_left_arr shows_bs)
  have "drop (length b - Suc n) b = drop (length b - Suc n) (butlast b) @ [last b]"
    using Suc.prems by (cases b rule: rev_cases) auto
  moreover have "take (length b - Suc n) b = take (length b - Suc n) (butlast b)"
    using Suc.prems by (cases b rule: rev_cases) auto
  ultimately show ?case
    using Suc one by (simp add: shows_append caret_left_def)
qed (simp add: caret_left_def shows_Nil)

lemma shows_many_right:
  assumes "n \<le> length a"
  shows "terminal_shows (Text, b, a) (concat (replicate n vt100_right_arr)) = caret_right n b a"
  using assms
proof (induction n arbitrary: b a)
  case (Suc n)
  then obtain c a' where a: "a = c # a'" by (cases a) auto
  then show ?case using Suc by (simp add: shows_append shows_right_arr caret_right_def)
qed (simp add: caret_right_def shows_Nil)

section \<open>The abstract editor\<close>

text \<open>The strings before and after the caret, and the cut string.\<close>

type_synonym edit_state = "u8 list \<times> u8 list \<times> u8 list"

definition is_edit_key :: "int \<Rightarrow> bool" where
  "is_edit_key cmd \<longleftrightarrow> cmd \<in> set [CMDLINE_KEY_CTRL_B, CMDLINE_KEY_LEFT_ARR, CMDLINE_KEY_CTRL_F, CMDLINE_KEY_RIGHT_ARR,
     CMDLINE_KEY_WLEFT, CMDLINE_KEY_WRIGHT, CMDLINE_KEY_CTRL_A, CMDLINE_KEY_CTRL_E, CMDLINE_KEY_BKSPACE,
     CMDLINE_KEY_SUPPR, CMDLINE_KEY_CTRL_D, CMDLINE_KEY_META_BKSPACE, CMDLINE_KEY_CTRL_W, CMDLINE_KEY_META_D,
     CMDLINE_KEY_CTRL_K, CMDLINE_KEY_CTRL_Y, CMDLINE_KEY_CTRL_L]"

fun edit_key :: "int \<Rightarrow> edit_state \<Rightarrow> edit_state" where
  "edit_key cmd (l, r, k) =
    (let n = word_len (rev l); m = word_len r in
     if cmd = CMDLINE_KEY_CTRL_B \<or> cmd = CMDLINE_KEY_LEFT_ARR then
       if l = [] then (l, r, k) else (butlast l, last l # r, k)
     else if cmd = CMDLINE_KEY_CTRL_F \<or> cmd = CMDLINE_KEY_RIGHT_ARR then
       if r = [] then (l, r, k) else (l @ [hd r], tl r, k)
     else if cmd = CMDLINE_KEY_WLEFT then (take (length l - n) l, drop (length l - n) l @ r, k)
     else if cmd = CMDLINE_KEY_WRIGHT then (l @ take m r, drop m r, k)
     else if cmd = CMDLINE_KEY_CTRL_A then ([], l @ r, k)
     else if cmd = CMDLINE_KEY_CTRL_E then (l @ r, [], k)
     else if cmd = CMDLINE_KEY_BKSPACE then (butlast l, r, k)
     else if cmd = CMDLINE_KEY_SUPPR \<or> cmd = CMDLINE_KEY_CTRL_D then (l, tl r, k)
     else if cmd = CMDLINE_KEY_META_BKSPACE \<or> cmd = CMDLINE_KEY_CTRL_W then (take (length l - n) l, r, k)
     else if cmd = CMDLINE_KEY_META_D then (l, drop m r, k)
     else if cmd = CMDLINE_KEY_CTRL_K then (l, [], r)
     else if cmd = CMDLINE_KEY_CTRL_Y then (l @ fitting l r k, r, k)
     else (l, r, k))"

fun edit_char :: "u8 \<Rightarrow> edit_state \<Rightarrow> edit_state" where
  "edit_char c (l, r, k) = (if length l + length r < 256 then (l @ [c], r, k) else (l, r, k))"

text \<open>
  The editor holds the abstract state, waits for a key, and the terminal shows the prompt
  \<open>p\<close> and the line with the caret in its place.
\<close>

fun editor :: "u8 list \<Rightarrow> rdline \<Rightarrow> edit_state \<Rightarrow> bool" where
  "editor p rdl (l, r, k) \<longleftrightarrow> line_is rdl l r \<and> kill_ok rdl \<and> killed rdl = k \<and> status rdl = RDLINE_RUNNING \<and>
     vt_idle (vt100 rdl) \<and> take (prompt_size rdl) (prompt rdl) = p \<and>
     (\<forall>c \<in> set (p @ l @ r @ k). is_print c) \<and>
     terminal_shows (Text, [], []) (sent rdl) = (Text, p @ l, r)"

lemma does_editor:
  assumes "editor p rdl (l, r, k)" "does rdl rdl' l' r' s"
    "\<forall>c \<in> set (l' @ r'). is_print c" "terminal_shows (Text, p @ l, r) s = (Text, p @ l', r')"
  shows "editor p rdl' (l', r', k)"
  using assms by (auto simp: does_def others_def kill_ok_def killed_def shows_append)

lemma caret_left_prompt: "n \<le> length l \<Longrightarrow>
  caret_left n (p @ l) r = (Text, p @ take (length l - n) l, drop (length l - n) l @ r)"
  by (simp add: caret_left_def)

lemma shows_one_left:
  assumes "l \<noteq> []" "s = vt100_left_arr \<or> s = vt100_bs"
  shows "terminal_shows (Text, p @ l, r) s = (Text, p @ butlast l, last l # r)"
proof -
  have "caret_left 1 (p @ l) r = (Text, p @ butlast l, last l # r)"
    using assms(1) caret_left_append [of "[last l]" 1 "p @ butlast l" r] by simp
  then show ?thesis using assms(2) by (auto simp: shows_left_arr shows_bs)
qed

section \<open>The keys, seen from outside\<close>

text \<open>Each key takes the editor to the abstract editor's next state.\<close>

definition steps_to :: "u8 list \<Rightarrow> rdline option \<Rightarrow> edit_state \<Rightarrow> bool" where
  "steps_to p m e \<longleftrightarrow> (\<exists>rdl'. m = Some rdl' \<and> editor p rdl' e)"

lemma does_steps_print:
  assumes "editor p rdl (l, r, k)" "m = Some rdl'" "does rdl rdl' l' r' s"
    "\<forall>c \<in> set (l' @ r'). is_print c" "terminal_shows (Text, p @ l, r) s = (Text, p @ l', r')"
  shows "steps_to p m (l', r', k)"
  using does_editor [OF assms(1,3-5)] assms(2) by (simp add: steps_to_def)

lemma does_steps:
  assumes e: "editor p rdl (l, r, k)" and "m = Some rdl'" "does rdl rdl' l' r' s"
    "set l' \<union> set r' \<subseteq> set l \<union> set r \<union> set k" "terminal_shows (Text, p @ l, r) s = (Text, p @ l', r')"
  shows "steps_to p m (l', r', k)"
proof (rule does_steps_print [OF assms(1-3) _ assms(5)])
  have "\<forall>c \<in> set l \<union> set r \<union> set k. is_print c" using e by auto
  then show "\<forall>c \<in> set (l' @ r'). is_print c" using assms(4) by fastforce
qed

lemma nothing_done:
  assumes "editor p rdl (l, r, k)" "m = Some rdl'" "does rdl rdl' l r []"
  shows "steps_to p m (l, r, k)"
  by (rule does_steps [OF assms]) (auto simp: shows_Nil)

lemma set_tl: "set (tl l) \<subseteq> set l"
  by (cases l) auto

lemmas in_part = in_set_takeD in_set_dropD in_set_butlastD subsetD [OF set_tl]

lemma editor_facts:
  assumes "editor p rdl (l, r, k)"
  shows "line_is rdl l r" "\<forall>c \<in> set l. is_print c" "\<forall>c \<in> set r. is_print c" "\<forall>c \<in> set k. is_print c"
    "kill_ok rdl" "killed rdl = k"
  using assms by auto

lemma steps_left:
  assumes e: "editor p rdl (l, r, k)"
  shows "steps_to p (key_left rdl) (if l = [] then (l, r, k) else (butlast l, last l # r, k))"
proof -
  note E = editor_facts [OF e]
  obtain a where a: "key_left rdl = Some a"
    "if l = [] then does rdl a l r [] else does rdl a (butlast l) (last l # r) vt100_left_arr"
    using key_left_ok [OF E(1)] by blast
  show ?thesis
  proof (cases "l = []")
    case True
    then show ?thesis using nothing_done [OF e a(1)] a(2) by simp
  next
    case False
    then have "does rdl a (butlast l) (last l # r) vt100_left_arr" using a(2) by simp
    then have "steps_to p (key_left rdl) (butlast l, last l # r, k)"
      by (rule does_steps [OF e a(1)]) (use False shows_one_left [of l vt100_left_arr p r] in \<open>auto dest: in_part\<close>)
    then show ?thesis using False by simp
  qed
qed

lemma steps_right:
  assumes e: "editor p rdl (l, r, k)"
  shows "steps_to p (key_right rdl) (if r = [] then (l, r, k) else (l @ [hd r], tl r, k))"
proof -
  note E = editor_facts [OF e]
  obtain a where a: "key_right rdl = Some a"
    "if r = [] then does rdl a l r [] else does rdl a (l @ [hd r]) (tl r) vt100_right_arr"
    using key_right_ok [OF E(1)] by blast
  show ?thesis
  proof (cases "r = []")
    case True
    then show ?thesis using nothing_done [OF e a(1)] a(2) by simp
  next
    case False
    then have "does rdl a (l @ [hd r]) (tl r) vt100_right_arr" using a(2) by simp
    moreover have "terminal_shows (Text, p @ l, r) vt100_right_arr = (Text, p @ l @ [hd r], tl r)"
      using False by (cases r) (simp_all add: shows_right_arr caret_right_def)
    ultimately have "steps_to p (key_right rdl) (l @ [hd r], tl r, k)"
      by (intro does_steps [OF e a(1)]) (use False in \<open>auto dest: in_part\<close>)
    then show ?thesis using False by simp
  qed
qed

lemma steps_wleft:
  assumes e: "editor p rdl (l, r, k)" and n: "n = word_len (rev l)"
  shows "steps_to p (key_wleft rdl) (take (length l - n) l, drop (length l - n) l @ r, k)"
proof -
  note E = editor_facts [OF e]
  obtain a where a: "key_wleft rdl = Some a"
    "does rdl a (take (length l - n) l) (drop (length l - n) l @ r) (concat (replicate n vt100_left_arr))"
    using key_wleft_ok [OF E(1) n] by blast
  have le: "n \<le> length l" using n word_len_le [of "rev l"] by simp
  show ?thesis
    by (rule does_steps [OF e a])
      (use le shows_many_left [of n "p @ l" vt100_left_arr r] caret_left_prompt in \<open>auto dest: in_part\<close>)
qed

lemma steps_wright:
  assumes e: "editor p rdl (l, r, k)" and n: "n = word_len r"
  shows "steps_to p (key_wright rdl) (l @ take n r, drop n r, k)"
proof -
  note E = editor_facts [OF e]
  obtain a where a: "key_wright rdl = Some a"
    "does rdl a (l @ take n r) (drop n r) (concat (replicate n vt100_right_arr))"
    using key_wright_ok [OF E(1) n] by blast
  show ?thesis
    by (rule does_steps [OF e a])
      (use n word_len_le [of r] shows_many_right [of n r "p @ l"] in \<open>auto simp: caret_right_def dest: in_part\<close>)
qed

lemma steps_ctrl_a:
  assumes e: "editor p rdl (l, r, k)"
  shows "steps_to p (key_ctrl_a rdl) ([], l @ r, k)"
proof -
  note E = editor_facts [OF e]
  obtain a where a: "key_ctrl_a rdl = Some a" "does rdl a [] (l @ r) (if l = [] then [] else left_by (length l))"
    using key_ctrl_a_ok [OF E(1)] by blast
  show ?thesis
    by (rule does_steps [OF e a]) (use E in \<open>auto simp: shows_Nil shows_by caret_left_append\<close>)
qed

lemma steps_ctrl_e:
  assumes e: "editor p rdl (l, r, k)"
  shows "steps_to p (key_ctrl_e rdl) (l @ r, [], k)"
proof -
  note E = editor_facts [OF e]
  obtain a where a: "key_ctrl_e rdl = Some a" "does rdl a (l @ r) [] (if r = [] then [] else right_by (length r))"
    using key_ctrl_e_ok [OF E(1)] by blast
  show ?thesis
    by (rule does_steps [OF e a]) (use E in \<open>auto simp: shows_Nil shows_by caret_right_def\<close>)
qed

lemma steps_bkspace:
  assumes e: "editor p rdl (l, r, k)"
  shows "steps_to p (key_bkspace rdl) (butlast l, r, k)"
proof -
  note E = editor_facts [OF e]
  obtain a where a: "key_bkspace rdl = Some a"
    "if l = [] then does rdl a l r [] else does rdl a (butlast l) r (vt100_bs @ right_shown r)"
    using key_bkspace_ok [OF E(1)] by blast
  show ?thesis
  proof (cases "l = []")
    case True
    then show ?thesis using nothing_done [OF e a(1)] a(2) by simp
  next
    case False
    then have "does rdl a (butlast l) r (vt100_bs @ right_shown r)" using a(2) by simp
    then show ?thesis
      by (rule does_steps [OF e a(1)])
        (use False E shows_one_left [of l vt100_bs p r] in \<open>auto simp: shows_append shows_right_shown dest: in_part\<close>)
  qed
qed

lemma steps_suppr:
  assumes e: "editor p rdl (l, r, k)"
  shows "steps_to p (key_suppr rdl) (l, tl r, k)"
proof -
  note E = editor_facts [OF e]
  obtain a where a: "key_suppr rdl = Some a"
    "if r = [] then does rdl a l r [] else does rdl a l (tl r) (right_shown (tl r))"
    using key_suppr_ok [OF E(1)] by blast
  show ?thesis
  proof (cases "r = []")
    case True
    then show ?thesis using nothing_done [OF e a(1)] a(2) by simp
  next
    case False
    then have "does rdl a l (tl r) (right_shown (tl r))" using a(2) by simp
    moreover have "\<forall>c \<in> set (tl r). is_print c" using E(3) by (auto dest: in_part)
    ultimately show ?thesis
      by (intro does_steps [OF e a(1)]) (auto simp: shows_right_shown dest: in_part)
  qed
qed

lemma steps_ctrl_w:
  assumes e: "editor p rdl (l, r, k)" and n: "n = word_len (rev l)"
  shows "steps_to p (key_ctrl_w rdl) (take (length l - n) l, r, k)"
proof -
  note E = editor_facts [OF e]
  obtain a where a: "key_ctrl_w rdl = Some a"
    "does rdl a (take (length l - n) l) r (concat (replicate n vt100_bs) @ right_shown r)"
    using key_ctrl_w_ok [OF E(1) n] by blast
  have le: "n \<le> length l" using n word_len_le [of "rev l"] by simp
  show ?thesis
    by (rule does_steps [OF e a])
      (use E(3) le shows_many_left [of n "p @ l" vt100_bs r] caret_left_prompt
        in \<open>auto simp: shows_append shows_right_shown dest: in_part\<close>)
qed

lemma steps_meta_d:
  assumes e: "editor p rdl (l, r, k)" and n: "n = word_len r"
  shows "steps_to p (key_meta_d rdl) (l, drop n r, k)"
proof -
  note E = editor_facts [OF e]
  obtain a where a: "key_meta_d rdl = Some a" "does rdl a l (drop n r) (right_shown (drop n r))"
    using key_meta_d_ok [OF E(1) n] by blast
  have "\<forall>c \<in> set (drop n r). is_print c" using E(3) by (auto dest: in_part)
  then show ?thesis
    by (intro does_steps [OF e a]) (auto simp: shows_right_shown dest: in_part)
qed

lemma steps_ctrl_k:
  assumes e: "editor p rdl (l, r, k)"
  shows "steps_to p (key_ctrl_k rdl) (l, [], r)"
proof -
  note E = editor_facts [OF e]
  obtain a where "key_ctrl_k rdl = Some a" "line_is a l []" "killed a = r" "kill_ok a"
    "sent a = sent rdl @ vt100_clear_right" "fst (others a) = fst (others rdl)" "snd (snd (others a)) = snd (snd (others rdl))"
    using key_ctrl_k_ok [OF E(1,5)] by auto
  then show ?thesis using e by (auto simp: steps_to_def others_def shows_append shows_clear_right)
qed

lemma shows_after:
  assumes "\<forall>c \<in> set r. is_print c" "a = drop n r"
  shows "terminal_shows (Text, b, a) (after_shown r) = (Text, b, r)"
  using assms by (auto simp: after_shown_def shows_Nil shows_right_shown)

lemma steps_ctrl_y:
  assumes e: "editor p rdl (l, r, k)"
  shows "steps_to p (key_ctrl_y rdl) (l @ fitting l r k, r, k)"
proof -
  note E = editor_facts [OF e]
  obtain a where a: "key_ctrl_y rdl = Some a"
    "does rdl a (l @ fitting l r k) r (fitting l r k @ after_shown r)"
    using key_ctrl_y_ok [OF E(1,5)] E(6) by (auto simp: Let_def)
  have f: "set (fitting l r k) \<subseteq> set k" by (auto simp: fitting_def dest: in_part)
  then have "\<forall>c \<in> set (fitting l r k). is_print c" using E(4) by blast
  then show ?thesis
    by (intro does_steps [OF e a]) (use E(3) f in \<open>auto simp: shows_append shows_text shows_after\<close>)
qed

lemma steps_redisplay:
  assumes e: "editor p rdl (l, r, k)"
  shows "steps_to p (Some (redisplay rdl)) (l, r, k)"
proof -
  note E = editor_facts [OF e]
  have p: "take (prompt_size rdl) (prompt rdl) = p" "\<forall>c \<in> set p. is_print c" using e by auto
  show ?thesis
    by (rule does_steps [OF e refl redisplay_ok [OF E(1)]])
      (use E p in \<open>auto simp: shows_append shows_home shows_text shows_right_shown\<close>)
qed

lemma steps_char:
  assumes e: "editor p rdl (l, r, k)" and c: "is_print c"
  shows "steps_to p (standard_char c rdl) (edit_char c (l, r, k))"
proof -
  note E = editor_facts [OF e]
  obtain a where a: "standard_char c rdl = Some a"
    "if is_print c \<and> length l + length r < 256 then does rdl a (l @ [c]) r (c # after_shown r) else a = rdl"
    using standard_char_ok [OF E(1)] by blast
  show ?thesis
  proof (cases "length l + length r < 256")
    case True
    then have d: "does rdl a (l @ [c]) r ([c] @ after_shown r)" using a(2) c by simp
    have "terminal_shows (Text, p @ l, r) ([c] @ after_shown r) = (Text, p @ l @ [c], r)"
      unfolding shows_append
      using shows_text [of "[c]" "p @ l" r] c shows_after [OF E(3), of "drop 1 r" 1] by simp
    then have "steps_to p (standard_char c rdl) (l @ [c], r, k)"
      by (intro does_steps_print [OF e a(1) d]) (use E c in auto)
    then show ?thesis using True by simp
  next
    case False
    then show ?thesis using a e by (simp add: steps_to_def)
  qed
qed

section \<open>Sessions\<close>

text \<open>Bytes fed one after the other.\<close>

fun rdline_feed ::
  "validate_fn option \<Rightarrow> complete_fn option \<Rightarrow> rdline option \<Rightarrow> u8 list \<Rightarrow> (int list \<times> rdline option) option" where
  "rdline_feed validate complete rdl [] = Some ([], rdl)"
| "rdline_feed validate complete rdl (c # cs) = do {
     (r, rdl) \<leftarrow> rdline_char_in validate complete rdl c;
     (rs, rdl) \<leftarrow> rdline_feed validate complete rdl cs;
     Some (r # rs, rdl) }"

lemma feed_append: "rdline_feed v c rdl (s @ s') =
  do { (rs, rdl) \<leftarrow> rdline_feed v c rdl s; (rs', rdl) \<leftarrow> rdline_feed v c rdl s'; Some (rs @ rs', rdl) }"
  by (induction s arbitrary: rdl) (auto split: Option.bind_splits)

text \<open>A key of the editing keys, or a character of the line.\<close>

datatype keystroke = Key nat | Typed u8

fun keystroke_ok :: "keystroke \<Rightarrow> bool" where
  "keystroke_ok (Key i) \<longleftrightarrow> is_edit_key (int i)"
| "keystroke_ok (Typed c) \<longleftrightarrow> is_print c \<and> c \<noteq> 63"

fun keystroke_bytes :: "keystroke \<Rightarrow> u8 list" where
  "keystroke_bytes (Key i) = cmdline_vt100_commands ! i"
| "keystroke_bytes (Typed c) = [c]"

fun edit_stroke :: "keystroke \<Rightarrow> edit_state \<Rightarrow> edit_state" where
  "edit_stroke (Key i) e = edit_key (int i) e"
| "edit_stroke (Typed c) e = edit_char c e"

lemma edit_key_bound: "is_edit_key (int i) \<Longrightarrow> i < 26"
  by (auto simp: is_edit_key_def key_defs)

lemma key_cases:
  assumes e: "editor p rdl (l, r, k)" and "is_edit_key cmd"
  shows "\<exists>x rdl'. rdline_key v c cmd rdl = Some (x, rdl') \<and> x \<in> {RDLINE_RES_SUCCESS, RDLINE_RES_EOF} \<and>
    editor p rdl' (edit_key cmd (l, r, k))"
proof -
  have S: "steps_to p m e' \<Longrightarrow> \<exists>x rdl'. success m = Some (x, rdl') \<and>
      x \<in> {RDLINE_RES_SUCCESS, RDLINE_RES_EOF} \<and> editor p rdl' e'" for m e'
    by (auto simp: steps_to_def success_def)
  note K = steps_left [OF e] steps_right [OF e] steps_wleft [OF e refl] steps_wright [OF e refl] steps_ctrl_a [OF e]
    steps_ctrl_e [OF e] steps_bkspace [OF e] steps_suppr [OF e] steps_ctrl_w [OF e refl] steps_meta_d [OF e refl]
    steps_ctrl_k [OF e] steps_ctrl_y [OF e] steps_redisplay [OF e]
  have L: "line_is rdl l r" using e by simp
  note def = rdline_key_def key_defs line_empty [OF L] Let_def
  consider "cmd = 12 \<or> cmd = 3" | "cmd = 11 \<or> cmd = 2" | "cmd = 19" | "cmd = 20" | "cmd = 6" | "cmd = 7" | "cmd = 4"
    | "cmd = 13 \<or> cmd = 15" | "cmd = 18 \<or> cmd = 22" | "cmd = 25" | "cmd = 8" | "cmd = 9" | "cmd = 16"
    using assms(2) by (auto simp: is_edit_key_def key_defs)
  then show ?thesis
  proof cases
    case 1 then show ?thesis using S [OF K(1)] by (auto simp: def simp del: editor.simps)
  next
    case 2 then show ?thesis using S [OF K(2)] by (auto simp: def simp del: editor.simps)
  next
    case 3 then show ?thesis using S [OF K(3)] by (simp add: def del: editor.simps)
  next
    case 4 then show ?thesis using S [OF K(4)] by (simp add: def del: editor.simps)
  next
    case 5 then show ?thesis using S [OF K(5)] by (simp add: def del: editor.simps)
  next
    case 6 then show ?thesis using S [OF K(6)] by (simp add: def del: editor.simps)
  next
    case 7 then show ?thesis using S [OF K(7)] by (simp add: def del: editor.simps)
  next
    case 8 then show ?thesis using S [OF K(8)] e by (auto simp: def simp del: editor.simps)
  next
    case 9 then show ?thesis using S [OF K(9)] by (auto simp: def simp del: editor.simps)
  next
    case 10 then show ?thesis using S [OF K(10)] by (simp add: def del: editor.simps)
  next
    case 11 then show ?thesis using S [OF K(11)] by (simp add: def del: editor.simps)
  next
    case 12 then show ?thesis using S [OF K(12)] by (simp add: def del: editor.simps)
  next
    case 13 then show ?thesis using S [OF K(13)] by (simp add: def del: editor.simps)
  qed
qed

text \<open>The bytes of a control sequence act as its key, at the last one.\<close>

lemma feed_sequence:
  assumes "vt100_run (vt100 rdl) s = (replicate (length s - 1) (-2) @ [cmd], vt')" "s \<noteq> []" "0 \<le> cmd"
    "status rdl = RDLINE_RUNNING"
  shows "rdline_feed v c (Some rdl) s =
    do { (x, rdl) \<leftarrow> rdline_key v c cmd (rdl\<lparr>vt100 := vt'\<rparr>);
         Some (replicate (length s - 1) RDLINE_RES_SUCCESS @ [x], Some rdl) }"
  using assms
proof (induction s arbitrary: rdl)
  case (Cons b s)
  obtain x vt1 where p: "vt100_parser (vt100 rdl) b = (x, vt1)" by (cases "vt100_parser (vt100 rdl) b")
  obtain xs vt2 where q: "vt100_run vt1 s = (xs, vt2)" by (cases "vt100_run vt1 s")
  show ?case
  proof (cases "s = []")
    case True
    then show ?thesis using Cons.prems p by (auto simp: rdline_char_in_def split: Option.bind_splits)
  next
    case False
    then obtain n where n: "length s = Suc n" by (cases s) auto
    have x: "x = -2" "xs = replicate (length s - 1) (-2) @ [cmd]" "vt2 = vt'"
      using Cons.prems(1) p q n by auto
    have "rdline_feed v c (Some (rdl\<lparr>vt100 := vt1\<rparr>)) s =
      do { (x, rdl) \<leftarrow> rdline_key v c cmd (rdl\<lparr>vt100 := vt'\<rparr>);
           Some (replicate n RDLINE_RES_SUCCESS @ [x], Some rdl) }"
      using Cons.IH [of "rdl\<lparr>vt100 := vt1\<rparr>"] q x n False Cons.prems(3,4) by simp
    then show ?thesis
      using p x(1) Cons.prems(4) n by (auto simp: rdline_char_in_def split: Option.bind_splits)
  qed
qed simp

lemma editor_vt: "editor p rdl e \<Longrightarrow> vt_idle vt \<Longrightarrow> editor p (rdl\<lparr>vt100 := vt\<rparr>) e"
  by (cases e) (simp add: line_is_def kill_ok_def killed_def)

lemma stroke_ok:
  assumes e: "editor p rdl e" and ok: "keystroke_ok k"
  shows "\<exists>xs rdl'. rdline_feed v c (Some rdl) (keystroke_bytes k) = Some (xs, Some rdl') \<and>
    set xs \<subseteq> {RDLINE_RES_SUCCESS, RDLINE_RES_EOF} \<and> editor p rdl' (edit_stroke k e)"
proof (cases k)
  case (Key i)
  then have k: "is_edit_key (int i)" "i < 26" using ok edit_key_bound by auto
  obtain l r q where lrq: "e = (l, r, q)" by (cases e)
  have idle: "vt_idle (vt100 rdl)" and run: "status rdl = RDLINE_RUNNING" using e lrq by auto
  obtain vt' b where vt: "vt100_run (vt100 rdl) (cmdline_vt100_commands ! i) =
      (replicate (length (cmdline_vt100_commands ! i) - 1) (-2) @ [match_command b (length (cmdline_vt100_commands ! i))], vt')"
    "take (length (cmdline_vt100_commands ! i)) b = cmdline_vt100_commands ! i" "vt_idle vt'"
    using run_followed [OF idle commands_followed [OF k(2)]] by blast
  have ne: "cmdline_vt100_commands ! i \<noteq> []" using commands_followed [OF k(2)] by auto
  have "editor p (rdl\<lparr>vt100 := vt'\<rparr>) (l, r, q)" by (rule editor_vt) (use e lrq vt in simp_all)
  from key_cases [OF this k(1), of v c] obtain x rdl' where x: "rdline_key v c (int i) (rdl\<lparr>vt100 := vt'\<rparr>) = Some (x, rdl')"
    "x \<in> {RDLINE_RES_SUCCESS, RDLINE_RES_EOF}" "editor p rdl' (edit_key (int i) (l, r, q))" by blast
  show ?thesis
    using feed_sequence [OF vt(1) [unfolded match_own [OF k(2) vt(2)]] ne _ run, of v c] x lrq Key
    by (auto split: if_splits)
next
  case (Typed ch)
  then have ch: "is_print ch" "ch \<noteq> 63" using ok by auto
  obtain l r q where lrq: "e = (l, r, q)" by (cases e)
  have idle: "vt_idle (vt100 rdl)" and run: "status rdl = RDLINE_RUNNING" using e lrq by auto
  have r: "32 \<le> ch" "ch \<le> 126" using ch(1) by (auto simp: is_print_def)
  have "ch \<noteq> 27" using r by (auto simp: word_le_nat_alt)
  then obtain b vt' where vt: "vt100_parser (vt100 rdl) ch = (match_command (ch # b) 1, vt')" "vt_idle vt'"
    using idle_char [OF idle] by blast
  have m: "match_command (ch # b) 1 = -1" by (rule match_printable [OF r ch(2)])
  have "editor p (rdl\<lparr>vt100 := vt'\<rparr>) (l, r, q)" by (rule editor_vt) (use e lrq vt in simp_all)
  from steps_char [OF this ch(1)] obtain a where "standard_char ch (rdl\<lparr>vt100 := vt'\<rparr>) = Some a"
    "editor p a (edit_char ch (l, r, q))" by (auto simp: steps_to_def simp del: edit_char.simps)
  then show ?thesis
    using vt(1) m run lrq Typed
    by (simp add: rdline_char_in_def success_def del: edit_char.simps editor.simps)
qed

text \<open>C28: whatever a user types and edits, the line editor stays inside its memory, its line and cut string are
  those of an abstract editor on strings, and the terminal shows the prompt, the line and the caret where they are.\<close>

theorem rdline_edits_line:
  assumes "editor p rdl e" "\<forall>k \<in> set ks. keystroke_ok k"
  shows "\<exists>xs rdl'. rdline_feed v c (Some rdl) (concat (map keystroke_bytes ks)) = Some (xs, Some rdl') \<and>
    set xs \<subseteq> {RDLINE_RES_SUCCESS, RDLINE_RES_EOF} \<and> editor p rdl' (fold edit_stroke ks e)"
  using assms
proof (induction ks arbitrary: rdl e)
  case (Cons k ks)
  obtain xs a where a: "rdline_feed v c (Some rdl) (keystroke_bytes k) = Some (xs, Some a)"
    "set xs \<subseteq> {RDLINE_RES_SUCCESS, RDLINE_RES_EOF}" "editor p a (edit_stroke k e)"
    using stroke_ok [OF Cons.prems(1), of k v c] Cons.prems(2) by auto
  obtain ys b where "rdline_feed v c (Some a) (concat (map keystroke_bytes ks)) = Some (ys, Some b)"
    "set ys \<subseteq> {RDLINE_RES_SUCCESS, RDLINE_RES_EOF}" "editor p b (fold edit_stroke ks (edit_stroke k e))"
    using Cons.IH [OF a(3)] Cons.prems(2) by auto
  then show ?case using a by (auto simp: feed_append)
qed simp

section \<open>The first line\<close>

text \<open>C33: after \<open>rdline_init\<close> and \<open>rdline_newline\<close> with a prompt of up to 31 printable characters, the editor
  is ready, with an empty line behind the prompt.\<close>

theorem rdline_starts:
  assumes "length p \<le> 31" "\<forall>c \<in> set p. is_print c"
  shows "\<exists>r0 r. rdline_init (Some rdl) (Some w) (Some v) (Some c) = (0, Some r0) \<and>
    rdline_newline (Some r0) (Some (Prompt (p @ [0]))) = Some (Some r) \<and> editor p r ([], [], [])"
proof -
  obtain r0 where r0: "rdline_init (Some rdl) (Some w) (Some v) (Some c) = (0, Some r0)"
    "left r0 = zero_cirbuf 256" "right r0 = zero_cirbuf 256" "prompt r0 = replicate 32 0" "kill_size r0 = 0"
    "kill_buf r0 = replicate 256 0" "vt_idle (vt100 r0)" "sent r0 = []"
    by (auto simp: rdline_init_def cirbuf_init_def zero_rdline_def vt_idle_def vt_ok_def)
  have "arrays_ok r0" using r0 by (simp add: arrays_ok_def zero_cirbuf_def)
  moreover have z: "0 \<notin> set p" using assms(2) by (auto simp: is_print_def)
  ultimately obtain r where r: "rdline_newline (Some r0) (Some (Prompt (p @ [0]))) = Some (Some r)"
    "line_is r [] []" "prompt_size r = length p" "prompt r = p @ take (31 - length p) (drop (length p) (prompt r0)) @ [0]"
    "status r = RDLINE_RUNNING" "vt100 r = vt100_init (vt100 r0)"
    "kill_buf r = kill_buf r0" "kill_size r = kill_size r0" "sent r = sent r0 @ p"
    using newline_ok [of r0 p "[]"] assms(1) by auto
  have "editor p r ([], [], [])"
    using r r0 assms shows_text [of p "[]" "[]"]
    by (simp add: kill_ok_def killed_def vt_idle_def vt_ok_def vt100_init_def)
  then show ?thesis using r0(1) r(1) by blast
qed

theorem rdline_starts_witness:
  "\<exists>r0 r. rdline_init (Some zero_rdline) (Some ()) (Some ()) (Some ()) = (0, Some r0) \<and>
    rdline_newline (Some r0) (Some (Prompt [62, 32, 0])) = Some (Some r) \<and> editor [62, 32] r ([], [], [])"
  using rdline_starts [of "[62, 32]" zero_rdline "()" "()" "()"] by (simp add: is_print_def word_le_nat_alt del: editor.simps)



definition sample_rdline :: rdline where
  "sample_rdline = the (snd (rdline_init (Some zero_rdline) (Some ()) (Some ()) (Some ())))"

theorem rdline_edits_line_witness:
  "\<exists>r xs rdl'. rdline_newline (Some sample_rdline) (Some (Prompt [62, 0])) = Some (Some r) \<and>
    rdline_feed None None (Some r) [97, 98, 32, 99, 27, 98, 11, 1, 25, 27, 91, 67, 127] = Some (xs, Some rdl') \<and>
    editor [62] rdl' ([99], [98, 32], [99])"
proof -
  obtain r where r: "rdline_newline (Some sample_rdline) (Some (Prompt [62, 0])) = Some (Some r)"
    "editor [62] r ([], [], [])"
    using rdline_starts [of "[62]" zero_rdline "()" "()" "()"]
    by (auto simp: is_print_def word_le_nat_alt sample_rdline_def simp del: editor.simps)
  let ?ks = "[Typed 97, Typed 98, Typed 32, Typed 99, Key 19, Key 8, Key 6, Key 9, Key 2, Key 4]"
  have ok: "\<forall>k \<in> set ?ks. keystroke_ok k" by (simp add: is_edit_key_def key_defs is_print_def word_le_nat_alt)
  have b: "concat (map keystroke_bytes ?ks) = [97, 98, 32, 99, 27, 98, 11, 1, 25, 27, 91, 67, 127]"
    by (simp add: cmdline_vt100_commands_def)
  have f: "fold edit_stroke ?ks ([], [], []) = ([99], [98, 32], [99])"
    by (simp add: key_defs word_len_def isblank2_def fitting_def Let_def)
  show ?thesis using rdline_edits_line [OF r(2) ok, of None None] r(1) unfolding b f by blast
qed

end
