(* ===== verification/Rdline_History.thy ===== *)
theory Rdline_History
  imports Rdline_Edit
begin

text \<open>
  The history of the line editor: a circular buffer of NUL-terminated lines as a
  bounded list of lines, the whole line as one string, and the keys that use them.
\<close>

section \<open>The list of lines\<close>

text \<open>From the oldest to the latest.\<close>

definition stored_lines :: "u8 list list \<Rightarrow> u8 list" where
  "stored_lines ls = concat (map (\<lambda>s. s @ [0]) ls)"

definition history_is :: "u8 cirbuf \<Rightarrow> u8 list list \<Rightarrow> bool" where
  "history_is h ls \<longleftrightarrow> cb_ok h \<and> cb_size h = 8192 \<and> cb_list h = stored_lines ls \<and>
     (\<forall>s \<in> set ls. 0 \<notin> set s \<and> length s \<le> 256)"

text \<open>The oldest lines go until one of \<open>n\<close> characters fits.\<close>

fun forget :: "nat \<Rightarrow> u8 list list \<Rightarrow> u8 list list" where
  "forget n [] = []"
| "forget n (s # ls) = (if n + length (stored_lines (s # ls)) < 8192 then s # ls else forget n ls)"

lemma stored_simps [simp]: "stored_lines [] = []" "stored_lines (s # ls) = s @ 0 # stored_lines ls"
  "stored_lines (ls @ ls') = stored_lines ls @ stored_lines ls'"
  by (simp_all add: stored_lines_def)

lemma forget_fits: "n < 8192 \<Longrightarrow> n + length (stored_lines (forget n ls)) < 8192"
  by (induction ls) simp_all

lemma forget_suffix: "\<exists>k. forget n ls = drop k ls"
proof (induction ls)
  case (Cons s ls)
  then obtain k where "forget n ls = drop k ls" by blast
  then have "forget n (s # ls) = drop (if n + length (stored_lines (s # ls)) < 8192 then 0 else Suc k) (s # ls)" by simp
  then show ?case by blast
qed simp

lemma forget_subset: "set (forget n ls) \<subseteq> set ls"
  using forget_suffix [of n ls] by (auto dest: in_set_dropD)

section \<open>Forgetting\<close>

lemma remove_old_item_ok:
  assumes "cb_ok h" "cb_list h = s @ 0 # t" "0 \<notin> set s"
  shows "\<exists>h'. remove_old_item h = Some h' \<and> cb_ok h' \<and> maxlen h' = maxlen h \<and> cb_list h' = t"
  using assms
proof (induction s arbitrary: h)
  case (Cons c s)
  have ne: "cb_list h \<noteq> []" using Cons.prems by simp
  note d = cirbuf_del_head_ok [OF Cons.prems(1) nonempty_len [OF ne]]
  obtain h' where "remove_old_item (cirbuf_del_head h) = Some h'" "cb_ok h'" "maxlen h' = maxlen h" "cb_list h' = t"
    using Cons.IH [OF d(1)] d Cons.prems by auto
  moreover have "remove_old_item h = remove_old_item (cirbuf_del_head h)"
    using Cons.prems ne head.peek_hd [OF Cons.prems(1) ne] head.emp_iff [OF Cons.prems(1)]
    by (subst remove_old_item.simps) auto
  ultimately show ?case by auto
next
  case Nil
  have ne: "cb_list h \<noteq> []" using Nil by simp
  note d = cirbuf_del_head_ok [OF Nil(1) nonempty_len [OF ne]]
  have "remove_old_item h = Some (cirbuf_del_head h)"
    using Nil ne head.peek_hd [OF Nil(1) ne] head.emp_iff [OF Nil(1)]
    by (subst remove_old_item.simps) simp
  then show ?case using d Nil by simp
qed

lemma remove_old_ok:
  assumes "history_is (history rdl) (s # ls)"
  shows "\<exists>h. rdline_remove_old_history_item rdl = Some (rdl\<lparr>history := h\<rparr>) \<and> history_is h ls"
proof -
  obtain h where "remove_old_item (history rdl) = Some h" "cb_ok h" "maxlen h = maxlen (history rdl)" "cb_list h = stored_lines ls"
    using remove_old_item_ok [of "history rdl" s "stored_lines ls"] assms by (auto simp: history_is_def)
  then show ?thesis using assms by (auto simp: rdline_remove_old_history_item_def history_is_def cb_size_def)
qed

lemma nonzero_end: "takeWhile (\<lambda>c. c \<noteq> 0) (rev (stored_lines ls)) = []"
  "dropWhile (\<lambda>c. c \<noteq> 0) (rev (stored_lines ls)) = rev (stored_lines ls)"
  by (cases ls rule: rev_cases; simp)+

lemma remove_first_ok:
  assumes "history_is (history rdl) ls"
  shows "\<exists>h. rdline_remove_first_history_item rdl = Some (rdl\<lparr>history := h\<rparr>) \<and> history_is h (butlast ls)"
proof (cases ls rule: rev_cases)
  case Nil
  then have "CIRBUF_IS_EMPTY (history rdl)"
    using assms head.emp_iff [of "history rdl"] by (simp add: history_is_def)
  then show ?thesis using assms Nil
    by (intro exI [of _ "history rdl"]) (simp add: rdline_remove_first_history_item_def)
next
  case (snoc ls' s)
  note H = assms [unfolded history_is_def]
  have ne: "cb_list (history rdl) \<noteq> []" using H snoc by simp
  note d = cirbuf_del_tail_ok [OF conjunct1 [OF H] nonempty_len [OF ne]]
  have l: "cb_list (cirbuf_del_tail (history rdl)) = stored_lines ls' @ s"
    using d(3) H snoc by (simp add: butlast_append)
  have z: "0 \<notin> set (rev s)" using H snoc by simp
  have w: "takeWhile (\<lambda>c. c \<noteq> 0) (rev s @ rev (stored_lines ls')) = rev s"
    "dropWhile (\<lambda>c. c \<noteq> 0) (rev s @ rev (stored_lines ls')) = rev (stored_lines ls')"
    using z nonzero_end [of ls'] by (subst takeWhile_append2 dropWhile_append2; auto)+
  obtain h where h: "drop_while CIRBUF_IS_EMPTY cirbuf_get_tail cirbuf_del_tail (\<lambda>c. c \<noteq> 0) ([] :: u8 list)
      (cirbuf_del_tail (history rdl)) [] = Some (h, [])"
    "cb_ok h" "rev (cb_list h) = rev (stored_lines ls')" "cb_room h = cb_room (cirbuf_del_tail (history rdl)) + length s"
    using tail.drop_while_ok [OF d(1), of "\<lambda>c. c \<noteq> 0" "[] :: u8 list" "[]"] l w by auto
  have lh: "cb_list h = stored_lines ls'" using h(3) by simp
  have "cb_size h = cb_size (cirbuf_del_tail (history rdl))"
    by (rule size_from_room [OF d(1) h(2)]) (use h(4) l lh in auto)
  then have "cb_size h = 8192" using d(2) H by (simp add: cb_size_def)
  moreover have "\<not> CIRBUF_IS_EMPTY (history rdl)" using head.emp_iff [of "history rdl"] H ne by simp
  ultimately show ?thesis
    using h lh H snoc
    by (intro exI [of _ h]) (auto simp: rdline_remove_first_history_item_def history_is_def)
qed

lemma make_room_ok:
  assumes "history_is (history rdl) ls" "n < 8192"
  shows "\<exists>h. make_room n rdl = Some (rdl\<lparr>history := h\<rparr>) \<and> history_is h (forget n ls)"
  using assms
proof (induction ls arbitrary: rdl)
  case Nil
  have f: "unat (CIRBUF_GET_FREELEN (history rdl)) = 8192"
    using Nil freelen_unat [of "history rdl"] length_cb_list [of "history rdl"] by (auto simp: history_is_def)
  have "\<not> CIRBUF_GET_FREELEN (history rdl) \<le> of_nat n"
    using f Nil(2) of_nat_u32 [of n] by (simp add: word_le_nat_alt)
  then show ?case using Nil by (intro exI [of _ "history rdl"]) (subst make_room.simps, simp)
next
  case (Cons s ls)
  note H = Cons.prems(1) [unfolded history_is_def]
  have f: "unat (CIRBUF_GET_FREELEN (history rdl)) = 8192 - length (stored_lines (s # ls))"
    using H freelen_unat [of "history rdl"] length_cb_list [of "history rdl"] by auto
  have u: "unat (of_nat n :: u32) = n" by (rule of_nat_u32) (use Cons.prems(2) in simp)
  have iff: "CIRBUF_GET_FREELEN (history rdl) \<le> of_nat n \<longleftrightarrow> \<not> n + length (stored_lines (s # ls)) < 8192"
    using f u by (auto simp: word_le_nat_alt)
  show ?case
  proof (cases "n + length (stored_lines (s # ls)) < 8192")
    case True
    then show ?thesis using Cons.prems iff by (intro exI [of _ "history rdl"]) (subst make_room.simps, simp)
  next
    case False
    obtain h where h: "rdline_remove_old_history_item rdl = Some (rdl\<lparr>history := h\<rparr>)" "history_is h ls"
      using remove_old_ok [OF Cons.prems(1)] by blast
    obtain h' where "make_room n (rdl\<lparr>history := h\<rparr>) = Some (rdl\<lparr>history := h'\<rparr>)" "history_is h' (forget n ls)"
      using Cons.IH [of "rdl\<lparr>history := h\<rparr>"] h(2) Cons.prems(2) by auto
    then show ?thesis using h(1) False iff by (subst make_room.simps) auto
  qed
qed

section \<open>Adding and finding lines\<close>

text \<open>The string at \<open>b\<close> as \<open>strnlen\<close> sees it.\<close>

definition string_at :: "u8 list \<Rightarrow> u8 list" where
  "string_at b = takeWhile (\<lambda>c. c \<noteq> 0) (take 256 b)"

lemma strnlen_string_at:
  assumes "strnlen b 256 = Some n"
  shows "n = length (string_at b)" "take n b = string_at b" "n \<le> 256" "0 \<notin> set (string_at b)" "n \<le> length b"
proof -
  show n: "n = length (string_at b)" using assms by (auto simp: strnlen_def string_at_def Let_def split: if_splits)
  have le: "length (string_at b) \<le> length (take 256 b)" unfolding string_at_def by (rule length_takeWhile_le)
  then show "n \<le> 256" "n \<le> length b" using n by simp_all
  have "string_at b = take n (take 256 b)" unfolding n string_at_def by (rule takeWhile_eq_take)
  then show "take n b = string_at b" using \<open>n \<le> 256\<close> by (simp add: min_def)
  show "0 \<notin> set (string_at b)" unfolding string_at_def by (metis (mono_tags) set_takeWhileD)
qed

definition line_at :: "u8 list \<Rightarrow> u8 list" where
  "line_at b = takeWhile (\<lambda>c. c \<noteq> 10) (string_at b)"

lemma add_history_ok:
  assumes "history_is (history rdl) ls" "strnlen b 256 = Some n"
  shows "\<exists>h. rdline_add_history (Some rdl) (Some b) = Some (0, Some (rdl\<lparr>history := h\<rparr>)) \<and>
    history_is h (forget (length (line_at b)) ls @ [line_at b])"
proof -
  note S = strnlen_string_at [OF assms(2)]
  define m where "m = length (line_at b)"
  have lm: "line_at b = take m b" "m \<le> 256" "m \<le> length b" "0 \<notin> set (line_at b)"
  proof -
    have "line_at b = take m (string_at b)" unfolding m_def line_at_def by (rule takeWhile_eq_take)
    moreover have "m \<le> n" using length_takeWhile_le [of _ "string_at b"] S(1) by (simp add: m_def line_at_def)
    ultimately show "line_at b = take m b" using S(2) by (metis min.absorb1 take_take)
    show "m \<le> 256" "m \<le> length b" using \<open>m \<le> n\<close> S by simp_all
    show "0 \<notin> set (line_at b)" using S(4) by (auto simp: line_at_def dest: set_takeWhileD)
  qed
  define ls' where "ls' = forget m ls"
  obtain h where h: "make_room m rdl = Some (rdl\<lparr>history := h\<rparr>)" "history_is h ls'"
    using make_room_ok [OF assms(1), of m] lm(2) ls'_def by auto
  note H = h(2) [unfolded history_is_def]
  have room: "m + length (stored_lines ls') < 8192" using forget_fits [of m ls] lm(2) by (simp add: ls'_def)
  have u: "unat (of_nat m :: u32) = m" by (rule of_nat_u32) (use lm in simp)
  have len: "unat (len h) = length (stored_lines ls')" using H length_cb_list [of h] by auto
  obtain x h1 where h1: "cirbuf_add_buf_tail (Some h) (Some b) (of_nat m) = Some (x, Some h1)"
    "cb_ok h1" "maxlen h1 = maxlen h" "cb_list h1 = stored_lines ls' @ line_at b"
  proof (cases "m = 0")
    case True
    have "cirbuf_add_buf_tail (Some h) (Some b) (of_nat m) = Some (- EINVAL, Some h)"
      using True by (simp add: cirbuf_add_buf_tail_def)
    then show ?thesis using that [of "- EINVAL" h] H lm(1) True by simp
  next
    case False
    have "of_nat m \<le> CIRBUF_GET_FREELEN h"
      using u len room H freelen_unat [of h] by (simp add: word_le_nat_alt)
    moreover have "(of_nat m :: u32) \<noteq> 0" using u False by (metis unat_0)
    ultimately obtain h1 where "cirbuf_add_buf_tail (Some h) (Some b) (of_nat m) = Some (int m, Some h1)"
      "cb_ok h1" "maxlen h1 = maxlen h" "cb_list h1 = cb_list h @ take m b"
      using cirbuf_add_buf_tail_ok [OF conjunct1 [OF H], of "of_nat m" b] lm(3) unfolding u by blast
    then show ?thesis using that H lm(1) by metis
  qed
  have "unat (len h1) < cb_size h1"
    using h1 length_cb_list [of h1] H room m_def by (simp add: cb_size_def)
  then obtain h2 where h2: "cirbuf_add_tail h1 0 = Some h2" "cb_ok h2" "maxlen h2 = maxlen h1"
    "cb_list h2 = stored_lines ls' @ line_at b @ [0]"
    using cirbuf_add_tail_ok [OF h1(2), of 0] h1(4) by auto
  have "length (takeWhile (\<lambda>c. c \<noteq> 10) (take n b)) = m" using S(2) by (simp add: m_def line_at_def)
  then have "rdline_add_history (Some rdl) (Some b) = Some (0, Some (rdl\<lparr>history := h2\<rparr>))"
    using assms(2) lm(2) h(1) h1(1) h2(1) by (simp add: rdline_add_history_def Let_def)
  moreover have "history_is h2 (ls' @ [line_at b])"
  proof -
    have "length (line_at b) \<le> 256" using lm(2) unfolding m_def .
    then show ?thesis using h2(2-4) h1(3) H lm(4) by (simp add: history_is_def cb_size_def)
  qed
  ultimately show ?thesis unfolding ls'_def m_def by blast
qed

lemma count_nul_acc: "count_nul cs n = n + length (filter (\<lambda>c. c = 0) cs)"
  by (induction cs arbitrary: n) simp_all

lemma history_size_ok:
  assumes "history_is (history rdl) ls"
  shows "rdline_get_history_size rdl = length ls"
proof -
  have "length (filter (\<lambda>c. c = 0) (stored_lines ls)) = length ls"
    using assms unfolding history_is_def
  proof (induction ls)
    case (Cons s ls)
    have "filter (\<lambda>c. c = 0) s = []" using Cons.prems by (auto simp: filter_empty_conv)
    moreover have "length (filter (\<lambda>c. c = 0) (stored_lines ls)) = length ls" if "\<forall>s \<in> set ls. 0 \<notin> set s" for ls :: "u8 list list"
      using that by (induction ls) (auto simp: filter_empty_conv)
    ultimately show ?case using Cons.prems by simp
  qed simp
  then show ?thesis
    using assms foreach_list [of "history rdl"] by (simp add: rdline_get_history_size_def count_nul_acc history_is_def)
qed

lemma item_index_skip:
  assumes "0 \<notin> set s" "idx \<noteq> n - 1"
  shows "item_index (s @ 0 # t) i idx n = item_index t (i + Suc (length s)) idx (n - 1)"
  using assms(1) assms(2) [symmetric] by (induction s arbitrary: i) auto

lemma item_index_ok:
  assumes "\<forall>s \<in> set ls. 0 \<notin> set s" "idx < length ls"
  shows "item_index (stored_lines ls) i idx (length ls) =
    Some (i + length (stored_lines (take (length ls - 1 - idx) ls)))"
  using assms
proof (induction ls arbitrary: i)
  case (Cons s ls)
  show ?case
  proof (cases "idx = length ls")
    case True
    then show ?thesis by (cases s) simp_all
  next
    case False
    then have "item_index (stored_lines (s # ls)) i idx (length (s # ls)) =
        item_index (stored_lines ls) (i + Suc (length s)) idx (length ls)"
      using item_index_skip [of s idx "length (s # ls)" "stored_lines ls" i] Cons.prems by simp
    also have "\<dots> = Some (i + Suc (length s) + length (stored_lines (take (length ls - 1 - idx) ls)))"
      using Cons False by simp
    finally show ?thesis using False Cons.prems by (simp add: take_Cons' algebra_simps)
  qed
qed simp

lemma aligned_ok:
  assumes "cb_ok cb"
  shows "\<exists>c. aligned cb = Some c \<and> cb_ok c \<and> cb_list c = cb_list cb \<and> maxlen c = maxlen cb \<and> start c = 0"
  using align_left_ok [OF assms] by (auto simp: aligned_def same_as_def)

lemma aligned_buf:
  assumes "cb_ok c" "start c = 0"
  shows "take (length (cb_list c)) (buf c) = cb_list c"
proof -
  have "unat (len c) \<le> cb_size c" "length (buf c) = cb_size c" using assms(1) by (simp_all add: cb_ok_def)
  then show ?thesis
    using assms(2) by (auto simp: list_eq_iff_nth_eq cb_list_nth)
qed

lemma get_item_ok:
  assumes "history_is (history rdl) ls"
  shows "\<exists>h. history_is h ls \<and>
    (if length ls \<le> idx then rdline_get_history_item (Some rdl) idx = Some (None, Some rdl) \<and> h = history rdl
     else \<exists>t. rdline_get_history_item (Some rdl) idx = Some (Some ((rev ls ! idx) @ 0 # t), Some (rdl\<lparr>history := h\<rparr>)))"
proof (cases "length ls \<le> idx")
  case True
  then show ?thesis using assms history_size_ok [OF assms] by (auto simp: rdline_get_history_item_def)
next
  case False
  note H = assms [unfolded history_is_def]
  obtain h where h: "aligned (history rdl) = Some h" "cb_ok h" "cb_list h = stored_lines ls" "maxlen h = maxlen (history rdl)"
    "start h = 0"
    using aligned_ok [of "history rdl"] H by auto
  have hi: "history_is h ls" using h H by (simp add: history_is_def cb_size_def)
  define j where "j = length ls - 1 - idx"
  define i where "i = length (stored_lines (take j ls))"
  have f: "item_index (CIRBUF_FOREACH h) 0 idx (length ls) = Some i"
    using item_index_ok [of ls idx 0] False H foreach_list [OF h(2)] h(3) by (simp add: i_def j_def)
  have j: "j < length ls" "rev ls ! idx = ls ! j" using False by (auto simp: j_def rev_nth)
  have "ls = take j ls @ ls ! j # drop (Suc j) ls" using j(1) by (rule id_take_nth_drop)
  then have "stored_lines ls = stored_lines (take j ls) @ (ls ! j) @ 0 # stored_lines (drop (Suc j) ls)"
    by (metis stored_simps(2,3))
  then have d: "drop i (stored_lines ls) = (ls ! j) @ 0 # stored_lines (drop (Suc j) ls)" by (simp add: i_def)
  have "i \<le> length (stored_lines ls)" using d by (metis drop_all nle_le append_is_Nil_conv list.distinct(1))
  moreover have "buf h = stored_lines ls @ drop (length (stored_lines ls)) (buf h)"
    using aligned_buf [OF h(2,5)] h(3) by (metis append_take_drop_id)
  ultimately have "drop i (buf h) = (ls ! j) @ 0 # stored_lines (drop (Suc j) ls) @ drop (length (stored_lines ls)) (buf h)"
    using d by (metis append.assoc append_Cons drop_append diff_is_0_eq drop_0)
  then show ?thesis
    using False h(1) f hi j(2) history_size_ok [OF assms] by (auto simp: rdline_get_history_item_def)
qed

section \<open>The line as one string\<close>

lemma cb_list_cong:
  assumes "\<And>i. i < unat (len cb) \<Longrightarrow> b ! i = buf cb ! i" "start cb = 0" "unat (len cb) \<le> cb_size cb"
  shows "cb_list (cb\<lparr>buf := b\<rparr>) = cb_list cb"
  using assms by (auto simp: cb_list_def cb_size_def)

text \<open>Writing to \<open>left_buf\<close> behind the line.\<close>

lemma behind_line:
  assumes "line_is rdl l r" "start (left rdl) = 0" "length m = 258" "take (length l) m = l"
  shows "line_is (set_left_buf rdl m) l r" "left_buf (set_left_buf rdl m) = m"
    "length (left_extra (set_left_buf rdl m)) = 2"
proof -
  note A = assms(1) [unfolded line_is_def]
  have n: "unat (len (left rdl)) = length l" "length l \<le> 256" using A length_cb_list [of "left rdl"] by auto
  have "cb_list (left (set_left_buf rdl m)) = cb_list (left rdl)"
    unfolding set_left_buf_def
  proof (simp, rule cb_list_cong)
    fix i assume "i < unat (len (left rdl))"
    then have "i < length l" using n by simp
    then have "m ! i = l ! i" by (metis assms(4) nth_take)
    moreover have "buf (left rdl) ! i = l ! i"
      using aligned_buf [of "left rdl"] A assms(2) \<open>i < length l\<close> by (metis nth_take)
    ultimately show "take 256 m ! i = buf (left rdl) ! i" using \<open>i < length l\<close> n by simp
  qed (use assms(2) A n in auto)
  then show "line_is (set_left_buf rdl m) l r"
    using A assms(3) by (simp add: line_is_def set_left_buf_def cb_ok_def cb_size_def)
  show "left_buf (set_left_buf rdl m) = m" "length (left_extra (set_left_buf rdl m)) = 2"
    using assms(3) by (simp_all add: left_buf_def set_left_buf_def)
qed

definition same_but_line :: "rdline \<Rightarrow> rdline \<Rightarrow> bool" where
  "same_but_line rdl rdl' \<longleftrightarrow>
     rdl' = rdl\<lparr>left := left rdl', right := right rdl', left_extra := left_extra rdl'\<rparr>"

lemma get_buffer_ok:
  assumes "line_is rdl l r" "length (left_extra rdl) = 2"
  shows "\<exists>t rdl'. rdline_get_buffer (Some rdl) = Some (Some (l @ r @ 10 # 0 # t), Some rdl') \<and>
    line_is rdl' l r \<and> same_but_line rdl rdl' \<and> length (left_extra rdl') = 2 \<and>
    left_buf rdl' = l @ r @ 10 # 0 # t"
proof -
  note A = assms(1) [unfolded line_is_def]
  obtain a where a: "aligned (left rdl) = Some a" "cb_ok a" "cb_list a = l" "maxlen a = maxlen (left rdl)" "start a = 0"
    using aligned_ok [of "left rdl"] A by auto
  obtain b where b: "aligned (right rdl) = Some b" "cb_ok b" "cb_list b = r" "maxlen b = maxlen (right rdl)" "start b = 0"
    using aligned_ok [of "right rdl"] A by auto
  define rdl1 where "rdl1 = rdl\<lparr>left := a, right := b\<rparr>"
  have l1: "line_is rdl1 l r" using A a b by (simp add: rdl1_def line_is_def cb_size_def)
  have la: "unat (CIRBUF_GET_LEN a) = length l" and lb: "unat (CIRBUF_GET_LEN b) = length r"
    using line_lengths [OF l1] by (simp_all add: rdl1_def)
  have lr: "length l + length r \<le> 256" using A by simp
  have tot: "unat (CIRBUF_GET_LEN a + CIRBUF_GET_LEN b) = length l + length r"
    using line_total [OF l1] by (simp add: rdl1_def)
  have tot1: "unat (CIRBUF_GET_LEN a + CIRBUF_GET_LEN b + 1) = Suc (length l + length r)"
    using unat_add_exact [of "CIRBUF_GET_LEN a + CIRBUF_GET_LEN b" 1] tot lr by simp
  have ba: "length (buf a) = 256" "length (buf b) = 256"
    using l1 by (simp_all add: rdl1_def line_is_def cb_ok_def)
  define m0 where "m0 = left_buf rdl1"
  have m0: "length m0 = 258" "take (length l) m0 = l"
    using ba assms(2) aligned_buf [OF a(2,5)] a(3) lr by (simp_all add: m0_def left_buf_def rdl1_def)
  have mr: "take (length r) (buf b) = r" using aligned_buf [OF b(2,5)] b(3) by simp
  define m1 where "m1 = l @ r @ drop (length l + length r) m0"
  have c: "memcpy m0 (length l) (buf b) 0 (length r) = Some m1"
    using m0 mr lr ba(2) by (simp add: memcpy_def m1_def)
  define t where "t = drop (length l + length r + 2) m0"
  have "drop (length l + length r) m0 = m0 ! (length l + length r) # m0 ! (Suc (length l + length r)) # t"
    using m0(1) lr by (simp add: t_def Cons_nth_drop_Suc)
  then have m1: "m1 = (l @ r) @ m0 ! (length l + length r) # m0 ! (Suc (length l + length r)) # t"
    by (simp add: m1_def)
  have w1: "write_at m1 (length l + length r) 10 = Some ((l @ r) @ 10 # m0 ! (Suc (length l + length r)) # t)"
    unfolding m1 write_at_def
    using list_update_length [of "l @ r" "m0 ! (length l + length r)" "m0 ! (Suc (length l + length r)) # t" 10] by simp
  have w2: "write_at ((l @ r) @ 10 # m0 ! (Suc (length l + length r)) # t) (Suc (length l + length r)) 0 =
      Some (l @ r @ 10 # 0 # t)"
    unfolding write_at_def
    using list_update_length [of "(l @ r) @ [10]" "m0 ! (Suc (length l + length r))" t 0] by simp
  define m where "m = l @ r @ 10 # 0 # t"
  have "length m = 258" using m0(1) lr by (simp add: m_def t_def)
  then have B: "line_is (set_left_buf rdl1 m) l r" "left_buf (set_left_buf rdl1 m) = m"
    "length (left_extra (set_left_buf rdl1 m)) = 2"
    using behind_line [OF l1, of m] a(5) by (simp_all add: rdl1_def m_def)
  have "rdline_get_buffer (Some rdl) = Some (Some m, Some (set_left_buf rdl1 m))"
    using a(1) b(1) c w1 w2
    by (simp add: rdline_get_buffer_def Let_def rdl1_def [symmetric] m0_def [symmetric] la lb tot tot1 m_def)
  moreover have "same_but_line rdl (set_left_buf rdl1 m)"
    by (simp add: same_but_line_def set_left_buf_def rdl1_def)
  ultimately show ?thesis using B by (auto simp: m_def)
qed

section \<open>The invariant of the editor\<close>

definition run_ok :: "rdline \<Rightarrow> bool" where
  "run_ok rdl \<longleftrightarrow> (\<exists>l r. line_is rdl l r) \<and> (\<exists>ls. history_is (history rdl) ls) \<and> kill_ok rdl \<and>
     length (left_extra rdl) = 2 \<and> length (prompt rdl) = 32 \<and> vt_ok (vt100 rdl) \<and>
     -1 \<le> history_cur_line rdl \<and> history_cur_line rdl \<le> 8192"

text \<open>Keys that only edit.\<close>

lemma does_run: "run_ok rdl \<Longrightarrow> does rdl rdl' l r s \<Longrightarrow> run_ok rdl'"
  by (auto simp: run_ok_def does_def others_def kill_ok_def killed_def)

lemma new_line_ok:
  assumes "run_ok rdl"
  shows "run_ok (new_line rdl)" "line_is (new_line rdl) [] []"
proof -
  obtain l r where "line_is rdl l r" using assms by (auto simp: run_ok_def)
  then show l: "line_is (new_line rdl) [] []"
    using cleared_line [of rdl] by (simp add: line_is_def cb_ok_def)
  then show "run_ok (new_line rdl)"
    using assms by (auto simp: run_ok_def new_line_def kill_ok_def killed_def vt_ok_def vt100_init_def)
qed

lemma same_run:
  assumes "run_ok rdl" "line_is rdl' l r" "same_but_line rdl rdl'" "length (left_extra rdl') = 2"
  shows "run_ok rdl'"
proof -
  have "history rdl' = history rdl" "kill_buf rdl' = kill_buf rdl" "kill_size rdl' = kill_size rdl"
    "prompt rdl' = prompt rdl" "vt100 rdl' = vt100 rdl" "history_cur_line rdl' = history_cur_line rdl"
    using arg_cong [OF assms(3) [unfolded same_but_line_def], of history]
      arg_cong [OF assms(3) [unfolded same_but_line_def], of kill_buf]
      arg_cong [OF assms(3) [unfolded same_but_line_def], of kill_size]
      arg_cong [OF assms(3) [unfolded same_but_line_def], of prompt]
      arg_cong [OF assms(3) [unfolded same_but_line_def], of vt100]
      arg_cong [OF assms(3) [unfolded same_but_line_def], of history_cur_line] by simp_all
  then show ?thesis using assms(1,2,4) by (auto simp: run_ok_def kill_ok_def killed_def)
qed

lemma history_run: "run_ok rdl \<Longrightarrow> history_is h ls \<Longrightarrow> run_ok (rdl\<lparr>history := h\<rparr>)"
  by (auto simp: run_ok_def line_is_def kill_ok_def killed_def)

section \<open>The history keys\<close>

lemma display_keeps:
  assumes "line_is rdl l r"
  shows "\<exists>s. redisplay rdl = rdl\<lparr>sent := sent rdl @ s\<rparr>"
  using display_right [of "rdl\<lparr>sent := sent rdl @ vt100_home @ take (prompt_size rdl) (prompt rdl) @ CIRBUF_FOREACH (left rdl)\<rparr>" l r True]
    assms by (auto simp: redisplay_def puts_sends Let_def)

lemma run_ok_sent [simp]: "run_ok (rdl\<lparr>sent := s\<rparr>) = run_ok rdl"
  by (simp add: run_ok_def kill_ok_def killed_def)

lemma run_ok_line: "run_ok rdl \<Longrightarrow> line_is (rdl\<lparr>left := c\<rparr>) l r \<Longrightarrow> run_ok (rdl\<lparr>left := c\<rparr>)"
  by (auto simp: run_ok_def kill_ok_def killed_def)

lemma show_item_ok:
  assumes "run_ok rdl" "0 \<notin> set s" "length s \<le> 256"
  shows "\<exists>rdl'. show_item (s @ 0 # t) rdl = Some rdl' \<and> run_ok rdl' \<and> line_is rdl' s [] \<and>
    history rdl' = history rdl \<and> history_cur_line rdl' = history_cur_line rdl \<and> status rdl' = status rdl"
proof -
  note N = new_line_ok [OF assms(1)]
  note A = N(2) [unfolded line_is_def]
  have u: "unat (of_nat (length s) :: u32) = length s" by (rule of_nat_u32) (use assms(3) in simp)
  obtain x c where c: "cirbuf_add_buf_tail (Some (left (new_line rdl))) (Some (s @ 0 # t)) (of_nat (length s)) = Some (x, Some c)"
    "cb_ok c" "maxlen c = maxlen (left (new_line rdl))" "cb_list c = s"
  proof (cases "s = []")
    case True
    have "cirbuf_add_buf_tail (Some (left (new_line rdl))) (Some (s @ 0 # t)) (of_nat (length s)) =
        Some (- EINVAL, Some (left (new_line rdl)))" using True by (simp add: cirbuf_add_buf_tail_def)
    then show ?thesis using that [of "- EINVAL" "left (new_line rdl)"] A True by simp
  next
    case False
    have "unat (CIRBUF_GET_FREELEN (left (new_line rdl))) = 256"
      using A freelen_unat [of "left (new_line rdl)"] length_cb_list [of "left (new_line rdl)"] by simp
    then have "(of_nat (length s) :: u32) \<le> CIRBUF_GET_FREELEN (left (new_line rdl))"
      using u assms(3) by (simp add: word_le_nat_alt)
    moreover have "(of_nat (length s) :: u32) \<noteq> 0" using u False by (metis unat_0 length_0_conv)
    ultimately obtain c where "cirbuf_add_buf_tail (Some (left (new_line rdl))) (Some (s @ 0 # t)) (of_nat (length s)) =
        Some (int (length s), Some c)" "cb_ok c" "maxlen c = maxlen (left (new_line rdl))"
      "cb_list c = cb_list (left (new_line rdl)) @ take (length s) (s @ 0 # t)"
      using cirbuf_add_buf_tail_ok [OF conjunct1 [OF A], of "of_nat (length s)" "s @ 0 # t"] unfolding u by auto
    then show ?thesis using that A by simp
  qed
  define a where "a = (new_line rdl)\<lparr>left := c\<rparr>"
  have a: "line_is a s []" using A c assms(2,3) by (simp add: a_def line_is_def cb_size_def)
  obtain z where z: "redisplay a = a\<lparr>sent := sent a @ z\<rparr>" using display_keeps [OF a] by blast
  have "show_item (s @ 0 # t) rdl = Some (a\<lparr>sent := sent a @ z\<rparr>)"
    using strnlen_string [OF assms(2,3), of t] c(1) z by (simp add: show_item_def Let_def a_def)
  moreover have "run_ok a" using run_ok_line [OF N(1)] a unfolding a_def by blast
  ultimately show ?thesis using a by (auto simp: a_def new_line_def)
qed

lemma history_bound: "history_is h ls \<Longrightarrow> length ls \<le> 8192"
proof -
  assume h: "history_is h ls"
  have "length ls \<le> length (stored_lines ls)" by (induction ls) simp_all
  moreover have "length (stored_lines ls) \<le> 8192"
    using h length_cb_list [of h] by (auto simp: history_is_def cb_ok_def)
  ultimately show ?thesis by linarith
qed

text \<open>The line that is saved: the whole one, unless a completion put a newline in it.\<close>

lemma saved_line:
  assumes "line_is rdl l r"
  shows "line_at (l @ r @ 10 # 0 # t) = takeWhile (\<lambda>c. c \<noteq> 10) (l @ r)"
    "\<exists>n. strnlen (l @ r @ 10 # 0 # t) 256 = Some n"
proof -
  have A: "0 \<notin> set (l @ r)" "length (l @ r) \<le> 256" using assms by (auto simp: line_is_def)
  define s where "s = l @ r"
  have w: "takeWhile (\<lambda>c. c \<noteq> 0) s = s" using A by (auto simp: s_def takeWhile_eq_all_conv)
  have full: "takeWhile (\<lambda>c. c \<noteq> 0) (s @ [10]) = s @ [10 :: u8]"
    using A(1) unfolding s_def [symmetric] by (simp add: takeWhile_append)
  have sa: "string_at (s @ 10 # 0 # t) = (if length s = 256 then s else s @ [10])"
  proof (cases "length s = 256")
    case False
    then have "256 - length s = Suc (255 - length s)" "length s < 256" using A(2) s_def by auto
    then show ?thesis
      using full w by (cases "255 - length s") (auto simp: string_at_def takeWhile_append)
  qed (simp add: string_at_def w)
  have "takeWhile (\<lambda>c. c \<noteq> 10) (s @ [10]) = takeWhile (\<lambda>c. c \<noteq> 10) s"
    by (induction s) simp_all
  then have "line_at (s @ 10 # 0 # t) = takeWhile (\<lambda>c. c \<noteq> 10) s"
    by (simp add: line_at_def sa)
  then show "line_at (l @ r @ 10 # 0 # t) = takeWhile (\<lambda>c. c \<noteq> 10) (l @ r)" by (simp add: s_def)
  have "length (string_at (s @ 10 # 0 # t)) < length (s @ 10 # 0 # t)" by (simp add: sa)
  then show "\<exists>n. strnlen (l @ r @ 10 # 0 # t) 256 = Some n"
    by (simp add: strnlen_def s_def string_at_def Let_def)
qed

text \<open>What the history holds when UP or DOWN is pressed: UP first saves the line under the caret.\<close>

definition saved :: "int \<Rightarrow> u8 list \<Rightarrow> u8 list list \<Rightarrow> u8 list list" where
  "saved cur s ls =
    (let ls = (if cur = 0 then butlast ls else ls);
         s = takeWhile (\<lambda>c. c \<noteq> 10) s
     in if cur \<le> 0 then forget (length s) ls @ [s] else ls)"

definition line_shown :: "rdline \<Rightarrow> rdline \<Rightarrow> u8 list \<Rightarrow> u8 list \<Rightarrow> u8 list list \<Rightarrow> int \<Rightarrow> bool" where
  "line_shown rdl rdl' l r ls cur \<longleftrightarrow> run_ok rdl' \<and> line_is rdl' l r \<and> history_is (history rdl') ls \<and>
     history_cur_line rdl' = cur \<and> status rdl' = status rdl"

lemma same_but_line_fields:
  assumes "same_but_line rdl rdl'"
  shows "history rdl' = history rdl" "history_cur_line rdl' = history_cur_line rdl" "status rdl' = status rdl"
  using arg_cong [OF assms [unfolded same_but_line_def], of history]
    arg_cong [OF assms [unfolded same_but_line_def], of history_cur_line]
    arg_cong [OF assms [unfolded same_but_line_def], of status] by simp_all

lemma up_saves:
  assumes R: "run_ok rdl" and L: "line_is rdl l r" and H: "history_is (history rdl) ls"
  shows "\<exists>rdl'. line_shown rdl rdl' l r (saved (history_cur_line rdl) (l @ r) ls) (max 0 (history_cur_line rdl)) \<and>
    save_line rdl = Some rdl'"
proof (cases "history_cur_line rdl \<le> 0")
  case False
  then show ?thesis using assms by (simp add: line_shown_def saved_def Let_def max_def save_line_def)
next
  case True
  define ls1 where "ls1 = (if history_cur_line rdl = 0 then butlast ls else ls)"
  obtain h1 where h1: "(if history_cur_line rdl = 0 then rdline_remove_first_history_item rdl else Some rdl) =
      Some (rdl\<lparr>history := h1\<rparr>)" "history_is h1 ls1"
    using remove_first_ok [OF H] H by (cases "history_cur_line rdl = 0") (auto simp: ls1_def intro: that [of "history rdl"])
  define a where "a = rdl\<lparr>history := h1\<rparr>"
  have Ra: "run_ok a" and La: "line_is a l r" and Ea: "length (left_extra a) = 2"
    using history_run [OF R h1(2)] L R by (simp_all add: a_def line_is_def run_ok_def)
  obtain t b where b: "rdline_get_buffer (Some a) = Some (Some (l @ r @ 10 # 0 # t), Some b)"
    "line_is b l r" "same_but_line a b" "length (left_extra b) = 2"
    using get_buffer_ok [OF La Ea] by blast
  note Fb = same_but_line_fields [OF b(3)]
  have Hb: "history_is (history b) ls1" using Fb h1(2) by (simp add: a_def)
  define s where "s = takeWhile (\<lambda>c. c \<noteq> 10) (l @ r)"
  obtain n where n: "strnlen (l @ r @ 10 # 0 # t) 256 = Some n" using saved_line(2) [OF L] by blast
  obtain h2 where h2: "rdline_add_history (Some b) (Some (l @ r @ 10 # 0 # t)) = Some (0, Some (b\<lparr>history := h2\<rparr>))"
    "history_is h2 (forget (length s) ls1 @ [s])"
    using add_history_ok [OF Hb n] saved_line(1) [OF L, of t] by (auto simp: s_def)
  define c where "c = b\<lparr>history := h2, history_cur_line := 0\<rparr>"
  have "run_ok b" by (rule same_run [OF Ra b(2,3,4)])
  then have "run_ok c" using history_run [OF _ h2(2)]
    by (auto simp: c_def run_ok_def line_is_def kill_ok_def killed_def)
  then have "line_shown rdl c l r (forget (length s) ls1 @ [s]) 0"
    using b(2) h2(2) Fb by (simp add: line_shown_def c_def line_is_def a_def)
  moreover have "saved (history_cur_line rdl) (l @ r) ls = forget (length s) ls1 @ [s]"
    using True by (simp add: saved_def s_def ls1_def Let_def)
  moreover have "max 0 (history_cur_line rdl) = 0" "history_cur_line (rdl\<lparr>history := h1\<rparr>) \<le> 0" using True by simp_all
  ultimately show ?thesis
    using h1(1) b(1) h2(1) by (intro exI [of _ c]) (simp add: save_line_def a_def c_def)
qed

lemma item_shown:
  assumes "run_ok rdl" "line_is rdl l r" "history_is (history rdl) ls" "0 \<le> cur" "cur \<le> 8192"
    "history_cur_line rdl = cur"
  shows "\<exists>b rdl'. rdline_get_history_item (Some rdl) i = Some (b, Some rdl') \<and>
    (if length ls \<le> i then b = None \<and> rdl' = rdl
     else \<exists>s t. b = Some (s @ 0 # t) \<and> s = rev ls ! i \<and> 0 \<notin> set s \<and> length s \<le> 256 \<and> line_shown rdl rdl' l r ls cur)"
proof (cases "length ls \<le> i")
  case True
  then show ?thesis using get_item_ok [OF assms(3), of i] by auto
next
  case False
  obtain h t where h: "history_is h ls"
    "rdline_get_history_item (Some rdl) i = Some (Some ((rev ls ! i) @ 0 # t), Some (rdl\<lparr>history := h\<rparr>))"
    using get_item_ok [OF assms(3), of i] False by auto
  have "rev ls ! i \<in> set ls" using False by (simp add: rev_nth)
  then have "0 \<notin> set (rev ls ! i)" "length (rev ls ! i) \<le> 256" using assms(3) by (auto simp: history_is_def)
  moreover have "line_shown rdl (rdl\<lparr>history := h\<rparr>) l r ls cur"
    using history_run [OF assms(1) h(1)] assms h(1) by (simp add: line_shown_def line_is_def)
  ultimately show ?thesis using h(2) False by auto
qed

lemma key_up_ok:
  assumes "run_ok rdl" "line_is rdl l r" "history_is (history rdl) ls"
  shows "\<exists>rdl'. key_up rdl = Some rdl' \<and>
    (let ls' = saved (history_cur_line rdl) (l @ r) ls; i = nat (max 0 (history_cur_line rdl) + 1)
     in if i < length ls' then line_shown rdl rdl' (rev ls' ! i) [] ls' (int i)
        else line_shown rdl rdl' l r ls' (int i - 1))"
proof -
  define ls' where "ls' = saved (history_cur_line rdl) (l @ r) ls"
  define i where "i = nat (max 0 (history_cur_line rdl) + 1)"
  obtain a where a: "line_shown rdl a l r ls' (max 0 (history_cur_line rdl))"
    "save_line rdl = Some a"
    using up_saves [OF assms] by (auto simp: ls'_def)
  note A = a(1) [unfolded line_shown_def]
  have cur: "0 \<le> history_cur_line a" "history_cur_line a \<le> 8192" "nat (history_cur_line a + 1) = i" "int i = history_cur_line a + 1"
    using A by (auto simp: run_ok_def i_def)
  have up: "key_up rdl = do {
     (b, r) \<leftarrow> rdline_get_history_item (Some a) i;
     rdl \<leftarrow> r;
     (case b of None \<Rightarrow> Some rdl
      | Some b \<Rightarrow> show_item b (rdl\<lparr>history_cur_line := history_cur_line rdl + 1\<rparr>)) }"
    using a(2) cur(3) by (simp add: key_up_def)
  obtain b c where bc: "rdline_get_history_item (Some a) i = Some (b, Some c)"
    "if length ls' \<le> i then b = None \<and> c = a
     else \<exists>s t. b = Some (s @ 0 # t) \<and> s = rev ls' ! i \<and> 0 \<notin> set s \<and> length s \<le> 256 \<and>
       line_shown a c l r ls' (history_cur_line a)"
    using item_shown [of a l r ls' "history_cur_line a" i] A cur by blast
  show ?thesis
  proof (cases "i < length ls'")
    case False
    then have "key_up rdl = Some a" using bc up by auto
    moreover have "line_shown rdl a l r ls' (int i - 1)" using a(1) A cur(4) by simp
    ultimately show ?thesis using False by (simp add: ls'_def i_def Let_def)
  next
    case True
    then obtain s t where s: "b = Some (s @ 0 # t)" "s = rev ls' ! i" "0 \<notin> set s" "length s \<le> 256"
      "line_shown a c l r ls' (history_cur_line a)" using bc(2) by auto
    note C = s(5) [unfolded line_shown_def]
    define d where "d = c\<lparr>history_cur_line := history_cur_line c + 1\<rparr>"
    have "int i \<le> 8192" using True history_bound [of "history a" ls'] A by simp
    then have "run_ok d" using C cur(1,4)
      by (auto simp: d_def run_ok_def line_is_def kill_ok_def killed_def)
    then obtain e where e: "show_item (s @ 0 # t) d = Some e" "run_ok e" "line_is e s []" "history e = history d"
      "history_cur_line e = history_cur_line d" "status e = status d"
      using show_item_ok [OF _ s(3,4)] by blast
    have "key_up rdl = Some e" using up bc(1) s(1) e(1) by (simp add: d_def)
    moreover have "line_shown rdl e s [] ls' (int i)"
      using e C A cur(4) by (simp add: line_shown_def d_def)
    ultimately show ?thesis using True s(2) by (simp add: ls'_def i_def Let_def)
  qed
qed

lemma key_down_ok:
  assumes "run_ok rdl" "line_is rdl l r" "history_is (history rdl) ls"
  shows "\<exists>rdl'. key_down rdl = Some rdl' \<and>
    (let cur = history_cur_line rdl; i = nat (cur - 1)
     in if cur < 1 then rdl' = rdl
        else if i < length ls then line_shown rdl rdl' (rev ls ! i) [] ls (int i)
        else line_shown rdl rdl' l r ls (int i))"
proof (cases "history_cur_line rdl < 1")
  case True
  then show ?thesis by (simp add: key_down_def Let_def)
next
  case False
  define i where "i = nat (history_cur_line rdl - 1)"
  define a where "a = rdl\<lparr>history_cur_line := history_cur_line rdl - 1\<rparr>"
  have i: "int i = history_cur_line rdl - 1" using False by (simp add: i_def)
  have A: "line_shown rdl a l r ls (int i)"
    using assms False i by (auto simp: a_def line_shown_def run_ok_def line_is_def kill_ok_def killed_def)
  note A' = A [unfolded line_shown_def]
  have le: "int i \<le> 8192" using A' by (simp add: run_ok_def)
  obtain b c where bc: "rdline_get_history_item (Some a) i = Some (b, Some c)"
    "if length ls \<le> i then b = None \<and> c = a
     else \<exists>s t. b = Some (s @ 0 # t) \<and> s = rev ls ! i \<and> 0 \<notin> set s \<and> length s \<le> 256 \<and> line_shown a c l r ls (int i)"
    using item_shown [of a l r ls "int i" i] A' le by auto
  have down: "key_down rdl = (case b of None \<Rightarrow> Some c | Some b \<Rightarrow> show_item b c)"
    using False bc(1) i by (simp add: key_down_def Let_def a_def flip: i_def)
  show ?thesis
  proof (cases "i < length ls")
    case False
    then have "key_down rdl = Some a" using bc down by auto
    then show ?thesis using False A \<open>\<not> history_cur_line rdl < 1\<close> by (simp add: i_def Let_def)
  next
    case True
    then obtain s t where s: "b = Some (s @ 0 # t)" "s = rev ls ! i" "0 \<notin> set s" "length s \<le> 256"
      "line_shown a c l r ls (int i)" using bc(2) by auto
    note C = s(5) [unfolded line_shown_def]
    obtain e where e: "show_item (s @ 0 # t) c = Some e" "run_ok e" "line_is e s []" "history e = history c"
      "history_cur_line e = history_cur_line c" "status e = status c"
      using show_item_ok [OF _ s(3,4)] C by blast
    have "key_down rdl = Some e" using down s(1) e(1) by simp
    moreover have "line_shown rdl e s [] ls (int i)" using e C A' by (simp add: line_shown_def)
    ultimately show ?thesis using True s(2) \<open>\<not> history_cur_line rdl < 1\<close> by (simp add: i_def Let_def)
  qed
qed

end
