(* ===== verification/Rdline_Correct.thy ===== *)
theory Rdline_Correct
  imports Rdline_Screen Rdline_History
begin

text \<open>
  The line editor as a whole: no sequence of bytes makes it leave its arrays or
  loop, whatever the application's callbacks do within their contract; the
  history keys and the end of a line.
\<close>

section \<open>The callbacks\<close>

text \<open>The callbacks leave an editor that is still sound.\<close>

definition validate_ok :: "validate_fn option \<Rightarrow> bool" where
  "validate_ok validate \<longleftrightarrow> (\<forall>v rdl b n. validate = Some v \<longrightarrow> run_ok rdl \<longrightarrow> run_ok (v rdl b n))"

text \<open>
  A completion leaves a terminated string in the array it is given, as long as it has
  an answer, and ends: some measure of its state goes down with every answer.
\<close>

definition complete_ok :: "complete_fn option \<Rightarrow> bool" where
  "complete_ok complete \<longleftrightarrow> (\<forall>cf. complete = Some cf \<longrightarrow>
     (\<exists>m :: int \<Rightarrow> nat. \<forall>rdl b st. run_ok rdl \<longrightarrow>
        (case cf rdl b st of (ret, tmp, st', rdl') \<Rightarrow>
           run_ok rdl' \<and> (ret \<noteq> 0 \<longrightarrow> length tmp = 8192 \<and> 0 \<in> set tmp \<and> m st' < m st))))"

section \<open>Every key\<close>

lemma sends_run: "run_ok rdl \<Longrightarrow> run_ok (rdline_puts rdl s)"
  by (simp add: puts_sends)

lemma status_run: "run_ok rdl \<Longrightarrow> run_ok (rdl\<lparr>status := st\<rparr>)"
  by (simp add: run_ok_def line_is_def kill_ok_def killed_def)

lemma redisplay_run: "run_ok rdl \<Longrightarrow> run_ok (redisplay rdl)"
  using display_keeps run_ok_sent by (metis run_ok_def)

lemma vt_run: "run_ok rdl \<Longrightarrow> vt_ok vt \<Longrightarrow> run_ok (rdl\<lparr>vt100 := vt\<rparr>)"
  by (simp add: run_ok_def line_is_def kill_ok_def killed_def)

lemma takeWhile_less: "x \<in> set xs \<Longrightarrow> \<not> P x \<Longrightarrow> length (takeWhile P xs) < length xs"
  by (induction xs) auto

lemma terminated:
  assumes "length tmp = 8192" "0 \<in> set tmp"
  shows "\<exists>s. cstring tmp = Some s" "\<exists>n. strnlen tmp 8192 = Some n \<and> n \<le> 8192 \<and> 0 \<notin> set (take n tmp)"
proof -
  have lt: "length (takeWhile (\<lambda>c. c \<noteq> 0) tmp) < length tmp"
    using assms(2) by (rule takeWhile_less) simp
  then show "\<exists>s. cstring tmp = Some s" by (simp add: cstring_def Let_def)
  have "strnlen tmp 8192 = Some (length (takeWhile (\<lambda>c. c \<noteq> 0) tmp))"
    using lt assms(1) by (simp add: strnlen_def)
  moreover have "take (length (takeWhile (\<lambda>c. c \<noteq> 0) tmp)) tmp = takeWhile (\<lambda>c. c \<noteq> 0) tmp"
    by (rule takeWhile_eq_take [symmetric])
  moreover have "0 \<notin> set (takeWhile (\<lambda>c. c \<noteq> 0) tmp)" by (auto dest: set_takeWhileD)
  ultimately show "\<exists>n. strnlen tmp 8192 = Some n \<and> n \<le> 8192 \<and> 0 \<notin> set (take n tmp)"
    using lt assms(1) by auto
qed

lemma choices_run:
  assumes m: "\<forall>rdl b st. run_ok rdl \<longrightarrow>
        (case cf rdl b st of (ret, tmp, st', rdl') \<Rightarrow>
           run_ok rdl' \<and> (ret \<noteq> 0 \<longrightarrow> length tmp = 8192 \<and> 0 \<in> set tmp \<and> m st' < (m st :: nat)))"
    and "run_ok rdl" "ret \<noteq> 0 \<longrightarrow> length tmp = 8192 \<and> 0 \<in> set tmp"
  shows "\<exists>rdl'. show_choices cf ret tmp st rdl = Some rdl' \<and> run_ok rdl'"
  using assms(2,3)
proof (induction "m st" arbitrary: ret tmp st rdl rule: less_induct)
  case less
  show ?case
  proof (cases "ret = 0")
    case True
    then show ?thesis using less.prems by (subst show_choices.simps) simp
  next
    case False
    obtain s where s: "cstring tmp = Some s" using terminated(1) less.prems(2) False by blast
    define a where "a = rdline_puts (rdline_puts (write_char rdl 32) s) crnl"
    have a: "run_ok a" using less.prems(1) by (simp add: a_def puts_sends write_char_def)
    obtain ret' tmp' st' b where b: "cf a (left_buf a) st = (ret', tmp', st', b)" by (cases "cf a (left_buf a) st")
    have B: "run_ok b" "ret' \<noteq> 0 \<longrightarrow> length tmp' = 8192 \<and> 0 \<in> set tmp' \<and> m st' < m st"
      using m a b by (metis (mono_tags, lifting) case_prod_conv)+
    have eq: "show_choices cf ret tmp st rdl = show_choices cf ret' tmp' st' b"
      using s False b by (subst show_choices.simps) (simp add: a_def Let_def)
    show ?thesis
    proof (cases "ret' = 0")
      case True
      then show ?thesis using B(1) eq by (simp add: show_choices.simps [of cf 0])
    next
      case False
      then show ?thesis using less.hyps [of st' b ret' tmp'] B eq by simp
    qed
  qed
qed

lemma key_return_ok:
  assumes R: "run_ok rdl" and v: "validate_ok validate" and L: "line_is rdl l r"
  shows "\<exists>x t a rdl'. key_return validate rdl = Some (x, rdl') \<and> run_ok rdl' \<and> run_ok a \<and> status a = RDLINE_INIT \<and>
    left_buf a = l @ r @ 10 # 0 # t \<and>
    (\<forall>ls. history_is (history rdl) ls \<longrightarrow>
       history_is (history a) (if history_cur_line rdl = -1 then ls else butlast ls)) \<and>
    rdl' = (case validate of None \<Rightarrow> a | Some v \<Rightarrow> v a (left_buf a) (of_nat (length l) + 2)) \<and>
    x = (if status rdl' = RDLINE_EXITED then RDLINE_RES_EXITED else RDLINE_RES_VALIDATED)"
proof -
  obtain ls where H: "history_is (history rdl) ls" and E: "length (left_extra rdl) = 2" using R by (auto simp: run_ok_def)
  obtain t b where b: "rdline_get_buffer (Some rdl) = Some (Some (l @ r @ 10 # 0 # t), Some b)"
    "line_is b l r" "same_but_line rdl b" "length (left_extra b) = 2" "left_buf b = l @ r @ 10 # 0 # t"
    using get_buffer_ok [OF L E] by blast
  note F = same_but_line_fields [OF b(3)]
  define c where "c = rdline_puts (b\<lparr>status := RDLINE_INIT\<rparr>) crnl"
  have c: "run_ok c" "history c = history rdl" "history_cur_line c = history_cur_line rdl" "left_buf c = left_buf b"
    "status c = RDLINE_INIT" "left c = left b"
    using same_run [OF R b(2,3,4)] F by (simp_all add: c_def puts_sends left_buf_def status_run)
  obtain a where a: "(if history_cur_line c \<noteq> -1 then rdline_remove_first_history_item c else Some c) = Some a"
    "run_ok a" "left_buf a = left_buf c" "status a = status c" "left a = left c"
    "\<forall>ls. history_is (history rdl) ls \<longrightarrow> history_is (history a) (if history_cur_line rdl = -1 then ls else butlast ls)"
  proof (cases "history_cur_line rdl = -1")
    case True
    then show ?thesis using that [of c] c by simp
  next
    case False
    obtain h where h: "rdline_remove_first_history_item c = Some (c\<lparr>history := h\<rparr>)" "history_is h (butlast ls)"
      using remove_first_ok [of c ls] c H by auto
    have "history_is h (butlast ls')" if H': "history_is (history rdl) ls'" for ls'
    proof -
      obtain h' where h': "rdline_remove_first_history_item c = Some (c\<lparr>history := h'\<rparr>)" "history_is h' (butlast ls')"
        using remove_first_ok [of c ls'] c(2) H' by auto
      have "history (c\<lparr>history := h\<rparr>) = history (c\<lparr>history := h'\<rparr>)" using h(1) h'(1) by simp
      then show ?thesis using h'(2) by simp
    qed
    then show ?thesis
      using that [of "c\<lparr>history := h\<rparr>"] c h False history_run [OF c(1) h(2)] by (simp add: left_buf_def)
  qed
  have n: "CIRBUF_GET_LEN (left a) = of_nat (length l)"
    using line_lengths(1) [OF b(2)] a(5) c(6) by (metis of_nat_unat ucast_id)
  define d where "d = (case validate of None \<Rightarrow> a | Some v \<Rightarrow> v a (left_buf a) (of_nat (length l) + 2))"
  have "run_ok d" using v a(2) by (auto simp: d_def validate_ok_def split: option.splits)
  moreover have "key_return validate rdl =
      Some (if status d = RDLINE_EXITED then RDLINE_RES_EXITED else RDLINE_RES_VALIDATED, d)"
    using b(1) a(1) n
    by (cases "history_cur_line c = -1"; cases validate)
      (simp_all add: key_return_def c_def [symmetric] Let_def d_def)
  ultimately show ?thesis
    using a b(5) c(4,5) unfolding d_def by (intro exI conjI) (auto)
qed

lemma key_tab_ok:
  assumes R: "run_ok rdl" and c: "complete_ok complete"
  shows "\<exists>x rdl'. key_tab complete cmd rdl = Some (x, rdl') \<and> run_ok rdl'"
proof -
  obtain l r where L: "line_is rdl l r" using R by (auto simp: run_ok_def)
  note A = L [unfolded line_is_def]
  obtain a where a: "aligned (left rdl) = Some a" "cb_ok a" "cb_list a = l" "maxlen a = maxlen (left rdl)" "start a = 0"
    using aligned_ok [of "left rdl"] A by auto
  define rdl1 where "rdl1 = rdl\<lparr>left := a\<rparr>"
  have l1: "line_is rdl1 l r" using A a by (simp add: rdl1_def line_is_def cb_size_def)
  have E: "length (left_extra rdl1) = 2" using R by (simp add: run_ok_def rdl1_def)
  have b: "length (left_buf rdl1) = 258" using l1 E by (simp add: left_buf_def line_is_def cb_ok_def)
  have n: "unat (CIRBUF_GET_LEN (left rdl1)) = length l" "length l \<le> 256" using line_lengths(1) [OF l1] A by simp_all
  define m where "m = (left_buf rdl1)[length l := 0]"
  have w: "write_at (left_buf rdl1) (length l) 0 = Some m" using b n by (simp add: write_at_def m_def)
  have "take (length l) (left_buf rdl1) = l"
    using aligned_buf [OF a(2,5)] a(3) n a(2) l1
    by (simp add: left_buf_def rdl1_def line_is_def cb_ok_def)
  then have "take (length l) m = l" by (simp add: m_def)
  then have B: "line_is (set_left_buf rdl1 m) l r" "length (left_extra (set_left_buf rdl1 m)) = 2"
    using behind_line [OF l1, of m] a(5) b by (simp_all add: rdl1_def m_def)
  define z where "z = set_left_buf rdl1 m"
  have "same_but_line rdl z" by (simp add: same_but_line_def z_def rdl1_def set_left_buf_def)
  then have z: "run_ok z" using same_run [OF R B(1)] B(2) by (simp add: z_def)
  have na: "unat (CIRBUF_GET_LEN a) = length l" using n(1) by (simp add: rdl1_def)
  define cs0 :: int where "cs0 = (if cmd = CMDLINE_KEY_TAB then 0 else -1)"
  note def = key_tab_def a(1) na w rdl1_def [symmetric] z_def [symmetric] cs0_def [symmetric] Let_def
  show ?thesis
  proof (cases complete)
    case None
    then show ?thesis using z w by (simp add: def)
  next
    case (Some cf)
    obtain m where m: "\<forall>rdl b st. run_ok rdl \<longrightarrow>
        (case cf rdl b st of (ret, tmp, st', rdl') \<Rightarrow>
           run_ok rdl' \<and> (ret \<noteq> 0 \<longrightarrow> length tmp = 8192 \<and> 0 \<in> set tmp \<and> m st' < (m st :: nat)))"
      using c Some by (auto simp: complete_ok_def)
    obtain ret tmp st y where y: "cf z (left_buf z) cs0 = (ret, tmp, st, y)"
      by (cases "cf z (left_buf z) cs0")
    have Y: "run_ok y" "ret \<noteq> 0 \<longrightarrow> length tmp = 8192 \<and> 0 \<in> set tmp"
      using m z y by (metis (mono_tags, lifting) case_prod_conv)+
    have tab: "key_tab complete cmd rdl =
        (if ret \<le> 0 then Some (RDLINE_RES_COMPLETE, y)
         else do {
           n \<leftarrow> strnlen tmp BUFSIZ;
           if ret = RDLINE_RES_COMPLETE
           then do { rdl \<leftarrow> paste tmp 0 n y; Some (RDLINE_RES_COMPLETE, display_right_buffer rdl True) }
           else do {
             rdl \<leftarrow> show_choices cf ret tmp st (rdline_puts y crnl);
             Some (RDLINE_RES_COMPLETE, redisplay rdl) } })"
      using w by (simp add: def Some y)
    show ?thesis
    proof (cases "ret \<le> 0")
      case True
      then show ?thesis using tab Y Some by simp
    next
      case False
      obtain n where n: "strnlen tmp 8192 = Some n" "n \<le> 8192" "0 \<notin> set (take n tmp)"
        using terminated(2) [of tmp] Y(2) False by auto
      obtain l' r' where l': "line_is y l' r'" using Y(1) by (auto simp: run_ok_def)
      obtain p s where p': "paste tmp 0 n y = Some p" "does y p (l' @ s) r' s"
        using paste_ok [OF l', of 0 n tmp] n Y False by (auto simp: Let_def)
      then have p: "paste tmp 0 n y = Some p" "run_ok p" "line_is p (l' @ s) r'"
        using does_run [OF Y(1)] by (auto simp: does_def)
      obtain u where u: "show_choices cf ret tmp st (rdline_puts y crnl) = Some u" "run_ok u"
        using choices_run [OF m sends_run [OF Y(1)]] Y(2) by blast
      have "run_ok (display_right_buffer p True)" using p(2,3) display_right run_ok_sent by metis
      then show ?thesis using tab False n(1) p(1) u redisplay_run [OF u(2)] Some by auto
    qed
  qed
qed

lemma key_ctrl_c_run:
  assumes "run_ok rdl"
  shows "\<exists>rdl'. key_ctrl_c rdl = Some rdl' \<and> run_ok rdl'"
proof -
  define a where "a = new_line (rdline_puts rdl crnl)"
  have a: "run_ok a" "length (prompt a) = 32"
    using new_line_ok(1) [OF sends_run [OF assms]] by (simp_all add: a_def run_ok_def)
  obtain n where n: "strnlen (prompt a) 31 = Some n"
    using a(2) length_takeWhile_le [of "\<lambda>c. c \<noteq> 0" "take 31 (prompt a)"] by (auto simp: strnlen_def Let_def)
  have "key_ctrl_c rdl = Some ((rdline_puts (a\<lparr>prompt_size := n, prompt := (prompt a)[31 := 0]\<rparr>) (take n ((prompt a)[31 := 0])))
      \<lparr>status := RDLINE_RUNNING, history_cur_line := -1\<rparr>)"
    using n a(2) by (simp add: key_ctrl_c_def rdline_newline_def a_def [symmetric] write_at_def)
  then show ?thesis using a by (auto simp: run_ok_def puts_sends line_is_def kill_ok_def killed_def)
qed

section \<open>Every byte\<close>

definition goes_on :: "(int \<times> rdline) option \<Rightarrow> bool" where
  "goes_on m \<longleftrightarrow> (\<exists>x rdl'. m = Some (x, rdl') \<and> run_ok rdl')"

lemma goes_on_success: "\<exists>rdl'. m = Some rdl' \<and> run_ok rdl' \<Longrightarrow> goes_on (success m)"
  by (auto simp: goes_on_def success_def)

lemma goes_on_does: "run_ok rdl \<Longrightarrow> \<exists>rdl'. m = Some rdl' \<and> does rdl rdl' l r s \<Longrightarrow> goes_on (success m)"
  using does_run by (blast intro: goes_on_success)

lemma goes_on_if_does: "run_ok rdl \<Longrightarrow>
    \<exists>rdl'. m = Some rdl' \<and> (if b then does rdl rdl' l r s else does rdl rdl' l' r' s') \<Longrightarrow> goes_on (success m)"
  using does_run by (metis goes_on_success)

lemma key_goes_on:
  assumes R: "run_ok rdl" and v: "validate_ok validate" and c: "complete_ok complete"
  shows "goes_on (rdline_key validate complete cmd rdl)"
proof -
  obtain l r ls where L: "line_is rdl l r" and H: "history_is (history rdl) ls" and K: "kill_ok rdl"
    using R by (auto simp: run_ok_def)
  have kk: "goes_on (success (key_ctrl_k rdl))"
  proof -
    obtain a where a: "key_ctrl_k rdl = Some a" "line_is a l []" "kill_ok a"
      "others a = (fst (others rdl), (kill_buf a, kill_size a), snd (snd (others rdl)))"
      using key_ctrl_k_ok [OF L K] by auto
    then have "run_ok a" using R by (auto simp: run_ok_def others_def)
    then show ?thesis using a(1) by (auto intro: goes_on_success)
  qed
  have ky: "goes_on (success (key_ctrl_y rdl))" using key_ctrl_y_ok [OF L K] goes_on_does [OF R] by (auto simp: Let_def)
  have up: "goes_on (success (key_up rdl))"
    using key_up_ok [OF R L H] by (auto simp: Let_def line_shown_def intro!: goes_on_success split: if_splits)
  have down: "goes_on (success (key_down rdl))"
    using key_down_ok [OF R L H] R by (auto simp: Let_def line_shown_def intro!: goes_on_success split: if_splits)
  have ret: "goes_on (key_return validate rdl)" using key_return_ok [OF R v L] by (auto simp: goes_on_def)
  have tab: "goes_on (key_tab complete cmd rdl)" using key_tab_ok [OF R c] by (auto simp: goes_on_def)
  have here: "goes_on (Some (x, rdl))" for x using R by (simp add: goes_on_def)
  note D = goes_on_if_does [OF R key_left_ok [OF L]] goes_on_if_does [OF R key_right_ok [OF L]]
    goes_on_does [OF R key_wleft_ok [OF L refl]] goes_on_does [OF R key_wright_ok [OF L refl]]
    goes_on_does [OF R key_ctrl_a_ok [OF L]] goes_on_does [OF R key_ctrl_e_ok [OF L]]
    goes_on_if_does [OF R key_bkspace_ok [OF L]] goes_on_if_does [OF R key_suppr_ok [OF L]]
    goes_on_does [OF R key_ctrl_w_ok [OF L refl]] goes_on_does [OF R key_meta_d_ok [OF L refl]]
    kk ky goes_on_success [OF key_ctrl_c_run [OF R]] up down ret tab here
  have "goes_on (success (Some (redisplay rdl)))" using redisplay_run [OF R] by (auto intro: goes_on_success)
  then show ?thesis using D unfolding rdline_key_def by (simp only: if_split) blast
qed

lemma char_goes_on:
  assumes R: "run_ok rdl" and v: "validate_ok validate" and c: "complete_ok complete"
  shows "\<exists>x rdl'. rdline_char_in validate complete (Some rdl) ch = Some (x, Some rdl') \<and> run_ok rdl'"
proof (cases "status rdl = RDLINE_RUNNING")
  case False
  then show ?thesis using R by (cases "status rdl") (auto simp: rdline_char_in_def)
next
  case True
  obtain cmd vt where p: "vt100_parser (vt100 rdl) ch = (cmd, vt)" by (cases "vt100_parser (vt100 rdl) ch")
  have "vt_ok vt" using vt100_parser_ok [of "vt100 rdl" ch] R p by (simp add: run_ok_def)
  define a where "a = rdl\<lparr>vt100 := vt\<rparr>"
  have a: "run_ok a" using vt_run [OF R \<open>vt_ok vt\<close>] by (simp add: a_def)
  obtain l r where L: "line_is a l r" using a by (auto simp: run_ok_def)
  obtain b where b: "standard_char ch a = Some b"
    "if is_print ch \<and> length l + length r < 256 then does a b (l @ [ch]) r (ch # after_shown r) else b = a"
    using standard_char_ok [OF L] by blast
  have s: "goes_on (success (standard_char ch a))"
    using b a does_run [OF a] by (auto intro!: goes_on_success split: if_splits)
  show ?thesis
    using True p s key_goes_on [OF a v c, of cmd] a
    by (auto simp: rdline_char_in_def a_def [symmetric] goes_on_def Let_def)
qed


lemma sample_started:
  "\<exists>r. rdline_newline (Some sample_rdline) (Some (Prompt [62, 0])) = Some (Some r) \<and> run_ok r \<and> line_is r [] [] \<and>
    history_is (history r) [] \<and> history_cur_line r = -1 \<and> status r = RDLINE_RUNNING \<and> vt_idle (vt100 r)"
proof -
  have s: "arrays_ok sample_rdline" "kill_size sample_rdline = 0" "length (kill_buf sample_rdline) = 256"
    "vt_idle (vt100 sample_rdline)" "history_is (history sample_rdline) []" "length (left_extra sample_rdline) = 2"
    by (simp_all add: sample_rdline_def rdline_init_def cirbuf_init_def zero_rdline_def zero_cirbuf_def arrays_ok_def
        vt_idle_def vt_ok_def history_is_def cb_ok_def cb_size_def cb_list_def)
  obtain r where r: "rdline_newline (Some sample_rdline) (Some (Prompt [62, 0])) = Some (Some r)" "line_is r [] []"
    "prompt r = [62] @ take 30 (drop 1 (prompt sample_rdline)) @ [0]" "status r = RDLINE_RUNNING" "history_cur_line r = -1"
    "vt100 r = vt100_init (vt100 sample_rdline)" "kill_buf r = kill_buf sample_rdline" "kill_size r = kill_size sample_rdline"
    "history r = history sample_rdline" "left_extra r = left_extra sample_rdline"
    using newline_ok [OF s(1), of "[62]" "[]"] by auto
  have "length (prompt r) = 32" using r(3) s(1) by (simp add: arrays_ok_def)
  then show ?thesis
    using r s by (auto simp: run_ok_def kill_ok_def killed_def vt_idle_def vt_ok_def vt100_init_def)
qed

definition quitting :: validate_fn where
  "quitting rdl b n = rdl\<lparr>status := RDLINE_EXITED\<rparr>"

definition no_answer :: complete_fn where
  "no_answer rdl b st = (0, [], st, rdl)"


section \<open>History and end of line\<close>

text \<open>C30: UP saves the line being typed and shows the latest line of the history, and DOWN brings the typed line
  back, with the caret at its end; the oldest lines are forgotten when the typed one needs their place.\<close>

theorem rdline_up_down:
  assumes "run_ok rdl" "line_is rdl l r" "history_is (history rdl) ls" "history_cur_line rdl = -1" "10 \<notin> set (l @ r)"
    "forget (length (l @ r)) ls \<noteq> []"
  shows "\<exists>u d. key_up rdl = Some u \<and> line_is u (last ls) [] \<and> key_down u = Some d \<and> line_is d (l @ r) [] \<and>
    history_is (history d) (forget (length (l @ r)) ls @ [l @ r]) \<and> history_cur_line d = 0"
proof -
  define f where "f = forget (length (l @ r)) ls"
  have w: "takeWhile (\<lambda>c. c \<noteq> 10) (l @ r) = l @ r" using assms(5) by (auto simp: takeWhile_eq_all_conv)
  have s: "saved (-1) (l @ r) ls = f @ [l @ r]" by (simp add: saved_def w Let_def f_def del: takeWhile_append append_assoc)
  obtain k where k: "f = drop k ls" using forget_suffix [of "length (l @ r)" ls] by (auto simp: f_def)
  have ne: "f \<noteq> []" using assms(6) by (simp add: f_def)
  have i: "rev (f @ [l @ r]) ! 1 = last f" using ne by (simp add: rev_nth last_conv_nth nth_append)
  have "last f = last ls" using k ne by simp
  then obtain u where u: "key_up rdl = Some u" "line_shown rdl u (last ls) [] (f @ [l @ r]) 1"
    using key_up_ok [OF assms(1-3)] ne i by (auto simp: assms(4) s Let_def)
  note U = u(2) [unfolded line_shown_def]
  obtain d where d: "key_down u = Some d" "line_shown u d (l @ r) [] (f @ [l @ r]) 0"
    using key_down_ok [of u "last ls" "[]" "f @ [l @ r]"] U by (auto simp: Let_def)
  show ?thesis using u d by (auto simp: line_shown_def f_def)
qed

theorem rdline_up_down_witness:
  "\<exists>r r' u d. rdline_newline (Some sample_rdline) (Some (Prompt [62, 0])) = Some (Some r) \<and>
    rdline_add_history (Some r) (Some [97, 98, 0]) = Some (0, Some r') \<and>
    key_up r' = Some u \<and> line_is u [97, 98] [] \<and> key_down u = Some d \<and> line_is d [] []"
proof -
  obtain r where r: "rdline_newline (Some sample_rdline) (Some (Prompt [62, 0])) = Some (Some r)" "run_ok r"
    "line_is r [] []" "history_is (history r) []" "history_cur_line r = -1"
    using sample_started by blast
  have a: "line_at [97, 98, 0] = [97, 98]" "strnlen [97, 98, 0] 256 = Some 2"
    by (simp_all add: line_at_def string_at_def strnlen_def)
  obtain h where h: "rdline_add_history (Some r) (Some [97, 98, 0]) = Some (0, Some (r\<lparr>history := h\<rparr>))"
    "history_is h [[97, 98]]"
    using add_history_ok [OF r(4) a(2)] a(1) by auto
  have "run_ok (r\<lparr>history := h\<rparr>)" "line_is (r\<lparr>history := h\<rparr>) [] []"
    using history_run [OF r(2) h(2)] r(3) by (simp_all add: line_is_def)
  then obtain u d where "key_up (r\<lparr>history := h\<rparr>) = Some u" "line_is u [97, 98] []" "key_down u = Some d" "line_is d [] []"
    using rdline_up_down [of "r\<lparr>history := h\<rparr>" "[]" "[]" "[[97, 98]]"] h(2) r(5) by auto
  then show ?thesis using r(1) h(1) by blast
qed

text \<open>Strings added one after the other.\<close>

fun add_all :: "u8 list list \<Rightarrow> rdline option \<Rightarrow> (int list \<times> rdline option) option" where
  "add_all [] rdl = Some ([], rdl)"
| "add_all (b # bs) rdl = do {
     (x, rdl) \<leftarrow> rdline_add_history rdl (Some b);
     (xs, rdl) \<leftarrow> add_all bs rdl;
     Some (x # xs, rdl) }"

fun remember :: "u8 list list \<Rightarrow> u8 list list \<Rightarrow> u8 list list" where
  "remember [] ls = ls"
| "remember (s # ss) ls = remember ss (forget (length s) ls @ [s])"

text \<open>C31: the history holds the lines added, each cut at its first newline; the oldest ones are forgotten, as few as
  the 8192 bytes allow, the number of lines is counted right and \<open>rdline_get_history_item\<close> finds them from the
  latest to the oldest.\<close>

theorem rdline_history_is_list:
  assumes "history_is (history rdl) ls" "\<forall>b \<in> set bs. \<exists>n. strnlen b 256 = Some n"
  shows "\<exists>rdl'. add_all bs (Some rdl) = Some (replicate (length bs) 0, Some rdl') \<and>
    (let ls' = remember (map line_at bs) ls in
      history_is (history rdl') ls' \<and> rdline_get_history_size rdl' = length ls' \<and> length (stored_lines ls') \<le> 8192 \<and>
      (\<forall>i. if i < length ls'
           then \<exists>t h. rdline_get_history_item (Some rdl') i = Some (Some (rev ls' ! i @ 0 # t), Some (rdl'\<lparr>history := h\<rparr>)) \<and>
             history_is h ls'
           else rdline_get_history_item (Some rdl') i = Some (None, Some rdl')))"
  using assms
proof (induction bs arbitrary: rdl ls)
  case Nil
  have "length (stored_lines ls) \<le> 8192"
    using Nil(1) length_cb_list [of "history rdl"] by (auto simp: history_is_def cb_ok_def)
  then show ?case
    using Nil history_size_ok [OF Nil(1)] get_item_ok [OF Nil(1)]
    by (auto simp: Let_def) (metis linorder_not_le)+
next
  case (Cons b bs)
  obtain n where "strnlen b 256 = Some n" using Cons.prems(2) by auto
  then obtain h where h: "rdline_add_history (Some rdl) (Some b) = Some (0, Some (rdl\<lparr>history := h\<rparr>))"
    "history_is h (forget (length (line_at b)) ls @ [line_at b])"
    using add_history_ok [OF Cons.prems(1)] by blast
  have "history_is (history (rdl\<lparr>history := h\<rparr>)) (forget (length (line_at b)) ls @ [line_at b])" using h(2) by simp
  from Cons.IH [OF this] Cons.prems(2) h(1) show ?case by (auto simp: Let_def)
qed

theorem rdline_history_is_list_witness:
  "\<exists>rdl' t h. add_all [[97, 10, 98, 0], [99, 0]] (Some sample_rdline) = Some ([0, 0], Some rdl') \<and>
    rdline_get_history_item (Some rdl') 1 = Some (Some (97 # 0 # t), Some (rdl'\<lparr>history := h\<rparr>))"
proof -
  have "history_is (history sample_rdline) []"
    by (simp add: sample_rdline_def rdline_init_def cirbuf_init_def zero_rdline_def zero_cirbuf_def
        history_is_def cb_ok_def cb_size_def cb_list_def)
  moreover have a: "line_at [97, 10, 98, 0] = [97]" "strnlen [97, 10, 98, 0] 256 = Some 3"
    "line_at [99, 0] = [99]" "strnlen [99, 0] 256 = Some 1"
    by (simp_all add: line_at_def string_at_def strnlen_def)
  ultimately obtain rdl' where r: "add_all [[97, 10, 98, 0], [99, 0]] (Some sample_rdline) = Some ([0, 0], Some rdl')"
    "\<forall>i. if i < 2 then \<exists>t h. rdline_get_history_item (Some rdl') i =
          Some (Some (rev [[97], [99]] ! i @ 0 # t), Some (rdl'\<lparr>history := h\<rparr>)) \<and> history_is h [[97], [99]]
        else rdline_get_history_item (Some rdl') i = Some (None, Some rdl')"
    using rdline_history_is_list [of sample_rdline "[]" "[[97, 10, 98, 0], [99, 0]]"]
    by (auto simp: Let_def numeral_2_eq_2)
  then show ?thesis using spec [OF r(2), of 1] by auto
qed

text \<open>C32: RETURN gives the application the whole line, ended by a newline and NUL, takes the line that browsing
  saved out of the history, and stops the editor; but the size it passes counts only the characters before the caret.\<close>

theorem rdline_return_gives_line:
  assumes "run_ok rdl" "line_is rdl l r" "history_is (history rdl) ls" "vt_idle (vt100 rdl)" "status rdl = RDLINE_RUNNING"
    "validate_ok (Some v)"
  shows "\<exists>a t rdl'. rdline_char_in (Some v) complete (Some rdl) 13 =
      Some (if status rdl' = RDLINE_EXITED then RDLINE_RES_EXITED else RDLINE_RES_VALIDATED, Some rdl') \<and>
    rdl' = v a (l @ r @ [10, 0] @ t) (of_nat (length l) + 2) \<and> left_buf a = l @ r @ [10, 0] @ t \<and>
    status a = RDLINE_INIT \<and> history_is (history a) (if history_cur_line rdl = -1 then ls else butlast ls)"
proof -
  have "vt100_run (vt100 rdl) (cmdline_vt100_commands ! 17) = (case vt100_parser (vt100 rdl) 13 of (x, vt) \<Rightarrow> ([x], vt))"
    by (auto simp: cmdline_vt100_commands_def split: prod.splits)
  moreover obtain vt b where "vt100_run (vt100 rdl) (cmdline_vt100_commands ! 17) = ([match_command b 1], vt)"
    "take 1 b = [13]" "vt_idle vt"
    using run_followed [OF assms(4) commands_followed [of 17]] by (auto simp: cmdline_vt100_commands_def)
  moreover have "match_command b 1 = 17" if "take 1 b = [13]" for b
    using match_own [of 17 b] that by (simp add: cmdline_vt100_commands_def)
  ultimately have vt: "vt100_parser (vt100 rdl) 13 = (17, vt)" "vt_idle vt"
    by (auto split: prod.splits)
  define z where "z = rdl\<lparr>vt100 := vt\<rparr>"
  have Z: "run_ok z" "line_is z l r" "history z = history rdl" "history_cur_line z = history_cur_line rdl"
    using vt_run [OF assms(1)] vt(2) assms(2) by (simp_all add: z_def vt_idle_def line_is_def)
  obtain x t a rdl' where ret: "key_return (Some v) z = Some (x, rdl')" "status a = RDLINE_INIT" "left_buf a = l @ r @ 10 # 0 # t"
    "\<forall>ls. history_is (history z) ls \<longrightarrow> history_is (history a) (if history_cur_line z = -1 then ls else butlast ls)"
    "rdl' = v a (left_buf a) (of_nat (length l) + 2)"
    "x = (if status rdl' = RDLINE_EXITED then RDLINE_RES_EXITED else RDLINE_RES_VALIDATED)"
    using key_return_ok [OF Z(1) assms(6) Z(2)] by auto
  have "rdline_char_in (Some v) complete (Some rdl) 13 = Some (x, Some rdl')"
    using ret(1) vt(1) assms(5) by (simp add: rdline_char_in_def z_def [symmetric] rdline_key_def key_defs)
  then show ?thesis using ret Z assms(3) by (intro exI [of _ a] exI [of _ t] exI [of _ rdl']) auto
qed

theorem rdline_return_gives_line_witness:
  "\<exists>r r' b t. rdline_newline (Some sample_rdline) (Some (Prompt [62, 0])) = Some (Some r) \<and>
    rdline_char_in (Some quitting) None (Some r) 13 = Some (RDLINE_RES_EXITED, Some r') \<and>
    r' = quitting b ([10, 0] @ t) 2"
proof -
  obtain r where r: "rdline_newline (Some sample_rdline) (Some (Prompt [62, 0])) = Some (Some r)" "run_ok r"
    "line_is r [] []" "history_is (history r) []" "history_cur_line r = -1" "vt_idle (vt100 r)" "status r = RDLINE_RUNNING"
    using sample_started by blast
  have v: "validate_ok (Some quitting)" by (auto simp: validate_ok_def quitting_def status_run)
  obtain a t rdl' where "rdline_char_in (Some quitting) None (Some r) 13 =
      Some (if status rdl' = RDLINE_EXITED then RDLINE_RES_EXITED else RDLINE_RES_VALIDATED, Some rdl')"
    "rdl' = quitting a ([] @ [] @ [10, 0] @ t) (of_nat (length ([] :: u8 list)) + 2)"
    using rdline_return_gives_line [OF r(2,3,4,6,7) v, of None] by (elim exE conjE) (rule that)
  note z = this
  have "status rdl' = RDLINE_EXITED" unfolding z(2) quitting_def by simp
  then have "rdline_char_in (Some quitting) None (Some r) 13 = Some (RDLINE_RES_EXITED, Some rdl')" using z(1) by simp
  moreover have "rdl' = quitting a ([10, 0] @ t) 2" using z(2) by simp
  ultimately show ?thesis using r(1) by blast
qed

end
