(* ===== verification/Rte_Mempool.thy ===== *)
theory Rte_Mempool
  imports Rte_Ring_Fifo Rte_Common
begin

text \<open>
  lib/librte_mempool: pools of objects of one size.  The free objects are in a
  ring and, when the pool is created with caches, in an array per core in front
  of it.  An object is identified by its address.  The model takes the defaults
  of config/common_linuxapp: caches of at most 512 objects, 128 cores, no
  debugging (so no statistics and cookies).  Accesses to the arrays of the
  caches and of the caller are checked; \<open>None\<close> is an access outside them, or a
  ring operation that waits for another core for ever.
\<close>

section \<open>State\<close>

definition RTE_MAX_LCORE :: nat where "RTE_MAX_LCORE = 128"
definition RTE_MEMPOOL_CACHE_MAX_SIZE :: u32 where "RTE_MEMPOOL_CACHE_MAX_SIZE = 512"
definition RTE_MEMPOOL_ALIGN :: u32 where "RTE_MEMPOOL_ALIGN = 64"
definition RTE_MEMPOOL_ALIGN_MASK :: u32 where "RTE_MEMPOOL_ALIGN_MASK = RTE_MEMPOOL_ALIGN - 1"

definition MEMPOOL_F_NO_SPREAD :: u32 where "MEMPOOL_F_NO_SPREAD = 0x0001"
definition MEMPOOL_F_NO_CACHE_ALIGN :: u32 where "MEMPOOL_F_NO_CACHE_ALIGN = 0x0002"
definition MEMPOOL_F_SP_PUT :: u32 where "MEMPOOL_F_SP_PUT = 0x0004"
definition MEMPOOL_F_SC_GET :: u32 where "MEMPOOL_F_SC_GET = 0x0008"

record rte_mempool_cache =
  cache_len :: u32
  cache_objs :: "u64 list"

record rte_mempool =
  mp_ring :: "u64 rte_ring"
  mp_flags :: u32
  mp_size :: u32
  cache_size :: u32
  cache_flushthresh :: u32
  mp_elt_size :: u32
  mp_header_size :: u32
  mp_trailer_size :: u32
  local_cache :: "rte_mempool_cache list"
  mp_name :: string
  mp_phys_addr :: u64
  private_data_size :: u32
  mp_pg_num :: u32
  mp_pg_shift :: u32
  mp_pg_mask :: u64
  elt_va_start :: u64
  elt_va_end :: u64
  elt_pa :: "u64 list"

record rte_mempool_objsz =
  elt_size :: u32
  header_size :: u32
  trailer_size :: u32
  total_size :: u32

section \<open>Putting objects back\<close>

text \<open>The code after \<open>ring_enqueue:\<close>.  What the ring answers is not looked at.\<close>

definition mempool_put_ring :: "rte_mempool \<Rightarrow> u64 list \<Rightarrow> u32 \<Rightarrow> bool \<Rightarrow> rte_mempool option" where
  "mempool_put_ring mp obj_table n is_mp = do {
     tab \<leftarrow> read_range obj_table 0 (unat n);
     (_, r) \<leftarrow> (if is_mp then rte_ring_mp_enqueue_bulk (mp_ring mp) tab n
               else Some (rte_ring_sp_enqueue_bulk (mp_ring mp) tab n));
     Some (mp\<lparr>mp_ring := r\<rparr>) }"

text \<open>\<open>lcore_id\<close> is \<open>rte_lcore_id()\<close>; a thread without one has an identifier above every core's.\<close>

definition mempool_put_bulk :: "nat \<Rightarrow> rte_mempool \<Rightarrow> u64 list \<Rightarrow> u32 \<Rightarrow> bool \<Rightarrow> rte_mempool option" where
  "mempool_put_bulk lcore_id mp obj_table n is_mp =
    (if cache_size mp = 0 \<or> \<not> is_mp \<or> lcore_id \<ge> RTE_MAX_LCORE \<or> n > RTE_MEMPOOL_CACHE_MAX_SIZE
     then mempool_put_ring mp obj_table n is_mp
     else do {
       cache \<leftarrow> read_at (local_cache mp) lcore_id;
       objs \<leftarrow> memcpy (cache_objs cache) (unat (cache_len cache)) obj_table 0 (unat n);
       let cache = cache\<lparr>cache_objs := objs, cache_len := cache_len cache + n\<rparr>;
       if cache_len cache \<ge> cache_flushthresh mp
       then do {
         let k = cache_len cache - cache_size mp;
         tab \<leftarrow> read_range objs (unat (cache_size mp)) (unat k);
         (_, r) \<leftarrow> rte_ring_mp_enqueue_bulk (mp_ring mp) tab k;
         Some (mp\<lparr>mp_ring := r,
           local_cache := (local_cache mp)[lcore_id := cache\<lparr>cache_len := cache_size mp\<rparr>]\<rparr>) }
       else Some (mp\<lparr>local_cache := (local_cache mp)[lcore_id := cache]\<rparr>) })"

definition rte_mempool_mp_put_bulk :: "nat \<Rightarrow> rte_mempool \<Rightarrow> u64 list \<Rightarrow> u32 \<Rightarrow> rte_mempool option" where
  "rte_mempool_mp_put_bulk lcore_id mp obj_table n = mempool_put_bulk lcore_id mp obj_table n True"

definition rte_mempool_sp_put_bulk :: "nat \<Rightarrow> rte_mempool \<Rightarrow> u64 list \<Rightarrow> u32 \<Rightarrow> rte_mempool option" where
  "rte_mempool_sp_put_bulk lcore_id mp obj_table n = mempool_put_bulk lcore_id mp obj_table n False"

definition rte_mempool_put_bulk :: "nat \<Rightarrow> rte_mempool \<Rightarrow> u64 list \<Rightarrow> u32 \<Rightarrow> rte_mempool option" where
  "rte_mempool_put_bulk lcore_id mp obj_table n =
    mempool_put_bulk lcore_id mp obj_table n (mp_flags mp AND MEMPOOL_F_SP_PUT = 0)"

definition rte_mempool_mp_put :: "nat \<Rightarrow> rte_mempool \<Rightarrow> u64 \<Rightarrow> rte_mempool option" where
  "rte_mempool_mp_put lcore_id mp obj = rte_mempool_mp_put_bulk lcore_id mp [obj] 1"

definition rte_mempool_sp_put :: "nat \<Rightarrow> rte_mempool \<Rightarrow> u64 \<Rightarrow> rte_mempool option" where
  "rte_mempool_sp_put lcore_id mp obj = rte_mempool_sp_put_bulk lcore_id mp [obj] 1"

definition rte_mempool_put :: "nat \<Rightarrow> rte_mempool \<Rightarrow> u64 \<Rightarrow> rte_mempool option" where
  "rte_mempool_put lcore_id mp obj = rte_mempool_put_bulk lcore_id mp [obj] 1"

section \<open>Getting objects\<close>

text \<open>The code after \<open>ring_dequeue:\<close>.\<close>

definition mempool_get_ring :: "rte_mempool \<Rightarrow> u64 list \<Rightarrow> u32 \<Rightarrow> bool \<Rightarrow> (int \<times> u64 list \<times> rte_mempool) option" where
  "mempool_get_ring mp obj_table n is_mc = do {
     tab \<leftarrow> read_range obj_table 0 (unat n);
     (ret, tab, r) \<leftarrow> (if is_mc then rte_ring_mc_dequeue_bulk (mp_ring mp) tab n
                      else Some (rte_ring_sc_dequeue_bulk (mp_ring mp) tab n));
     Some (ret, tab @ drop (unat n) obj_table, mp\<lparr>mp_ring := r\<rparr>) }"

text \<open>\<open>n\<close> objects from the end of the cache, the last one first.\<close>

definition mempool_get_cache ::
  "nat \<Rightarrow> rte_mempool \<Rightarrow> rte_mempool_cache \<Rightarrow> u64 list \<Rightarrow> u32 \<Rightarrow> (int \<times> u64 list \<times> rte_mempool) option" where
  "mempool_get_cache lcore_id mp cache obj_table n = do {
     tab \<leftarrow> read_range (cache_objs cache) (unat (cache_len cache - n)) (unat n);
     obj_table \<leftarrow> memcpy obj_table 0 (rev tab) 0 (unat n);
     Some (0, obj_table,
       mp\<lparr>local_cache := (local_cache mp)[lcore_id := cache\<lparr>cache_len := cache_len cache - n\<rparr>]\<rparr>) }"

definition mempool_get_bulk ::
  "nat \<Rightarrow> rte_mempool \<Rightarrow> u64 list \<Rightarrow> u32 \<Rightarrow> bool \<Rightarrow> (int \<times> u64 list \<times> rte_mempool) option" where
  "mempool_get_bulk lcore_id mp obj_table n is_mc =
    (if cache_size mp = 0 \<or> \<not> is_mc \<or> n \<ge> cache_size mp \<or> lcore_id \<ge> RTE_MAX_LCORE
     then mempool_get_ring mp obj_table n is_mc
     else do {
       cache \<leftarrow> read_at (local_cache mp) lcore_id;
       if cache_len cache < n
       then do {
         let req = n + (cache_size mp - cache_len cache);
         tab \<leftarrow> read_range (cache_objs cache) (unat (cache_len cache)) (unat req);
         (ret, tab, r) \<leftarrow> rte_ring_mc_dequeue_bulk (mp_ring mp) tab req;
         let mp = mp\<lparr>mp_ring := r\<rparr>;
         objs \<leftarrow> memcpy (cache_objs cache) (unat (cache_len cache)) tab 0 (unat req);
         if ret < 0 then mempool_get_ring mp obj_table n is_mc
         else mempool_get_cache lcore_id mp
                (cache\<lparr>cache_objs := objs, cache_len := cache_len cache + req\<rparr>) obj_table n }
       else mempool_get_cache lcore_id mp cache obj_table n })"

definition rte_mempool_mc_get_bulk :: "nat \<Rightarrow> rte_mempool \<Rightarrow> u64 list \<Rightarrow> u32 \<Rightarrow> (int \<times> u64 list \<times> rte_mempool) option" where
  "rte_mempool_mc_get_bulk lcore_id mp obj_table n = mempool_get_bulk lcore_id mp obj_table n True"

definition rte_mempool_sc_get_bulk :: "nat \<Rightarrow> rte_mempool \<Rightarrow> u64 list \<Rightarrow> u32 \<Rightarrow> (int \<times> u64 list \<times> rte_mempool) option" where
  "rte_mempool_sc_get_bulk lcore_id mp obj_table n = mempool_get_bulk lcore_id mp obj_table n False"

definition rte_mempool_get_bulk :: "nat \<Rightarrow> rte_mempool \<Rightarrow> u64 list \<Rightarrow> u32 \<Rightarrow> (int \<times> u64 list \<times> rte_mempool) option" where
  "rte_mempool_get_bulk lcore_id mp obj_table n =
    mempool_get_bulk lcore_id mp obj_table n (mp_flags mp AND MEMPOOL_F_SC_GET = 0)"

definition rte_mempool_mc_get :: "nat \<Rightarrow> rte_mempool \<Rightarrow> u64 \<Rightarrow> (int \<times> u64 list \<times> rte_mempool) option" where
  "rte_mempool_mc_get lcore_id mp obj = rte_mempool_mc_get_bulk lcore_id mp [obj] 1"

definition rte_mempool_sc_get :: "nat \<Rightarrow> rte_mempool \<Rightarrow> u64 \<Rightarrow> (int \<times> u64 list \<times> rte_mempool) option" where
  "rte_mempool_sc_get lcore_id mp obj = rte_mempool_sc_get_bulk lcore_id mp [obj] 1"

definition rte_mempool_get :: "nat \<Rightarrow> rte_mempool \<Rightarrow> u64 \<Rightarrow> (int \<times> u64 list \<times> rte_mempool) option" where
  "rte_mempool_get lcore_id mp obj = rte_mempool_get_bulk lcore_id mp [obj] 1"

section \<open>Counting\<close>

definition rte_mempool_count :: "rte_mempool \<Rightarrow> u32" where
  "rte_mempool_count mp =
    (let n = rte_ring_count (mp_ring mp) in
     if cache_size mp = 0 then n
     else let n = fold (\<lambda>lcore_id n. n + cache_len (local_cache mp ! lcore_id)) [0..<RTE_MAX_LCORE] n
          in if n > mp_size mp then mp_size mp else n)"

definition rte_mempool_free_count :: "rte_mempool \<Rightarrow> u32" where
  "rte_mempool_free_count mp = mp_size mp - rte_mempool_count mp"

definition rte_mempool_full :: "rte_mempool \<Rightarrow> bool" where
  "rte_mempool_full mp \<longleftrightarrow> rte_mempool_count mp = mp_size mp"

definition rte_mempool_empty :: "rte_mempool \<Rightarrow> bool" where
  "rte_mempool_empty mp \<longleftrightarrow> rte_mempool_count mp = 0"

end
