(* ===== verification/Mempool_Correct.thy ===== *)
theory Mempool_Correct
  imports Rte_Mempool
begin

text \<open>
  The pool never loses or doubles an object, whatever mixture of cores puts and
  gets; the caches stay in their bounds; when a get fails.
\<close>

section \<open>Invariant\<close>

definition cache_ok :: "rte_mempool \<Rightarrow> rte_mempool_cache \<Rightarrow> bool" where
  "cache_ok mp c \<longleftrightarrow> length (cache_objs c) = 1536 \<and> cache_len c \<le> cache_flushthresh mp"

definition mp_ok :: "rte_mempool \<Rightarrow> bool" where
  "mp_ok mp \<longleftrightarrow> ring_ok (mp_ring mp) \<and> length (local_cache mp) = RTE_MAX_LCORE \<and>
     cache_size mp \<le> RTE_MEMPOOL_CACHE_MAX_SIZE \<and> cache_size mp \<le> cache_flushthresh mp \<and>
     2 * unat (cache_flushthresh mp) \<le> 3 * unat (cache_size mp) \<and>
     (\<forall>c \<in> set (local_cache mp). cache_ok mp c)"

definition cached :: "rte_mempool_cache \<Rightarrow> u64 list" where
  "cached c = take (unat (cache_len c)) (cache_objs c)"

text \<open>The free objects of the pool, with their multiplicities.\<close>

definition pool_objs :: "rte_mempool \<Rightarrow> u64 multiset" where
  "pool_objs mp = mset (ring_contents (mp_ring mp)) + mset (concat (map cached (local_cache mp)))"

text \<open>What no operation changes.\<close>

definition same_pool :: "rte_mempool \<Rightarrow> rte_mempool \<Rightarrow> bool" where
  "same_pool mp mp' \<longleftrightarrow> ring_cap (mp_ring mp') = ring_cap (mp_ring mp) \<and>
     mp' = mp\<lparr>mp_ring := mp_ring mp', local_cache := local_cache mp'\<rparr>"

lemma same_pool_refl [simp]: "same_pool mp mp"
  by (simp add: same_pool_def)

lemma mset_concat_update:
  assumes "i < length xs"
  shows "mset (concat (map f (xs[i := y]))) + mset (f (xs ! i)) = mset (concat (map f xs)) + mset (f y)"
proof -
  have x: "xs = take i xs @ xs ! i # drop (Suc i) xs" using assms by (rule id_take_nth_drop)
  have u: "xs[i := y] = take i xs @ y # drop (Suc i) xs" using assms by (rule upd_conv_take_nth_drop)
  have "mset (concat (map f xs)) = mset (concat (map f (take i xs))) + mset (f (xs ! i)) + mset (concat (map f (drop (Suc i) xs)))"
    by (subst x) simp
  then show ?thesis by (simp add: u)
qed

lemma cache_bounds:
  assumes "mp_ok mp" "i < RTE_MAX_LCORE"
  shows "length (cache_objs (local_cache mp ! i)) = 1536" "unat (cache_len (local_cache mp ! i)) \<le> unat (cache_flushthresh mp)"
    "unat (cache_flushthresh mp) \<le> 768" "unat (cache_size mp) \<le> 512" "i < length (local_cache mp)"
    "unat (cache_size mp) \<le> unat (cache_flushthresh mp)"
  using assms by (auto simp: mp_ok_def cache_ok_def word_le_nat_alt RTE_MEMPOOL_CACHE_MAX_SIZE_def)

lemma cache_part:
  assumes "i < length (local_cache mp)"
  shows "size (mset (cached (local_cache mp ! i))) \<le> size (mset (concat (map cached (local_cache mp))))"
proof -
  have "local_cache mp = take i (local_cache mp) @ local_cache mp ! i # drop (Suc i) (local_cache mp)"
    using assms by (rule id_take_nth_drop)
  then have "size (mset (concat (map cached (local_cache mp)))) =
      size (mset (concat (map cached (take i (local_cache mp) @ local_cache mp ! i # drop (Suc i) (local_cache mp)))))"
    by simp
  then show ?thesis by simp
qed

lemma mp_ok_update:
  assumes "mp_ok mp" "ring_ok r" "cache_ok mp c"
  shows "mp_ok (mp\<lparr>mp_ring := r, local_cache := (local_cache mp)[i := c]\<rparr>)"
  using assms set_update_subset_insert [of "local_cache mp" i c]
  by (fastforce simp: mp_ok_def cache_ok_def)

lemma mp_ok_ring: "mp_ok mp \<Longrightarrow> ring_ok r \<Longrightarrow> mp_ok (mp\<lparr>mp_ring := r\<rparr>)"
  by (simp add: mp_ok_def cache_ok_def)

section \<open>The bulk functions of the ring\<close>

lemma ring_put:
  assumes "ring_ok r" "length (ring_contents r) + unat n \<le> ring_cap r" "length tab = unat n"
  shows "\<exists>ret r'. (if is_mp then rte_ring_mp_enqueue_bulk r tab n else Some (rte_ring_sp_enqueue_bulk r tab n)) = Some (ret, r') \<and>
    ring_ok r' \<and> ring_cap r' = ring_cap r \<and> ring_contents r' = ring_contents r @ tab"
proof -
  have n: "of_nat (length tab) = n" "length tab < 2 ^ 32" using assms(3) unsigned_less [of n] by (simp_all)
  show ?thesis
    using mp_ring.enq_fits [OF assms(1) n(2)] sp_ring.enq_fits [OF assms(1) n(2)] assms(2,3) unfolding n(1) by auto
qed

lemma ring_take:
  assumes "ring_ok r" "length tab = unat n"
  shows "\<exists>ret tab' r'. (if is_mc then rte_ring_mc_dequeue_bulk r tab n else Some (rte_ring_sc_dequeue_bulk r tab n)) = Some (ret, tab', r') \<and>
    (if unat n \<le> length (ring_contents r)
     then ret = 0 \<and> tab' = take (unat n) (ring_contents r) \<and> ring_ok r' \<and> ring_cap r' = ring_cap r \<and>
       ring_contents r' = drop (unat n) (ring_contents r)
     else ret = - ENOENT \<and> tab' = tab \<and> r' = r)"
proof -
  have n: "of_nat (length tab) = n" "length tab < 2 ^ 32" using assms(2) unsigned_less [of n] by (simp_all)
  show ?thesis
  proof (cases "unat n \<le> length (ring_contents r)")
    case True
    then show ?thesis
      using mp_ring.deq_has [OF assms(1) n(2)] sp_ring.deq_has [OF assms(1) n(2)] assms(2) unfolding n(1) by auto
  next
    case False
    then show ?thesis
      using mp_ring.deq_short [OF assms(1) n(2)] sp_ring.deq_short [OF assms(1) n(2)] assms(2) unfolding n(1) by auto
  qed
qed

section \<open>Putting\<close>

lemma put_ring_ok:
  assumes "mp_ok mp" "unat n \<le> length obj_table" "size (pool_objs mp) + unat n \<le> ring_cap (mp_ring mp)"
  shows "\<exists>mp'. mempool_put_ring mp obj_table n is_mp = Some mp' \<and> mp_ok mp' \<and> same_pool mp mp' \<and>
    pool_objs mp' = pool_objs mp + mset (take (unat n) obj_table)"
proof -
  have r: "ring_ok (mp_ring mp)" using assms(1) by (simp add: mp_ok_def)
  have "length (ring_contents (mp_ring mp)) + unat n \<le> ring_cap (mp_ring mp)" using assms(3) by (simp add: pool_objs_def)
  then obtain ret r' where r': "(if is_mp then rte_ring_mp_enqueue_bulk (mp_ring mp) (take (unat n) obj_table) n
      else Some (rte_ring_sp_enqueue_bulk (mp_ring mp) (take (unat n) obj_table) n)) = Some (ret, r')"
    "ring_ok r'" "ring_cap r' = ring_cap (mp_ring mp)" "ring_contents r' = ring_contents (mp_ring mp) @ take (unat n) obj_table"
    using ring_put [OF r, of n "take (unat n) obj_table" is_mp] assms(2) by auto
  have "mempool_put_ring mp obj_table n is_mp = Some (mp\<lparr>mp_ring := r'\<rparr>)"
    using r'(1) assms(2) by (simp add: mempool_put_ring_def read_range_def)
  then show ?thesis
    using mp_ok_ring [OF assms(1) r'(2)] r'(3,4) by (simp add: same_pool_def pool_objs_def)
qed

lemma mempool_put_ok:
  assumes ok: "mp_ok mp" and n: "unat n \<le> length obj_table" and fit: "size (pool_objs mp) + unat n \<le> ring_cap (mp_ring mp)"
  shows "\<exists>mp'. mempool_put_bulk lcore_id mp obj_table n is_mp = Some mp' \<and> mp_ok mp' \<and> same_pool mp mp' \<and>
    pool_objs mp' = pool_objs mp + mset (take (unat n) obj_table)"
proof (cases "cache_size mp = 0 \<or> \<not> is_mp \<or> lcore_id \<ge> RTE_MAX_LCORE \<or> n > RTE_MEMPOOL_CACHE_MAX_SIZE")
  case True
  then have "mempool_put_bulk lcore_id mp obj_table n is_mp = mempool_put_ring mp obj_table n is_mp"
    by (simp only: mempool_put_bulk_def if_True)
  then show ?thesis using put_ring_ok [OF ok n fit, of is_mp] by simp
next
  case False
  then have i: "lcore_id < RTE_MAX_LCORE" and n512: "unat n \<le> 512"
    by (auto simp: word_le_nat_alt RTE_MEMPOOL_CACHE_MAX_SIZE_def not_less)
  note B = cache_bounds [OF ok i]
  define c where "c = local_cache mp ! lcore_id"
  note B = B [folded c_def]
  define L where "L = unat (cache_len c)"
  have L: "L \<le> 768" "length (cache_objs c) = 1536" "L \<le> unat (cache_flushthresh mp)" using B by (simp_all add: L_def)
  define objs where "objs = take L (cache_objs c) @ take (unat n) obj_table @ drop (L + unat n) (cache_objs c)"
  have m: "memcpy (cache_objs c) L obj_table 0 (unat n) = Some objs"
    using L n n512 by (simp add: memcpy_def objs_def)
  have lo: "length objs = 1536" "take (L + unat n) objs = cached c @ take (unat n) obj_table"
    using L n n512 by (simp_all add: objs_def cached_def L_def)
  have ln: "unat (cache_len c + n) = L + unat n" using L n512 by (simp add: L_def unat_add_exact)
  have len_cached: "length (cached c) = L" using L by (simp add: cached_def L_def)
  show ?thesis
  proof (cases "cache_len c + n \<ge> cache_flushthresh mp")
    case False
    define c' where "c' = c\<lparr>cache_objs := objs, cache_len := cache_len c + n\<rparr>"
    have "mempool_put_bulk lcore_id mp obj_table n is_mp = Some (mp\<lparr>local_cache := (local_cache mp)[lcore_id := c']\<rparr>)"
      using \<open>\<not> (cache_size mp = 0 \<or> _)\<close> False m B(5)
      by (simp add: mempool_put_bulk_def read_at_def c_def [symmetric] L_def [symmetric] c'_def Let_def)
    moreover have "cache_ok mp c'" using lo(1) False by (simp add: cache_ok_def c'_def)
    then have "mp_ok (mp\<lparr>local_cache := (local_cache mp)[lcore_id := c']\<rparr>)"
      using mp_ok_update [OF ok _, of "mp_ring mp" c' lcore_id] ok by (simp add: mp_ok_def)
    moreover have "cached c' = cached c @ take (unat n) obj_table" using lo(2) ln by (simp add: c'_def cached_def)
    then have "pool_objs (mp\<lparr>local_cache := (local_cache mp)[lcore_id := c']\<rparr>) = pool_objs mp + mset (take (unat n) obj_table)"
      using mset_concat_update [OF B(5), of cached c'] by (simp add: pool_objs_def c_def)
    ultimately show ?thesis by (simp add: same_pool_def)
  next
    case True
    define k where "k = cache_len c + n - cache_size mp"
    define S where "S = unat (cache_size mp)"
    have "cache_flushthresh mp \<le> cache_len c + n" using True .
    then have S: "S \<le> L + unat n" using B(6) ln by (simp add: word_le_nat_alt S_def)
    have k: "unat k = L + unat n - S" using S ln by (simp add: k_def S_def unat_sub_exact)
    define tab where "tab = take (L + unat n - S) (drop S objs)"
    have t: "read_range objs S (unat k) = Some tab" "length tab = unat k"
      using lo(1) L n512 S by (simp_all add: read_range_def tab_def k)
    have whole: "take S objs @ tab = cached c @ take (unat n) obj_table"
    proof -
      have "take S objs @ tab = take (S + (L + unat n - S)) objs" by (simp only: take_add tab_def)
      then show ?thesis using S lo(2) by simp
    qed
    have "L \<le> size (mset (concat (map cached (local_cache mp))))"
      using cache_part [OF B(5)] len_cached by (simp add: c_def)
    then have "length (ring_contents (mp_ring mp)) + unat k \<le> ring_cap (mp_ring mp)"
      using fit k by (simp add: pool_objs_def)
    then obtain ret r' where r': "rte_ring_mp_enqueue_bulk (mp_ring mp) tab k = Some (ret, r')" "ring_ok r'"
      "ring_cap r' = ring_cap (mp_ring mp)" "ring_contents r' = ring_contents (mp_ring mp) @ tab"
      using ring_put [of "mp_ring mp" k tab True] t(2) ok by (auto simp: mp_ok_def)
    define c' where "c' = c\<lparr>cache_objs := objs, cache_len := cache_size mp\<rparr>"
    have "mempool_put_bulk lcore_id mp obj_table n is_mp =
        Some (mp\<lparr>mp_ring := r', local_cache := (local_cache mp)[lcore_id := c']\<rparr>)"
      using \<open>\<not> (cache_size mp = 0 \<or> _)\<close> True m B(5) t(1) r'(1)
      by (simp add: mempool_put_bulk_def read_at_def c_def [symmetric] L_def [symmetric] c'_def Let_def k_def [symmetric]
          S_def [symmetric])
    moreover have "cache_ok mp c'" using lo(1) ok by (simp add: cache_ok_def c'_def mp_ok_def)
    then have "mp_ok (mp\<lparr>mp_ring := r', local_cache := (local_cache mp)[lcore_id := c']\<rparr>)"
      by (rule mp_ok_update [OF ok r'(2)])
    moreover have "cached c' = take S objs" by (simp add: c'_def cached_def S_def)
    then have "mset (concat (map cached ((local_cache mp)[lcore_id := c']))) + mset (cached c) =
        mset (concat (map cached (local_cache mp))) + mset (take S objs)"
      using mset_concat_update [OF B(5), of cached c'] by (simp add: c_def)
    then have "mset (concat (map cached ((local_cache mp)[lcore_id := c']))) + mset tab + mset (cached c) =
        mset (concat (map cached (local_cache mp))) + (mset (cached c) + mset (take (unat n) obj_table))"
      using arg_cong [OF whole, of mset] by (simp add: ac_simps)
    then have "pool_objs (mp\<lparr>mp_ring := r', local_cache := (local_cache mp)[lcore_id := c']\<rparr>) =
        pool_objs mp + mset (take (unat n) obj_table)"
      using r'(4) by (simp add: pool_objs_def ac_simps)
    ultimately show ?thesis using r'(3) by (simp add: same_pool_def)
  qed
qed

section \<open>Getting\<close>

text \<open>When a get of \<open>n\<close> objects succeeds: the ring alone has them, or the cache of the core alone.\<close>

definition can_get :: "nat \<Rightarrow> rte_mempool \<Rightarrow> u32 \<Rightarrow> bool \<Rightarrow> bool" where
  "can_get lcore_id mp n is_mc \<longleftrightarrow>
     unat n \<le> length (ring_contents (mp_ring mp)) \<or>
     (is_mc \<and> lcore_id < RTE_MAX_LCORE \<and> n < cache_size mp \<and> n \<le> cache_len (local_cache mp ! lcore_id))"

definition got :: "rte_mempool \<Rightarrow> u64 list \<Rightarrow> u32 \<Rightarrow> bool \<Rightarrow> (int \<times> u64 list \<times> rte_mempool) option \<Rightarrow> bool" where
  "got mp obj_table n success m \<longleftrightarrow> (\<exists>ret tab mp'. m = Some (ret, tab, mp') \<and> mp_ok mp' \<and> same_pool mp mp' \<and>
     (if success
      then ret = 0 \<and> length tab = length obj_table \<and> drop (unat n) tab = drop (unat n) obj_table \<and>
        pool_objs mp = mset (take (unat n) tab) + pool_objs mp'
      else ret = - ENOENT \<and> tab = obj_table \<and> mp' = mp))"

lemma get_ring_ok:
  assumes ok: "mp_ok mp" and n: "unat n \<le> length obj_table"
  shows "got mp obj_table n (unat n \<le> length (ring_contents (mp_ring mp))) (mempool_get_ring mp obj_table n is_mc)"
proof -
  have r: "ring_ok (mp_ring mp)" using ok by (simp add: mp_ok_def)
  define t where "t = take (unat n) obj_table"
  have lt: "length t = unat n" using n by (simp add: t_def)
  obtain ret tab r' where r': "(if is_mc then rte_ring_mc_dequeue_bulk (mp_ring mp) t n
      else Some (rte_ring_sc_dequeue_bulk (mp_ring mp) t n)) = Some (ret, tab, r')"
    "if unat n \<le> length (ring_contents (mp_ring mp))
     then ret = 0 \<and> tab = take (unat n) (ring_contents (mp_ring mp)) \<and> ring_ok r' \<and> ring_cap r' = ring_cap (mp_ring mp) \<and>
       ring_contents r' = drop (unat n) (ring_contents (mp_ring mp))
     else ret = - ENOENT \<and> tab = t \<and> r' = mp_ring mp"
    using ring_take [OF r lt, of is_mc] by blast
  have g: "mempool_get_ring mp obj_table n is_mc = Some (ret, tab @ drop (unat n) obj_table, mp\<lparr>mp_ring := r'\<rparr>)"
    using r'(1) n by (cases is_mc) (simp_all add: mempool_get_ring_def read_range_def t_def [symmetric])
  show ?thesis
  proof (cases "unat n \<le> length (ring_contents (mp_ring mp))")
    case True
    then have "mset (ring_contents (mp_ring mp)) = mset tab + mset (ring_contents r')"
      using r'(2) by (metis append_take_drop_id mset_append)
    then show ?thesis
      using True r'(2) g n mp_ok_ring [OF ok, of r'] by (auto simp: got_def same_pool_def pool_objs_def)
  next
    case False
    then have "mp\<lparr>mp_ring := r'\<rparr> = mp" "tab @ drop (unat n) obj_table = obj_table" using r'(2) by (simp_all add: t_def)
    then show ?thesis using False r'(2) g ok by (simp add: got_def)
  qed
qed

text \<open>\<open>mp'\<close> is the pool whose cache holds \<open>c\<close>, possibly just refilled.\<close>

lemma get_cache_ok:
  assumes ok: "mp_ok mp" and i: "i < RTE_MAX_LCORE" and n: "unat n \<le> length obj_table" "n \<le> cache_len c"
    and r: "ring_ok r" "ring_cap r = ring_cap (mp_ring mp)"
    and c: "length (cache_objs c) = 1536" "unat (cache_len c) \<le> 1536" "cache_len c - n \<le> cache_flushthresh mp"
    and all: "mset (ring_contents r) + mset (cached c) = mset (ring_contents (mp_ring mp)) + mset (cached (local_cache mp ! i))"
  shows "got mp obj_table n True (mempool_get_cache i (mp\<lparr>mp_ring := r\<rparr>) c obj_table n)"
proof -
  define L where "L = unat (cache_len c)"
  define N where "N = unat n"
  have NL: "N \<le> L" using n(2) by (simp add: N_def L_def word_le_nat_alt)
  have u: "unat (cache_len c - n) = L - N" using n(2) by (simp add: unat_sub_exact word_le_nat_alt L_def N_def)
  define t where "t = take N (drop (L - N) (cache_objs c))"
  have lt: "length t = N" using NL c(1,2) by (simp add: t_def L_def)
  have rr: "read_range (cache_objs c) (L - N) N = Some t" using NL c(1,2) by (simp add: read_range_def t_def L_def)
  define tab where "tab = rev t @ drop N obj_table"
  have m: "memcpy obj_table 0 (rev t) 0 N = Some tab"
    using lt n(1) by (simp add: memcpy_def tab_def N_def)
  define c' where "c' = c\<lparr>cache_len := cache_len c - n\<rparr>"
  define mp' where "mp' = mp\<lparr>mp_ring := r, local_cache := (local_cache mp)[i := c']\<rparr>"
  have g: "mempool_get_cache i (mp\<lparr>mp_ring := r\<rparr>) c obj_table n = Some (0, tab, mp')"
    using rr m by (simp add: mempool_get_cache_def u N_def [symmetric] mp'_def c'_def)
  have "cache_ok mp c'" using c(1,3) by (simp add: cache_ok_def c'_def)
  then have ok': "mp_ok mp'" unfolding mp'_def by (rule mp_ok_update [OF ok r(1)])
  have "cached c = cached c' @ t"
  proof -
    have "take L (cache_objs c) = take (L - N + N) (cache_objs c)" using NL by simp
    then show ?thesis using u by (simp only: cached_def c'_def t_def take_add L_def [symmetric]) simp
  qed
  then have "mset (cached c) = mset (cached c') + mset t" by simp
  moreover have "mset (concat (map cached ((local_cache mp)[i := c']))) + mset (cached (local_cache mp ! i)) =
      mset (concat (map cached (local_cache mp))) + mset (cached c')"
    by (rule mset_concat_update) (use ok i in \<open>simp add: mp_ok_def\<close>)
  ultimately have "(mset t + mset (ring_contents r) + mset (concat (map cached ((local_cache mp)[i := c'])))) +
      mset (cached (local_cache mp ! i)) =
      (mset (ring_contents (mp_ring mp)) + mset (concat (map cached (local_cache mp)))) + mset (cached (local_cache mp ! i))"
    using all by (simp add: ac_simps)
  then have "pool_objs mp = mset t + pool_objs mp'"
    by (simp add: pool_objs_def mp'_def ac_simps)
  moreover have "take N tab = rev t" "drop N tab = drop N obj_table" "length tab = length obj_table"
    using lt n(1) by (simp_all add: tab_def N_def)
  ultimately show ?thesis
    using g ok' r(2) by (auto simp: got_def same_pool_def mp'_def N_def [symmetric])
qed

lemma mempool_get_ok:
  assumes ok: "mp_ok mp" and n: "unat n \<le> length obj_table"
  shows "got mp obj_table n (can_get lcore_id mp n is_mc) (mempool_get_bulk lcore_id mp obj_table n is_mc)"
proof (cases "cache_size mp = 0 \<or> \<not> is_mc \<or> n \<ge> cache_size mp \<or> lcore_id \<ge> RTE_MAX_LCORE")
  case True
  then have "mempool_get_bulk lcore_id mp obj_table n is_mc = mempool_get_ring mp obj_table n is_mc"
    by (simp only: mempool_get_bulk_def if_True)
  moreover have "can_get lcore_id mp n is_mc \<longleftrightarrow> unat n \<le> length (ring_contents (mp_ring mp))"
    using True by (auto simp: can_get_def not_less word_le_nat_alt word_less_nat_alt)
  ultimately show ?thesis using get_ring_ok [OF ok n, of is_mc] by simp
next
  case False
  then have i: "lcore_id < RTE_MAX_LCORE" and mc: "is_mc" and nc: "n < cache_size mp" by (auto simp: not_le)
  note B = cache_bounds [OF ok i]
  define c where "c = local_cache mp ! lcore_id"
  define L where "L = unat (cache_len c)"
  note B = B [folded c_def]
  have r: "ring_ok (mp_ring mp)" using ok by (simp add: mp_ok_def)
  have rd: "read_at (local_cache mp) lcore_id = Some c" using B(5) by (simp add: read_at_def c_def)
  show ?thesis
  proof (cases "cache_len c < n")
    case False
    have can: "can_get lcore_id mp n is_mc" using False i mc nc by (simp add: can_get_def c_def not_less)
    have eq: "mempool_get_bulk lcore_id mp obj_table n is_mc = mempool_get_cache lcore_id (mp\<lparr>mp_ring := mp_ring mp\<rparr>) c obj_table n"
      using \<open>\<not> (cache_size mp = 0 \<or> _)\<close> False rd by (simp add: mempool_get_bulk_def)
    have "cache_len c - n \<le> cache_flushthresh mp"
      using False B(2) by (simp add: word_le_nat_alt unat_sub_exact not_less)
    then have "got mp obj_table n True (mempool_get_cache lcore_id (mp\<lparr>mp_ring := mp_ring mp\<rparr>) c obj_table n)"
      using False B r by (intro get_cache_ok [OF ok i n]) (auto simp: c_def not_less)
    then show ?thesis using eq can by simp
  next
    case True
    define req where "req = n + (cache_size mp - cache_len c)"
    define Z where "Z = unat (cache_size mp)"
    define N where "N = unat n"
    have LN: "L < N" "N < Z" "Z \<le> 512" using True nc B(4) by (simp_all add: L_def N_def Z_def word_less_nat_alt)
    have req: "unat req = N + (Z - L)"
    proof -
      have "unat (cache_size mp - cache_len c) = Z - L"
        using LN by (simp add: unat_sub_exact L_def Z_def)
      then show ?thesis using LN unat_add_exact [of n "cache_size mp - cache_len c"] by (simp add: req_def N_def)
    qed
    define t where "t = take (N + (Z - L)) (drop L (cache_objs c))"
    have t: "read_range (cache_objs c) L (unat req) = Some t" "length t = unat req"
      using LN B(1) by (simp_all add: read_range_def t_def req)
    obtain ret tab r' where r': "rte_ring_mc_dequeue_bulk (mp_ring mp) t req = Some (ret, tab, r')"
      "if unat req \<le> length (ring_contents (mp_ring mp))
       then ret = 0 \<and> tab = take (unat req) (ring_contents (mp_ring mp)) \<and> ring_ok r' \<and> ring_cap r' = ring_cap (mp_ring mp) \<and>
         ring_contents r' = drop (unat req) (ring_contents (mp_ring mp))
       else ret = - ENOENT \<and> tab = t \<and> r' = mp_ring mp"
      using ring_take [OF r t(2), of True] by auto
    have ltab: "length tab = unat req" using r'(2) t(2) by (auto split: if_splits)
    define objs where "objs = take L (cache_objs c) @ tab @ drop (L + unat req) (cache_objs c)"
    have m: "memcpy (cache_objs c) L tab 0 (unat req) = Some objs"
      using ltab LN B(1) req by (simp add: memcpy_def objs_def)
    have can: "can_get lcore_id mp n is_mc \<longleftrightarrow> unat n \<le> length (ring_contents (mp_ring mp))"
      using True by (auto simp: can_get_def c_def not_le [symmetric])
    have eq: "mempool_get_bulk lcore_id mp obj_table n is_mc =
      (if ret < 0 then mempool_get_ring (mp\<lparr>mp_ring := r'\<rparr>) obj_table n is_mc
       else mempool_get_cache lcore_id (mp\<lparr>mp_ring := r'\<rparr>) (c\<lparr>cache_objs := objs, cache_len := cache_len c + req\<rparr>) obj_table n)"
      using \<open>\<not> (cache_size mp = 0 \<or> _)\<close> True rd t(1) r'(1) m
      by (simp add: mempool_get_bulk_def req_def [symmetric] L_def [symmetric] Let_def)
    show ?thesis
    proof (cases "unat req \<le> length (ring_contents (mp_ring mp))")
      case False
      then have "ret < 0" "mp\<lparr>mp_ring := r'\<rparr> = mp" using r'(2) by (simp_all add: ENOENT_def)
      then show ?thesis using eq get_ring_ok [OF ok n, of is_mc] can by simp
    next
      case True
      then have R: "ret = 0" "tab = take (unat req) (ring_contents (mp_ring mp))" "ring_ok r'"
        "ring_cap r' = ring_cap (mp_ring mp)" "ring_contents r' = drop (unat req) (ring_contents (mp_ring mp))"
        using r'(2) by simp_all
      define c1 where "c1 = c\<lparr>cache_objs := objs, cache_len := cache_len c + req\<rparr>"
      have l1: "unat (cache_len c1) = N + Z"
        using req LN unat_add_exact [of "cache_len c" req] by (simp add: c1_def L_def)
      have lo: "length objs = 1536" "take (N + Z) objs = cached c @ tab"
        using B(1) LN req ltab by (simp_all add: objs_def cached_def L_def)
      have "cached c1 = cached c @ tab" using lo(2) l1 by (simp add: cached_def [of c1]) (simp add: c1_def)
      moreover have "mset (ring_contents (mp_ring mp)) = mset tab + mset (ring_contents r')"
        using R by (metis append_take_drop_id mset_append)
      ultimately have all: "mset (ring_contents r') + mset (cached c1) =
          mset (ring_contents (mp_ring mp)) + mset (cached (local_cache mp ! lcore_id))"
        by (simp add: c_def ac_simps)
      have "n \<le> cache_len c1" using l1 by (simp add: word_le_nat_alt N_def)
      moreover have "unat (cache_len c1 - n) = Z" using l1 by (simp add: unat_sub_exact N_def)
      then have "cache_len c1 - n \<le> cache_flushthresh mp" using B(6) by (simp add: word_le_nat_alt Z_def)
      ultimately have "got mp obj_table n True (mempool_get_cache lcore_id (mp\<lparr>mp_ring := r'\<rparr>) c1 obj_table n)"
        using R(3,4) lo(1) l1 LN all by (intro get_cache_ok [OF ok i n]) (auto simp: c1_def)
      moreover have "can_get lcore_id mp n is_mc" using True can req LN by (simp add: N_def)
      ultimately show ?thesis using eq R(1) by (simp add: c1_def)
    qed
  qed
qed

section \<open>Any sequence of calls\<close>

text \<open>
  The pool and the objects the application holds.  The application puts back only what it
  holds; each call may come from any core and use any variant of the function.
\<close>

inductive mp_step :: "rte_mempool \<times> u64 multiset \<Rightarrow> rte_mempool \<times> u64 multiset \<Rightarrow> bool" where
  step_put: "unat n \<le> length objs \<Longrightarrow> mset (take (unat n) objs) \<subseteq># held \<Longrightarrow>
    mempool_put_bulk lcore_id mp objs n is_mp = Some mp' \<Longrightarrow>
    mp_step (mp, held) (mp', held - mset (take (unat n) objs))"
| step_get: "unat n \<le> length tab \<Longrightarrow> mempool_get_bulk lcore_id mp tab n is_mc = Some (ret, tab', mp') \<Longrightarrow>
    mp_step (mp, held) (mp', if ret = 0 then held + mset (take (unat n) tab') else held)"

inductive_cases mp_stepE: "mp_step (mp, held) s"

definition accounted :: "u64 multiset \<Rightarrow> rte_mempool \<times> u64 multiset \<Rightarrow> bool" where
  "accounted objs s \<longleftrightarrow> mp_ok (fst s) \<and> pool_objs (fst s) + snd s = objs \<and> size objs \<le> ring_cap (mp_ring (fst s))"

lemma step_accounted:
  assumes "accounted objs s" "mp_step s s'"
  shows "accounted objs s'"
  using assms(2,1)
proof (cases rule: mp_step.cases)
  case (step_put n tab held lcore_id mp is_mp mp')
  then have A: "mp_ok mp" "pool_objs mp + held = objs" "size objs \<le> ring_cap (mp_ring mp)" using assms(1) by (auto simp: accounted_def)
  have h: "mset (take (unat n) tab) + (held - mset (take (unat n) tab)) = held" using step_put(4) by simp
  have "size (pool_objs mp) + unat n \<le> size objs"
  proof -
    have "size (mset (take (unat n) tab)) = unat n" using step_put by simp
    then have "unat n \<le> size held" using size_mset_mono [OF step_put(4)] by simp
    then show ?thesis using A(2) by auto
  qed
  then obtain z where "mempool_put_bulk lcore_id mp tab n is_mp = Some z" "mp_ok z" "same_pool mp z"
    "pool_objs z = pool_objs mp + mset (take (unat n) tab)"
    using mempool_put_ok [OF A(1) step_put(3)] A(3) by (meson order_trans)
  then have Z: "mp_ok mp'" "same_pool mp mp'" "pool_objs mp' = pool_objs mp + mset (take (unat n) tab)"
    using step_put(5) by simp_all
  have "pool_objs mp' + (held - mset (take (unat n) tab)) = objs"
    unfolding Z(3) add.assoc h by (rule A(2))
  then show ?thesis
    using Z(1,2) A(3) unfolding step_put(2) by (simp add: accounted_def same_pool_def)
next
  case (step_get n tab lcore_id mp is_mc ret tab' mp' held)
  then have A: "mp_ok mp" "pool_objs mp + held = objs" "size objs \<le> ring_cap (mp_ring mp)" using assms(1) by (auto simp: accounted_def)
  have "got mp tab n (can_get lcore_id mp n is_mc) (Some (ret, tab', mp'))"
    using mempool_get_ok [OF A(1) step_get(3), of lcore_id is_mc] step_get by simp
  then have G: "mp_ok mp'" "same_pool mp mp'"
    "pool_objs mp' + (if ret = 0 then held + mset (take (unat n) tab') else held) = pool_objs mp + held"
    by (auto simp: got_def ENOENT_def split: if_splits)
  then show ?thesis
    using A unfolding step_get(2) by (simp add: accounted_def same_pool_def)
qed

definition sample_pool :: rte_mempool where
  "sample_pool = \<lparr>mp_ring = \<lparr>ring_name = '''', ring_flags = 0,
       prod = \<lparr>watermark = 4, sp_enqueue = False, prod_size = 4, prod_mask = 3, prod_head = 3, prod_tail = 3\<rparr>,
       cons = \<lparr>sc_dequeue = False, cons_size = 4, cons_mask = 3, cons_head = 0, cons_tail = 0\<rparr>,
       slots = [100, 200, 300, 0]\<rparr>,
     mp_flags = 0, mp_size = 3, cache_size = 2, cache_flushthresh = 3, mp_elt_size = 8, mp_header_size = 64,
     mp_trailer_size = 56, local_cache = replicate RTE_MAX_LCORE \<lparr>cache_len = 0, cache_objs = replicate 1536 0\<rparr>,
     mp_name = ''p'', mp_phys_addr = 0, private_data_size = 0, mp_pg_num = 1, mp_pg_shift = 63, mp_pg_mask = 0x7fffffffffffffff,
     elt_va_start = 36, elt_va_end = 420, elt_pa = [36]\<rparr>"

lemma sample_pool_ok: "mp_ok sample_pool" "ring_contents (mp_ring sample_pool) = [100, 200, 300]"
  "pool_objs sample_pool = {#100, 200, 300#}" "ring_cap (mp_ring sample_pool) = 3"
proof -
  show c: "ring_contents (mp_ring sample_pool) = [100, 200, 300]"
    by (simp add: sample_pool_def ring_contents_def ring_slot_def ring_size_def upt_conv_Cons)
  have e: "concat (map cached (local_cache sample_pool)) = []"
    by (simp add: sample_pool_def cached_def)
  show "pool_objs sample_pool = {#100, 200, 300#}" unfolding pool_objs_def c e by simp
  show "ring_cap (mp_ring sample_pool) = 3" by (simp add: sample_pool_def ring_cap_def ring_size_def)
  have "\<exists>k\<in>{..27}. 4 = (2 :: nat) ^ k" by (rule bexI [of _ 2]) simp_all
  then show "mp_ok sample_pool"
    by (simp add: mp_ok_def cache_ok_def sample_pool_def ring_ok_def ring_wf_def ring_size_def RTE_MEMPOOL_CACHE_MAX_SIZE_def)
qed

text \<open>C35: whatever the cores put back and get, by whatever variant of the functions, the objects that are free and
  those the application holds stay the same collection: none is lost, doubled or made up.  No call fails to return or
  leaves the caches' arrays.\<close>

theorem mempool_conserves:
  assumes "mp_ok mp" "pool_objs mp + held = objs" "size objs \<le> ring_cap (mp_ring mp)"
    "mp_step\<^sup>*\<^sup>* (mp, held) (mp', held')"
  shows "pool_objs mp' + held' = objs \<and> mp_ok mp' \<and>
    (\<forall>lcore_id tab n is_mc. unat n \<le> length tab \<longrightarrow> mempool_get_bulk lcore_id mp' tab n is_mc \<noteq> None) \<and>
    (\<forall>lcore_id tab n is_mp. unat n \<le> length tab \<and> mset (take (unat n) tab) \<subseteq># held' \<longrightarrow>
       mempool_put_bulk lcore_id mp' tab n is_mp \<noteq> None)"
proof -
  have "accounted objs (mp', held')"
    using assms(4)
  proof (induction rule: rtranclp_induct)
    case base
    then show ?case using assms(1-3) by (simp add: accounted_def)
  next
    case (step y z)
    then show ?case using step_accounted by blast
  qed
  then have A: "mp_ok mp'" "pool_objs mp' + held' = objs" "size objs \<le> ring_cap (mp_ring mp')"
    by (auto simp: accounted_def)
  have get: "mempool_get_bulk lcore_id mp' tab n is_mc \<noteq> None" if "unat n \<le> length tab" for lcore_id tab n is_mc
    using mempool_get_ok [OF A(1) that, of lcore_id is_mc] by (auto simp: got_def)
  have put: "mempool_put_bulk lcore_id mp' tab n is_mp \<noteq> None"
    if n: "unat n \<le> length tab" and s: "mset (take (unat n) tab) \<subseteq># held'" for lcore_id tab n is_mp
  proof -
    have "unat n \<le> size held'" using size_mset_mono [OF s] n by simp
    then have "size (pool_objs mp') + unat n \<le> ring_cap (mp_ring mp')" using A(2,3) by auto
    then show ?thesis using mempool_put_ok [OF A(1) n, of lcore_id is_mp] by auto
  qed
  show ?thesis using A get put by blast
qed

theorem mempool_conserves_witness:
  "\<exists>tab mp'. mempool_get_bulk 5 sample_pool [0] 1 True = Some (0, tab, mp') \<and>
    pool_objs mp' + mset (take 1 tab) = {#100, 200, 300#} \<and> mp_ok mp'"
proof -
  have "can_get 5 sample_pool 1 True" by (simp add: can_get_def sample_pool_ok)
  then obtain tab mp' where g: "mempool_get_bulk 5 sample_pool [0] 1 True = Some (0, tab, mp')"
    using mempool_get_ok [OF sample_pool_ok(1), of 1 "[0]" 5 True] by (auto simp: got_def)
  have "mp_step (sample_pool, {#}) (mp', {#} + mset (take 1 tab))"
    using step_get [OF _ g, of "{#}"] by simp
  then have "mp_step\<^sup>*\<^sup>* (sample_pool, {#}) (mp', mset (take 1 tab))" by simp
  from mempool_conserves [OF sample_pool_ok(1) _ _ this, of "{#100, 200, 300#}"]
  show ?thesis using g sample_pool_ok by auto
qed


text \<open>Two objects in the cache of core 0 and one in the ring.\<close>

definition sample_split :: rte_mempool where
  "sample_split = sample_pool\<lparr>mp_ring := (mp_ring sample_pool)\<lparr>cons := (cons (mp_ring sample_pool))\<lparr>cons_head := 2, cons_tail := 2\<rparr>\<rparr>,
     cache_size := 4, cache_flushthresh := 6,
     local_cache := (local_cache sample_pool)[0 := \<lparr>cache_len = 2, cache_objs = [100, 200] @ replicate 1534 0\<rparr>]\<rparr>"

lemma sample_split_ok: "mp_ok sample_split" "ring_contents (mp_ring sample_split) = [300]"
  "cached (local_cache sample_split ! 0) = [100, 200]" "size (pool_objs sample_split) = 3"
proof -
  have k: "\<exists>k\<in>{..27}. 4 = (2 :: nat) ^ k" by (rule bexI [of _ 2]) simp_all
  show r: "ring_contents (mp_ring sample_split) = [300]"
    by (simp add: sample_split_def sample_pool_def ring_contents_def ring_slot_def ring_size_def)
  have l: "local_cache sample_split =
      \<lparr>cache_len = 2, cache_objs = [100, 200] @ replicate 1534 0\<rparr> # replicate 127 \<lparr>cache_len = 0, cache_objs = replicate 1536 0\<rparr>"
    by (simp add: sample_split_def sample_pool_def RTE_MAX_LCORE_def numeral_eq_Suc)
  show c: "cached (local_cache sample_split ! 0) = [100, 200]" by (simp add: l cached_def)
  have "concat (map cached (local_cache sample_split)) = [100, 200]"
    by (simp add: l cached_def)
  then show "size (pool_objs sample_split) = 3" by (simp add: pool_objs_def r)
  show "mp_ok sample_split"
    using k by (simp add: mp_ok_def l cache_ok_def RTE_MAX_LCORE_def)
      (simp add: sample_split_def sample_pool_def ring_ok_def ring_wf_def ring_size_def RTE_MEMPOOL_CACHE_MAX_SIZE_def)
qed


lemma fold_sum:
  fixes f :: "nat \<Rightarrow> u32"
  shows "unat n + sum_list (map (\<lambda>i. unat (f i)) is) < 2 ^ 32 \<Longrightarrow>
    unat (fold (\<lambda>i n. n + f i) is n) = unat n + sum_list (map (\<lambda>i. unat (f i)) is)"
proof (induction "is" arbitrary: n)
  case (Cons i "is")
  then have "unat (n + f i) = unat n + unat (f i)" by (intro unat_add_exact) simp
  then show ?case using Cons.IH [of "n + f i"] Cons.prems by simp
qed simp

lemma mempool_count_all:
  assumes "mp_ok mp" "size (pool_objs mp) \<le> unat (mp_size mp)"
  shows "unat (rte_mempool_count mp) = size (pool_objs mp) \<and>
    unat (rte_mempool_free_count mp) = unat (mp_size mp) - size (pool_objs mp) \<and>
    rte_mempool_full mp = (size (pool_objs mp) = unat (mp_size mp)) \<and>
    rte_mempool_empty mp = (pool_objs mp = {#})"
proof -
  have r: "unat (rte_ring_count (mp_ring mp)) = length (ring_contents (mp_ring mp))"
    using ring_count_lemmas(1) [of "mp_ring mp"] assms(1) by (simp add: mp_ok_def)
  have len: "length (local_cache mp) = RTE_MAX_LCORE" using assms(1) by (simp add: mp_ok_def)
  have c: "unat (cache_len (local_cache mp ! i)) = length (cached (local_cache mp ! i))" if "i < RTE_MAX_LCORE" for i
    using cache_bounds [OF assms(1) that] by (simp add: cached_def)
  have s: "sum_list (map (\<lambda>i. unat (cache_len (local_cache mp ! i))) [0..<RTE_MAX_LCORE]) =
      length (concat (map cached (local_cache mp)))"
  proof -
    have "map (\<lambda>i. unat (cache_len (local_cache mp ! i))) [0..<RTE_MAX_LCORE] = map (length \<circ> cached) (local_cache mp)"
      using c len by (intro nth_equalityI) simp_all
    then show ?thesis by (simp add: length_concat comp_def)
  qed
  define t where "t = size (pool_objs mp)"
  have t: "t = length (ring_contents (mp_ring mp)) + length (concat (map cached (local_cache mp)))"
    by (simp add: t_def pool_objs_def)
  have b: "t < 2 ^ 32" using assms(2) unat_u32_less [of "mp_size mp"] by (simp add: t_def)
  have count: "unat (rte_mempool_count mp) = t"
  proof (cases "cache_size mp = 0")
    case True
    then have "cache_flushthresh mp = 0" using assms(1) by (simp add: mp_ok_def unat_eq_0)
    then have "cached x = []" if "x \<in> set (local_cache mp)" for x
      using that assms(1) by (auto simp: mp_ok_def cache_ok_def cached_def)
    then have "concat (map cached (local_cache mp)) = []" by simp
    then show ?thesis using True r t by (simp add: rte_mempool_count_def)
  next
    case False
    define z where "z = fold (\<lambda>lcore_id n. n + cache_len (local_cache mp ! lcore_id)) [0..<RTE_MAX_LCORE] (rte_ring_count (mp_ring mp))"
    have "unat z = t"
      unfolding z_def using fold_sum [of "rte_ring_count (mp_ring mp)" "\<lambda>i. cache_len (local_cache mp ! i)" "[0..<RTE_MAX_LCORE]"]
        r s t b by simp
    then show ?thesis
      using False assms(2) by (auto simp: rte_mempool_count_def z_def [symmetric] Let_def word_less_nat_alt t_def)
  qed
  have "unat (rte_mempool_free_count mp) = unat (mp_size mp) - t"
    unfolding rte_mempool_free_count_def using count assms(2) by (subst unat_sub_exact) (simp_all add: t_def)
  moreover have "rte_mempool_full mp \<longleftrightarrow> t = unat (mp_size mp)"
    unfolding rte_mempool_full_def using count unat_inj [of "rte_mempool_count mp" "mp_size mp"] by simp
  moreover have "rte_mempool_empty mp \<longleftrightarrow> t = 0"
    unfolding rte_mempool_empty_def using count by (simp add: unat_eq_0 [symmetric])
  ultimately show ?thesis using count by (simp add: t_def)
qed

text \<open>C37: \<open>rte_mempool_count\<close> is the number of free objects, in the ring and in all caches, as long as the pool holds
  no more than its size; the other queries agree with it.\<close>

theorem mempool_count_exact:
  assumes "mp_ok mp" "size (pool_objs mp) \<le> unat (mp_size mp)"
  shows "unat (rte_mempool_count mp) = size (pool_objs mp) \<and>
    unat (rte_mempool_free_count mp) = unat (mp_size mp) - size (pool_objs mp) \<and>
    rte_mempool_full mp = (size (pool_objs mp) = unat (mp_size mp)) \<and>
    rte_mempool_empty mp = (pool_objs mp = {#})"
  using assms by (rule mempool_count_all)

theorem mempool_count_exact_witness:
  "unat (rte_mempool_count sample_pool) = 3 \<and> rte_mempool_full sample_pool"
  using mempool_count_exact [OF sample_pool_ok(1)] sample_pool_ok(3) by (simp add: sample_pool_def)

end
