(* ===== verification/Rte_Mempool_Create.thy ===== *)
theory Rte_Mempool_Create
  imports Rte_Mempool
begin

text \<open>
  lib/librte_mempool/rte_mempool.c: the size of an object with its header and
  padding, the layout of the objects over pages, and the creation of a pool.
  What the environment answers (memory channels and ranks, huge pages, page
  size, memory zones) is the record \<open>eal\<close>.  Memory is a map from the addresses of
  64-bit cells; of what the library writes there, only the pool pointers in the
  object headers are kept.  The loops are partial functions, \<open>None\<close> where they never
  end or read outside the array of page addresses.
\<close>

unbundle bit_operations_syntax

type_synonym mem = "u64 \<Rightarrow> u64"

record eal =
  mem_nchannel :: u32
  mem_nrank :: u32
  hugepages :: bool
  page_size :: u32
  ring_te_ok :: bool
  ring_mz :: "int \<Rightarrow> u64 rte_ring option"
  pool_te_ok :: bool
  pool_mz :: "u64 \<Rightarrow> (u64 \<times> u64) option"

section \<open>Size of an object\<close>

definition CALC_CACHE_FLUSHTHRESH :: "u32 \<Rightarrow> u32" where
  "CALC_CACHE_FLUSHTHRESH c = of_nat (unat c * 3 div 2)"

function gcd_loop :: "u32 \<Rightarrow> u32 \<Rightarrow> u32" where
  "gcd_loop a b = (if b \<noteq> 0 then gcd_loop b (a mod b) else a)"
  by pat_completeness auto

termination gcd_loop
  by (relation "measure (\<lambda>(a, b). unat b)") (auto simp: unat_mod unat_gt_0)

declare gcd_loop.simps [simp del]

definition get_gcd :: "u32 \<Rightarrow> u32 \<Rightarrow> u32" where
  "get_gcd a b =
    (if 0 = a then b
     else if 0 = b then a
     else if a < b then gcd_loop b a else gcd_loop a b)"

partial_function (option) spread_loop :: "u32 \<Rightarrow> u32 \<Rightarrow> u32 option" where
  "spread_loop banks new_obj_size =
    (if get_gcd new_obj_size banks \<noteq> 1 then spread_loop banks (new_obj_size + 1) else Some new_obj_size)"

definition optimize_object_size :: "eal \<Rightarrow> u32 \<Rightarrow> u32 option" where
  "optimize_object_size e obj_size =
    (let nchan = (if mem_nchannel e = 0 then 1 else mem_nchannel e);
         nrank = (if mem_nrank e = 0 then 1 else mem_nrank e)
     in do {
       new_obj_size \<leftarrow> spread_loop (nrank * nchan) ((obj_size + RTE_MEMPOOL_ALIGN_MASK) div RTE_MEMPOOL_ALIGN);
       Some (new_obj_size * RTE_MEMPOOL_ALIGN) })"

text \<open>The header is one pointer.  The size is 0 for an object that does not fit a page without huge pages.\<close>

definition rte_mempool_calc_obj_size :: "eal \<Rightarrow> u32 \<Rightarrow> u32 \<Rightarrow> rte_mempool_objsz \<Rightarrow> (u32 \<times> rte_mempool_objsz) option" where
  "rte_mempool_calc_obj_size e elt_sz flags sz = do {
     let header = 8;
     let header = (if flags AND MEMPOOL_F_NO_CACHE_ALIGN = 0 then RTE_ALIGN_CEIL header RTE_MEMPOOL_ALIGN else header);
     let trailer = 0;
     let elt = RTE_ALIGN_CEIL elt_sz 8;
     let tot = (if flags AND MEMPOOL_F_NO_CACHE_ALIGN = 0 then header + elt + trailer else total_size sz);
     let trailer = (if flags AND MEMPOOL_F_NO_CACHE_ALIGN = 0
                    then trailer + ((RTE_MEMPOOL_ALIGN - (tot AND RTE_MEMPOOL_ALIGN_MASK)) AND RTE_MEMPOOL_ALIGN_MASK)
                    else trailer);
     trailer \<leftarrow> (if flags AND MEMPOOL_F_NO_SPREAD = 0
                then do {
                  new_size \<leftarrow> optimize_object_size e (header + elt + trailer);
                  Some (new_size - header - elt) }
                else Some trailer);
     let new_size = page_size e - header - elt;
     if \<not> hugepages e \<and> (sint new_size < 0 \<or> new_size < trailer)
     then Some (0, \<lparr>elt_size = elt, header_size = header, trailer_size = trailer, total_size = tot\<rparr>)
     else do {
       let trailer = (if hugepages e then trailer else new_size);
       let tot = header + elt + trailer;
       Some (tot, \<lparr>elt_size = elt, header_size = header, trailer_size = trailer, total_size = tot\<rparr>) } }"

definition rte_mempool_xmem_size :: "u32 \<Rightarrow> u64 \<Rightarrow> u32 \<Rightarrow> u64" where
  "rte_mempool_xmem_size elt_num elt_sz pg_shift =
    (let pg_sz = push_bit (unat pg_shift) 1;
         n = pg_sz div elt_sz
     in if n > 0 then push_bit (unat pg_shift) ((ucast elt_num + n - 1) div n)
        else RTE_ALIGN_CEIL elt_sz pg_sz * ucast elt_num)"

section \<open>Layout over pages\<close>

text \<open>The \<open>for\<close> loop over physically adjacent pages.\<close>

partial_function (option) phys_run :: "u64 list \<Rightarrow> u64 \<Rightarrow> u32 \<Rightarrow> u32 \<Rightarrow> u32 option" where
  "phys_run paddr pg_sz pgn k =
    (if k = pgn then Some k
     else do {
       p \<leftarrow> read_at paddr (unat k);
       q \<leftarrow> read_at paddr (unat (k + 1));
       if p + pg_sz = q then phys_run paddr pg_sz pgn (k + 1) else Some k })"

text \<open>The callback gets the argument, the start and the end of the object and its index.\<close>

type_synonym 'c obj_iter = "'c \<Rightarrow> u64 \<Rightarrow> u64 \<Rightarrow> u32 \<Rightarrow> 'c"

partial_function (option) obj_iter_loop ::
  "u32 \<Rightarrow> u64 \<Rightarrow> u64 \<Rightarrow> u64 list \<Rightarrow> u32 \<Rightarrow> u32 \<Rightarrow> 'c obj_iter option \<Rightarrow> u64 \<Rightarrow> u32 \<Rightarrow> u32 \<Rightarrow> 'c \<Rightarrow> (u32 \<times> 'c) option" where
  "obj_iter_loop elt_num elt_sz align paddr pg_num pg_shift obj_iter va i j arg =
    (if i \<noteq> elt_num \<and> j \<noteq> pg_num
     then do {
       let pg_sz = push_bit (unat pg_shift) 1;
       let start = RTE_ALIGN_CEIL va align;
       let stop = start + elt_sz;
       let pgf = ucast (drop_bit (unat pg_shift) stop - drop_bit (unat pg_shift) start);
       let pgn = ucast (drop_bit (unat pg_shift) (stop - 1) - drop_bit (unat pg_shift) start);
       let pgn = pgn + j;
       if pgn \<ge> pg_num then Some (i, arg)
       else do {
         k \<leftarrow> phys_run paddr pg_sz pgn j;
         if k = pgn
         then obj_iter_loop elt_num elt_sz align paddr pg_num pg_shift obj_iter stop (i + 1) (j + pgf)
                (case obj_iter of None \<Rightarrow> arg | Some f \<Rightarrow> f arg start stop i)
         else obj_iter_loop elt_num elt_sz align paddr pg_num pg_shift obj_iter
                (RTE_ALIGN_CEIL (va + 1) pg_sz) i (j + 1) arg } }
     else Some (i, arg))"

definition rte_mempool_obj_iter ::
  "u64 \<Rightarrow> u32 \<Rightarrow> u64 \<Rightarrow> u64 \<Rightarrow> u64 list \<Rightarrow> u32 \<Rightarrow> u32 \<Rightarrow> 'c obj_iter option \<Rightarrow> 'c \<Rightarrow> (u32 \<times> 'c) option" where
  "rte_mempool_obj_iter vaddr elt_num elt_sz align paddr pg_num pg_shift obj_iter obj_iter_arg =
    obj_iter_loop elt_num elt_sz align paddr pg_num pg_shift obj_iter vaddr 0 0 obj_iter_arg"

definition mempool_lelem_iter :: "u64 obj_iter" where
  "mempool_lelem_iter arg start stop idx = stop"

text \<open>The result is signed: the size, or minus the number of objects that fit.\<close>

definition rte_mempool_xmem_usage :: "u64 \<Rightarrow> u32 \<Rightarrow> u64 \<Rightarrow> u64 list \<Rightarrow> u32 \<Rightarrow> u32 \<Rightarrow> u64 option" where
  "rte_mempool_xmem_usage vaddr elt_num elt_sz paddr pg_num pg_shift = do {
     let pg_sz = push_bit (unat pg_shift) 1;
     (n, uv) \<leftarrow> rte_mempool_obj_iter vaddr elt_num elt_sz 1 paddr pg_num pg_shift (Some mempool_lelem_iter) vaddr;
     if n \<noteq> elt_num then Some (- ucast n)
     else Some (RTE_ALIGN_CEIL uv pg_sz - vaddr) }"

section \<open>Filling the pool\<close>

text \<open>
  The object constructor may change memory; the addresses of the pool and of the
  object and the index of the object are its other arguments.
\<close>

type_synonym obj_ctor = "u64 \<Rightarrow> u64 \<Rightarrow> u32 \<Rightarrow> mem \<Rightarrow> mem"

definition sizeof_objhdr :: u64 where "sizeof_objhdr = 8"

definition mempool_add_elem :: "u64 \<Rightarrow> obj_ctor option \<Rightarrow> rte_mempool \<times> mem \<Rightarrow> u64 \<Rightarrow> u32 \<Rightarrow> rte_mempool \<times> mem" where
  "mempool_add_elem mp_addr obj_init s obj obj_idx =
    (let (mp, m) = s;
         obj = obj + ucast (mp_header_size mp);
         m = m(obj - sizeof_objhdr := mp_addr);
         m = (case obj_init of None \<Rightarrow> m | Some f \<Rightarrow> f mp_addr obj obj_idx m);
         (_, r) = rte_ring_sp_enqueue (mp_ring mp) obj
     in (mp\<lparr>mp_ring := r\<rparr>, m))"

definition mempool_obj_populate :: "u64 \<Rightarrow> obj_ctor option \<Rightarrow> (rte_mempool \<times> mem) obj_iter" where
  "mempool_obj_populate mp_addr obj_init s start stop idx =
    (let (mp, m) = mempool_add_elem mp_addr obj_init s start idx
     in (mp\<lparr>elt_va_end := stop\<rparr>, m))"

definition mempool_populate ::
  "u64 \<Rightarrow> rte_mempool \<times> mem \<Rightarrow> u32 \<Rightarrow> u64 \<Rightarrow> obj_ctor option \<Rightarrow> (rte_mempool \<times> mem) option" where
  "mempool_populate mp_addr s num align obj_init =
    (let mp = fst s; elt_sz = mp_elt_size mp + mp_header_size mp + mp_trailer_size mp
     in do {
       (i, mp, m) \<leftarrow> rte_mempool_obj_iter (elt_va_start mp) num (ucast elt_sz) align (elt_pa mp) (mp_pg_num mp) (mp_pg_shift mp)
         (Some (mempool_obj_populate mp_addr obj_init)) s;
       Some (mp\<lparr>mp_size := i\<rparr>, m) })"

section \<open>Creation\<close>

definition RTE_MEMPOOL_NAMESIZE :: nat where "RTE_MEMPOOL_NAMESIZE = 32"
definition MEMPOOL_PG_SHIFT_MAX :: u32 where "MEMPOOL_PG_SHIFT_MAX = 63"
definition MEMPOOL_PG_NUM_DEFAULT :: u32 where "MEMPOOL_PG_NUM_DEFAULT = 1"

text \<open>
  The fields before the caches fill 80 bytes, rounded up to 128; a cache takes a
  length and 1536 pointers, rounded up to 12352; the rest fits one cache line.
\<close>

definition sizeof_rte_mempool :: u64 where "sizeof_rte_mempool = 128 + 128 * 12352 + 64"

definition MEMPOOL_HEADER_SIZE :: "u32 \<Rightarrow> u64" where
  "MEMPOOL_HEADER_SIZE pgn = sizeof_rte_mempool + RTE_ALIGN_CEIL ((ucast pgn - 1) * 8) 64"

definition RTE_LEN2MASK :: "u32 \<Rightarrow> u64" where
  "RTE_LEN2MASK ln = drop_bit (64 - unat ln) (- 1)"

text \<open>Without huge pages, the private data fill the last page of the pool structure.\<close>

definition mempool_private_size :: "eal \<Rightarrow> u32 \<Rightarrow> u32" where
  "mempool_private_size e private_size =
    (let private_size = (private_size + RTE_MEMPOOL_ALIGN_MASK) AND NOT RTE_MEMPOOL_ALIGN_MASK;
         new_size = (private_size + ucast sizeof_rte_mempool) mod page_size e
     in if \<not> hugepages e \<and> new_size \<noteq> 0 then private_size + (page_size e - new_size) else private_size)"

definition mempool_zone_size :: "eal \<Rightarrow> u32 \<Rightarrow> u32 \<Rightarrow> u32 \<Rightarrow> u32 \<Rightarrow> bool \<Rightarrow> u64" where
  "mempool_zone_size e pgn private_size tot n external =
    (let size = MEMPOOL_HEADER_SIZE pgn + ucast private_size;
         size = RTE_ALIGN_CEIL size (ucast RTE_MEMPOOL_ALIGN);
         size = (if external then size else size + ucast tot * ucast n)
     in if hugepages e then size else size + ucast (page_size e))"

definition mempool_start :: "eal \<Rightarrow> u64 \<Rightarrow> u64" where
  "mempool_start e addr =
    (if hugepages e then addr
     else if addr AND ucast (page_size e - 1) \<noteq> 0
     then (addr + ucast (page_size e)) AND NOT (ucast (page_size e - 1))
     else addr)"

text \<open>The structure after \<open>memset\<close> and the assignments.  \<open>vaddr\<close> is \<open>None\<close> for NULL;
  then only the first page address is set, whatever their number.\<close>

definition mempool_init_struct ::
  "u64 \<Rightarrow> u64 \<Rightarrow> string \<Rightarrow> u64 rte_ring \<Rightarrow> u32 \<Rightarrow> u32 \<Rightarrow> rte_mempool_objsz \<Rightarrow> u32 \<Rightarrow> u32 \<Rightarrow>
   u64 option \<Rightarrow> u64 list \<Rightarrow> u32 \<Rightarrow> u32 \<Rightarrow> rte_mempool option" where
  "mempool_init_struct mp_addr phys name r n flags sz csize private_size vaddr paddr pgn pgs = do {
     let obj = mp_addr + MEMPOOL_HEADER_SIZE pgn + ucast private_size;
     let obj = RTE_ALIGN_CEIL obj (ucast RTE_MEMPOOL_ALIGN);
     let va = (case vaddr of None \<Rightarrow> obj | Some v \<Rightarrow> v);
     pa \<leftarrow> (case vaddr of None \<Rightarrow> Some [phys + (obj - mp_addr)]
                        | Some _ \<Rightarrow> read_range paddr 0 (unat pgn));
     Some \<lparr>mp_ring = r, mp_flags = flags, mp_size = n, cache_size = csize,
       cache_flushthresh = CALC_CACHE_FLUSHTHRESH csize,
       mp_elt_size = elt_size sz, mp_header_size = header_size sz, mp_trailer_size = trailer_size sz,
       local_cache = replicate RTE_MAX_LCORE \<lparr>cache_len = 0, cache_objs = replicate 1536 0\<rparr>,
       mp_name = take (RTE_MEMPOOL_NAMESIZE - 1) name, mp_phys_addr = phys, private_data_size = private_size,
       mp_pg_num = pgn, mp_pg_shift = pgs, mp_pg_mask = RTE_LEN2MASK pgs,
       elt_va_start = va, elt_va_end = va, elt_pa = pa\<rparr> }"

text \<open>
  The state is the list of rings, the list of pools (each with its address) and the
  memory; the result is the errno that was set (\<open>None\<close> where it is left to a called
  function, or not set) or the pool with its address.
\<close>

type_synonym create_state = "u64 rte_ring list \<times> (u64 \<times> rte_mempool) list \<times> mem"

definition rte_mempool_xmem_create ::
  "eal \<Rightarrow> nat \<Rightarrow> string \<Rightarrow> u32 \<Rightarrow> u32 \<Rightarrow> u32 \<Rightarrow> u32 \<Rightarrow> (u64 \<Rightarrow> mem \<Rightarrow> mem) option \<Rightarrow> obj_ctor option \<Rightarrow> u32 \<Rightarrow>
   u64 option \<Rightarrow> u64 list option \<Rightarrow> u32 \<Rightarrow> u32 \<Rightarrow> create_state \<Rightarrow> ((int option + u64 \<times> rte_mempool) \<times> create_state) option" where
  "rte_mempool_xmem_create e sizeof_ring name n elt_sz csize private_size mp_init obj_init flags vaddr paddr pgn pgs s =
    (if csize > RTE_MEMPOOL_CACHE_MAX_SIZE \<or> CALC_CACHE_FLUSHTHRESH csize > n then Some (Inl (Some EINVAL), s)
     else if vaddr \<noteq> None \<and> paddr = None then Some (Inl (Some EINVAL), s)
     else if pgn < 1 \<or> pgs > MEMPOOL_PG_SHIFT_MAX then Some (Inl (Some EINVAL), s)
     else do {
       let flags = (if flags AND MEMPOOL_F_NO_CACHE_ALIGN \<noteq> 0 then flags OR MEMPOOL_F_NO_SPREAD else flags);
       let rg_flags = (if flags AND MEMPOOL_F_SP_PUT \<noteq> 0 then RING_F_SP_ENQ else 0);
       let rg_flags = (if flags AND MEMPOOL_F_SC_GET \<noteq> 0 then rg_flags OR RING_F_SC_DEQ else rg_flags);
       (tot, sz) \<leftarrow> rte_mempool_calc_obj_size e elt_sz flags \<lparr>elt_size = 0, header_size = 0, trailer_size = 0, total_size = 0\<rparr>;
       let (rings, pools, m) = s;
       if tot = 0 then Some (Inl (Some EINVAL), s)
       else case rte_ring_create sizeof_ring (take (RTE_RING_NAMESIZE - 1) (''MP_'' @ name)) (rte_align32pow2 (n + 1)) rg_flags
                   (ring_te_ok e) (ring_mz e) rings of
         (Inl err, rings) \<Rightarrow> Some (Inl err, rings, pools, m)
       | (Inr r, rings) \<Rightarrow>
         (let private_size = mempool_private_size e private_size in
          if \<not> pool_te_ok e then Some (Inl None, rings, pools, m)
          else case pool_mz e (mempool_zone_size e pgn private_size (total_size sz) n (vaddr \<noteq> None)) of
            None \<Rightarrow> Some (Inl None, rings, pools, m)
          | Some (addr, phys) \<Rightarrow> do {
              let mp_addr = mempool_start e addr;
              mp \<leftarrow> mempool_init_struct mp_addr phys name r n flags sz csize private_size vaddr (case paddr of None \<Rightarrow> [] | Some p \<Rightarrow> p) pgn pgs;
              let m = (case mp_init of None \<Rightarrow> m | Some f \<Rightarrow> f mp_addr m);
              (mp, m) \<leftarrow> mempool_populate mp_addr (mp, m) n 1 obj_init;
              Some (Inr (mp_addr, mp), rings, pools @ [(mp_addr, mp)], m) }) })"

definition rte_mempool_create ::
  "eal \<Rightarrow> nat \<Rightarrow> string \<Rightarrow> u32 \<Rightarrow> u32 \<Rightarrow> u32 \<Rightarrow> u32 \<Rightarrow> (u64 \<Rightarrow> mem \<Rightarrow> mem) option \<Rightarrow> obj_ctor option \<Rightarrow> u32 \<Rightarrow>
   create_state \<Rightarrow> ((int option + u64 \<times> rte_mempool) \<times> create_state) option" where
  "rte_mempool_create e sizeof_ring name n elt_sz csize private_size mp_init obj_init flags s =
    rte_mempool_xmem_create e sizeof_ring name n elt_sz csize private_size mp_init obj_init flags
      None None MEMPOOL_PG_NUM_DEFAULT MEMPOOL_PG_SHIFT_MAX s"

section \<open>Finding pools, objects and physical addresses\<close>

definition rte_mempool_lookup :: "string \<Rightarrow> (u64 \<times> rte_mempool) list \<Rightarrow> int + (u64 \<times> rte_mempool)" where
  "rte_mempool_lookup name pools =
    (case List.find (\<lambda>(_, mp). take RTE_MEMPOOL_NAMESIZE name = take RTE_MEMPOOL_NAMESIZE (mp_name mp)) pools of
       None \<Rightarrow> Inl ENOENT
     | Some p \<Rightarrow> Inr p)"

definition rte_mempool_from_obj :: "mem \<Rightarrow> u64 \<Rightarrow> u64" where
  "rte_mempool_from_obj m obj = m (obj - sizeof_objhdr)"

text \<open>\<open>mem_virt2phy\<close> is the translation of the environment, asked without huge pages.\<close>

definition rte_mempool_virt2phy :: "bool \<Rightarrow> (u64 \<Rightarrow> u64) \<Rightarrow> rte_mempool \<Rightarrow> u64 \<Rightarrow> u64 option" where
  "rte_mempool_virt2phy huge mem_virt2phy mp elt =
    (if huge
     then do {
       let off = elt - elt_va_start mp;
       p \<leftarrow> read_at (elt_pa mp) (unat (drop_bit (unat (mp_pg_shift mp)) off));
       Some (p + (off AND mp_pg_mask mp)) }
     else Some (mem_virt2phy elt))"

definition MEMPOOL_IS_CONTIG :: "rte_mempool \<Rightarrow> bool" where
  "MEMPOOL_IS_CONTIG mp \<longleftrightarrow> mp_pg_num mp = MEMPOOL_PG_NUM_DEFAULT \<and> elt_pa mp \<noteq> [] \<and> mp_phys_addr mp = elt_pa mp ! 0"

text \<open>\<open>rte_mempool_audit\<close> without debugging: it panics when a cache is too full.\<close>

definition mempool_audit_cache :: "rte_mempool \<Rightarrow> bool" where
  "mempool_audit_cache mp \<longleftrightarrow> (\<forall>lcore_id < RTE_MAX_LCORE. cache_len (local_cache mp ! lcore_id) \<le> cache_flushthresh mp)"

end
