(* ===== verification/Mempool_Layout.thy ===== *)
theory Mempool_Layout
  imports Rte_Mempool_Create
begin

text \<open>
  The sizes of the objects and their layout over pages: the padding that spreads
  them over the memory channels, and for a buffer of pages which objects are
  made: one after the other where the pages are physically adjacent, none across
  a gap.
\<close>

unbundle bit_operations_syntax

section \<open>Spreading objects over the memory channels\<close>

lemma unat_gcd_loop: "unat (gcd_loop a b) = gcd (unat a) (unat b)"
proof (induction a b rule: gcd_loop.induct)
  case (1 a b)
  show ?case
  proof (cases "b = 0")
    case True
    then show ?thesis by (subst gcd_loop.simps) simp
  next
    case False
    then show ?thesis using 1
      by (subst gcd_loop.simps) (simp add: unat_mod gcd_red_nat [symmetric] gcd.commute)
  qed
qed

lemma unat_get_gcd: "unat (get_gcd a b) = gcd (unat a) (unat b)"
  by (auto simp: get_gcd_def unat_gcd_loop gcd.commute)

lemma get_gcd_1: "get_gcd a b = 1 \<longleftrightarrow> coprime (unat a) (unat b)"
proof -
  have "get_gcd a b = 1 \<longleftrightarrow> unat (get_gcd a b) = 1" using unat_inj [of "get_gcd a b" 1] by auto
  then show ?thesis by (simp add: unat_get_gcd coprime_iff_gcd_eq_1)
qed

lemma coprime_ahead:
  fixes n b :: nat
  assumes "0 < b"
  shows "\<exists>m. n \<le> m \<and> m \<le> n + b + 1 \<and> coprime m b"
proof -
  let ?m = "n div b * b + b + 1"
  have "n div b * b \<le> n" by simp
  moreover have "n < n div b * b + b" using assms dividend_less_div_times [of b n] by simp
  moreover have "coprime ?m b"
  proof -
    have "?m = (n div b + 1) * b + 1" by simp
    then show ?thesis by (metis coprime_iff_gcd_eq_1 gcd.commute gcd_1_nat gcd_add_mult mult.commute add.commute gcd_1_nat One_nat_def)
  qed
  ultimately show ?thesis by (intro exI [of _ ?m]) auto
qed

lemma spread_loop_least:
  assumes "coprime (unat n + d) (unat banks)" "\<forall>k < d. \<not> coprime (unat n + k) (unat banks)" "unat n + d < 2 ^ 32"
  shows "\<exists>m. spread_loop banks n = Some m \<and> unat m = unat n + d"
  using assms
proof (induction d arbitrary: n)
  case 0
  then show ?case by (subst spread_loop.simps) (simp add: get_gcd_1)
next
  case (Suc d)
  have s: "unat (n + 1) = unat n + 1" using Suc.prems(3) by (subst unat_add_exact) simp_all
  have "\<not> coprime (unat n) (unat banks)" using Suc.prems(2) by (metis add.right_neutral zero_less_Suc)
  moreover have "\<exists>m. spread_loop banks (n + 1) = Some m \<and> unat m = unat (n + 1) + d"
    using Suc.prems by (intro Suc.IH) (auto simp: s)
  ultimately show ?case
    by (subst spread_loop.simps) (simp add: get_gcd_1 s)
qed

lemma spread_loop_returns:
  assumes "0 < unat banks" "unat n + unat banks + 1 < 2 ^ 32"
  shows "\<exists>m. spread_loop banks n = Some m \<and> unat n \<le> unat m \<and> unat m \<le> unat n + unat banks + 1 \<and>
    coprime (unat m) (unat banks) \<and> (\<forall>k. unat n \<le> k \<and> k < unat m \<longrightarrow> \<not> coprime k (unat banks))"
proof -
  define P where "P d = coprime (unat n + d) (unat banks)" for d
  define d where "d = (LEAST d. P d)"
  obtain m where m: "unat n \<le> m" "m \<le> unat n + unat banks + 1" "coprime m (unat banks)"
    using coprime_ahead [OF assms(1)] by blast
  have w: "P (m - unat n)" using m by (simp add: P_def)
  have P: "P d" "d \<le> m - unat n" "\<forall>k < d. \<not> P k"
    unfolding d_def using LeastI [of P, OF w] Least_le [of P, OF w] not_less_Least [of _ P] by blast+
  have "unat n + d < 2 ^ 32" using P(2) m assms(2) by linarith
  then obtain z where z: "spread_loop banks n = Some z" "unat z = unat n + d"
    using spread_loop_least [of n d banks] P by (auto simp: P_def)
  moreover have "\<not> coprime k (unat banks)" if "unat n \<le> k" "k < unat z" for k
    using P(3) that z(2) unfolding P_def by (metis le_add_diff_inverse nat_add_left_cancel_less)
  ultimately show ?thesis using P m by (auto simp: P_def)
qed

section \<open>Size of an object\<close>

text \<open>The number of banks objects are spread over.\<close>

definition mem_banks :: "eal \<Rightarrow> nat" where
  "mem_banks e = (if mem_nrank e = 0 then 1 else unat (mem_nrank e)) * (if mem_nchannel e = 0 then 1 else unat (mem_nchannel e))"

lemma optimize_spreads:
  assumes "mem_banks e \<le> 2 ^ 20" "unat z \<le> 2 ^ 30 + 200"
  shows "\<exists>t. optimize_object_size e z = Some t \<and> unat z \<le> unat t \<and> unat t < 2 ^ 31 \<and> 64 dvd unat t \<and>
    coprime (unat t div 64) (mem_banks e)"
proof -
  define b where "b = (if mem_nrank e = 0 then 1 else mem_nrank e) * (if mem_nchannel e = 0 then 1 else mem_nchannel e)"
  have pos: "0 < mem_banks e" by (simp add: mem_banks_def unat_gt_0)
  have b: "unat b = mem_banks e"
    using assms(1) unfolding b_def mem_banks_def by (subst unat_mult_lem [THEN iffD1]) (auto split: if_splits)
  define n where "n = (z + 63) div 64"
  have "unat (z + 63) = unat z + 63" using assms(2) by (subst unat_add_exact) simp_all
  then have n: "unat n = (unat z + 63) div 64" by (simp add: n_def unat_div)
  have "unat n + unat b + 1 < 2 ^ 32" using n b assms by simp
  then obtain m where m: "spread_loop b n = Some m" "unat n \<le> unat m" "unat m \<le> unat n + unat b + 1" "coprime (unat m) (unat b)"
    using spread_loop_returns [of b n] b pos by auto
  have le: "unat m * 64 < 2 ^ 31" using m(3) b assms n by simp
  then have t: "unat (m * 64) = unat m * 64" by (subst unat_mult_lem [THEN iffD1]) simp_all
  have "optimize_object_size e z = Some (m * 64)"
    using m(1) by (simp add: optimize_object_size_def RTE_MEMPOOL_ALIGN_MASK_def RTE_MEMPOOL_ALIGN_def n_def b_def)
  moreover have "unat z \<le> unat m * 64" using m(2) n by simp
  ultimately show ?thesis using t le m(4) b by simp
qed

lemma unat_and_63: "unat (x AND 63 :: u32) = unat x mod 64"
proof -
  have "x AND 63 = take_bit 6 x" by (simp add: take_bit_eq_mask mask_eq_exp_minus_1)
  then have "x AND 63 = x mod 64" by (simp add: take_bit_eq_mod)
  then show ?thesis by (simp add: unat_mod)
qed

lemma unat_pad_64: "unat ((64 - (x AND 63)) AND 63 :: u32) = (64 - unat x mod 64) mod 64"
proof -
  have "unat (64 - (x AND 63)) = 64 - unat x mod 64"
    using unat_and_63 [of x] by (subst unat_sub_exact) (simp_all add: less_imp_le)
  then show ?thesis by (simp add: unat_and_63)
qed

lemma pad_rounds_up: "64 dvd (t + (64 - t mod 64) mod 64 :: nat)"
proof (cases "t mod 64 = 0")
  case False
  have "t mod 64 < 64" by simp
  then have "t + (64 - t mod 64) = t div 64 * 64 + 64" "(64 - t mod 64) mod 64 = 64 - t mod 64" using False div_mult_mod_eq [of t 64] by (linarith, simp)
  then show ?thesis by (metis dvd_add dvd_refl dvd_triv_right)
qed auto

text \<open>The sizes are exact sums: what an object gets before, for and after its data.\<close>

lemma calc_obj_size_exact:
  assumes "hugepages e" "mem_banks e \<le> 2 ^ 20" "unat elt_sz \<le> 2 ^ 30"
  shows "\<exists>sz. rte_mempool_calc_obj_size e elt_sz flags s0 = Some (total_size sz, sz) \<and>
    unat (total_size sz) = unat (header_size sz) + unat (elt_size sz) + unat (trailer_size sz) \<and>
    unat (total_size sz) < 2 ^ 31 \<and>
    unat (header_size sz) = (if flags AND MEMPOOL_F_NO_CACHE_ALIGN = 0 then 64 else 8) \<and>
    unat (elt_size sz) = (unat elt_sz + 7) div 8 * 8 \<and>
    (flags AND MEMPOOL_F_NO_CACHE_ALIGN = 0 \<or> flags AND MEMPOOL_F_NO_SPREAD = 0 \<longrightarrow> 64 dvd unat (total_size sz)) \<and>
    (flags AND MEMPOOL_F_NO_SPREAD = 0 \<longrightarrow> coprime (unat (total_size sz) div 64) (mem_banks e))"
proof -
  define nca where "nca \<longleftrightarrow> flags AND MEMPOOL_F_NO_CACHE_ALIGN = 0"
  define nsp where "nsp \<longleftrightarrow> flags AND MEMPOOL_F_NO_SPREAD = 0"
  define h :: u32 where "h = (if nca then 64 else 8)"
  define E where "E = RTE_ALIGN_CEIL elt_sz 8"
  define t1 where "t1 = (if nca then (64 - ((h + E) AND 63)) AND 63 else 0)"
  have h: "RTE_ALIGN_CEIL 8 (64 :: u32) = 64" by (simp add: RTE_ALIGN_CEIL_def RTE_ALIGN_FLOOR_def)
  have E: "unat E = (unat elt_sz + 7) div 8 * 8"
    using RTE_ALIGN_unat [of 3 elt_sz] assms(3) by (simp add: E_def RTE_ALIGN_def)
  have E_le: "unat E \<le> 2 ^ 30 + 7" using E assms(3) by simp
  have uh: "unat h = (if nca then 64 else 8)" by (simp add: h_def)
  have hE: "unat (h + E) = unat h + unat E" using E_le uh by (subst unat_add_exact) simp_all
  have t1: "unat t1 = (if nca then (64 - (unat h + unat E) mod 64) mod 64 else 0)"
    unfolding t1_def using unat_pad_64 [of "h + E"] hE by simp
  have t1_less: "unat t1 < 64" by (simp add: t1)
  have s1: "unat (h + E + t1) = unat h + unat E + unat t1"
    using E_le uh t1_less hE by (subst unat_add_exact) (simp_all split: if_splits)
  have d1: "64 dvd unat (h + E + t1)" if nca
    unfolding s1 using that t1 pad_rounds_up [of "unat h + unat E"] by simp
  obtain t2 where t2: "(if nsp then do { new_size \<leftarrow> optimize_object_size e (h + E + t1); Some (new_size - h - E) } else Some t1) = Some t2"
    "unat (h + E + t2) = unat h + unat E + unat t2" "unat (h + E + t2) < 2 ^ 31"
    "nca \<or> nsp \<longrightarrow> 64 dvd unat (h + E + t2)" "nsp \<longrightarrow> coprime (unat (h + E + t2) div 64) (mem_banks e)"
  proof (cases nsp)
    case True
    have "unat (h + E + t1) \<le> 2 ^ 30 + 200" using s1 E_le uh t1_less by (simp split: if_splits)
    then obtain t where t: "optimize_object_size e (h + E + t1) = Some t" "unat (h + E + t1) \<le> unat t" "unat t < 2 ^ 31"
      "64 dvd unat t" "coprime (unat t div 64) (mem_banks e)"
      using optimize_spreads [OF assms(2)] by blast
    have a: "h + E + (t - h - E) = t" by simp
    have "unat (t - h) = unat t - unat h" using t(2) s1 by (intro unat_sub_exact) (simp add: word_le_nat_alt)
    then have "unat (t - h - E) = unat t - unat h - unat E" using t(2) s1 by (subst unat_sub_exact) (simp_all add: word_le_nat_alt)
    then have "unat t = unat h + unat E + unat (t - h - E)" using t(2) s1 by simp
    then show ?thesis using that [of "t - h - E"] True t by (simp add: a)
  next
    case False
    then show ?thesis using that [of t1] s1 d1 E_le uh t1_less by (simp split: if_splits)
  qed
  have "rte_mempool_calc_obj_size e elt_sz flags s0 =
    Some (h + E + t2, \<lparr>elt_size = E, header_size = h, trailer_size = t2, total_size = h + E + t2\<rparr>)"
    using t2(1) assms(1) h
    by (cases nca; cases nsp; cases "optimize_object_size e (h + E + t1)")
      (simp_all add: rte_mempool_calc_obj_size_def Let_def E_def [symmetric] nca_def [symmetric] nsp_def [symmetric]
        RTE_MEMPOOL_ALIGN_def RTE_MEMPOOL_ALIGN_MASK_def h_def t1_def add.assoc, auto simp: algebra_simps)
  then show ?thesis using t2(2-5) uh E by (intro exI) (auto simp: nca_def nsp_def)
qed

section \<open>Objects over pages\<close>

definition pages_join :: "u64 list \<Rightarrow> nat \<Rightarrow> nat \<Rightarrow> bool" where
  "pages_join pa s q \<longleftrightarrow> pa ! q + 2 ^ s = pa ! (q + 1)"

lemma phys_run_exact:
  assumes "unat k \<le> unat pgn" "unat pgn < length pa" "unat pgn < 2 ^ 32"
  shows "\<exists>r. phys_run pa (2 ^ s) pgn k = Some r \<and> (r = pgn \<longleftrightarrow> (\<forall>q. unat k \<le> q \<and> q < unat pgn \<longrightarrow> pages_join pa s q))"
  using assms
proof (induction "unat pgn - unat k" arbitrary: k)
  case 0
  then have "k = pgn" using unat_inj [of k pgn] by simp
  then show ?case by (subst phys_run.simps) auto
next
  case (Suc d)
  then have ne: "k \<noteq> pgn" and lt: "unat k < unat pgn" by auto
  have k1: "unat (k + 1) = unat k + 1" using lt assms(3) by (subst unat_add_exact) simp_all
  have run: "phys_run pa (2 ^ s) pgn k =
      (if pages_join pa s (unat k) then phys_run pa (2 ^ s) pgn (k + 1) else Some k)"
    using ne lt Suc.prems by (subst phys_run.simps) (simp add: read_at_def k1 pages_join_def)
  show ?case
  proof (cases "pages_join pa s (unat k)")
    case True
    have "d = unat pgn - unat (k + 1)" "unat (k + 1) \<le> unat pgn" using Suc.hyps(2) lt k1 by linarith+
    from Suc.hyps(1) [OF this Suc.prems(2,3)]
    obtain r where "phys_run pa (2 ^ s) pgn (k + 1) = Some r"
      "r = pgn \<longleftrightarrow> (\<forall>q. unat (k + 1) \<le> q \<and> q < unat pgn \<longrightarrow> pages_join pa s q)"
      by blast
    moreover have "unat k \<le> q \<longleftrightarrow> q = unat k \<or> unat (k + 1) \<le> q" for q using k1 by auto
    ultimately show ?thesis using True run by auto
  next
    case False
    then show ?thesis using run lt ne by auto
  qed
qed

text \<open>
  A buffer of \<open>N\<close> pages of \<open>2 ^ s\<close> bytes, objects of \<open>E\<close> bytes.  \<open>fits\<close> says that all
  addresses and page numbers stay in their words.
\<close>

definition page_of :: "nat \<Rightarrow> nat \<Rightarrow> nat \<Rightarrow> nat" where
  "page_of s B a = a div 2 ^ s - B div 2 ^ s"

definition buf_end :: "nat \<Rightarrow> nat \<Rightarrow> nat \<Rightarrow> nat" where
  "buf_end s B N = (B div 2 ^ s + N) * 2 ^ s"

definition fits :: "nat \<Rightarrow> nat \<Rightarrow> nat \<Rightarrow> nat \<Rightarrow> bool" where
  "fits s B N E \<longleftrightarrow> s < 64 \<and> 0 < E \<and> buf_end s B N + E < 2 ^ 64 \<and> N + E div 2 ^ s + 1 < 2 ^ 32"

definition contig :: "u64 list \<Rightarrow> nat \<Rightarrow> nat \<Rightarrow> nat \<Rightarrow> nat \<Rightarrow> bool" where
  "contig pa s B a z \<longleftrightarrow> (\<forall>q. page_of s B a \<le> q \<and> q < page_of s B (z - 1) \<longrightarrow> pages_join pa s q)"

lemma page_of_bounds:
  assumes "B \<le> a"
  shows "a < (B div 2 ^ s + page_of s B a + 1) * 2 ^ s" "(B div 2 ^ s + page_of s B a) * 2 ^ s \<le> a"
proof -
  have "B div 2 ^ s \<le> a div 2 ^ s" using assms by (rule div_le_mono)
  then have "B div 2 ^ s + page_of s B a = a div 2 ^ s" by (simp add: page_of_def)
  then show "a < (B div 2 ^ s + page_of s B a + 1) * 2 ^ s" "(B div 2 ^ s + page_of s B a) * 2 ^ s \<le> a"
    using dividend_less_div_times [of "2 ^ s" a] by (simp_all add: algebra_simps)
qed

lemma page_of_less: "B \<le> a \<Longrightarrow> page_of s B a < N \<longleftrightarrow> a < buf_end s B N"
proof -
  assume "B \<le> a"
  then have "B div 2 ^ s \<le> a div 2 ^ s" by (rule div_le_mono)
  then have "page_of s B a < N \<longleftrightarrow> a div 2 ^ s < B div 2 ^ s + N" by (auto simp: page_of_def)
  then show ?thesis by (simp add: buf_end_def div_less_iff_less_mult)
qed

lemma page_of_le: "B \<le> a \<Longrightarrow> a \<le> buf_end s B N \<Longrightarrow> page_of s B a \<le> N"
  using div_le_mono [of a "buf_end s B N" "2 ^ s"] by (simp add: page_of_def buf_end_def)

lemma page_of_end: "page_of s B (buf_end s B N) = N"
  by (simp add: page_of_def buf_end_def)

lemma RTE_ALIGN_CEIL_1: "RTE_ALIGN_CEIL va 1 = va"
  by (simp add: RTE_ALIGN_CEIL_def RTE_ALIGN_FLOOR_def)

lemma unat_add_64: "unat a + unat b < 2 ^ 64 \<Longrightarrow> unat (a + b :: u64) = unat a + unat b"
  by (simp add: unat_word_ariths)

lemma unat_sub_64: "unat b \<le> unat a \<Longrightarrow> unat (a - b :: u64) = unat a - unat b"
  by (simp add: unat_sub word_le_nat_alt)

lemma unat_shift_diff:
  fixes x y :: u64
  assumes "x \<le> y" "unat y div 2 ^ s - unat x div 2 ^ s < 2 ^ 32"
  shows "unat (ucast (drop_bit s y - drop_bit s x) :: u32) = unat y div 2 ^ s - unat x div 2 ^ s"
proof -
  have d: "unat (drop_bit s z) = unat z div 2 ^ s" for z :: u64
    using unat_drop_bit_eq [of s z] by (simp only: drop_bit_eq_div [of s "unat z"])
  have "unat x div 2 ^ s \<le> unat y div 2 ^ s" using assms(1) by (intro div_le_mono) (simp add: word_le_nat_alt)
  then have "unat (drop_bit s y - drop_bit s x) = unat y div 2 ^ s - unat x div 2 ^ s"
    by (subst unat_sub_64) (simp_all only: d word_le_nat_alt)
  then show ?thesis using assms(2) by (simp add: unsigned_ucast_eq take_bit_eq_mod)
qed

lemma next_page_unat:
  fixes va :: u64
  assumes "s < 64" "(unat va div 2 ^ s + 2) * 2 ^ s < 2 ^ 64"
  shows "unat (RTE_ALIGN_CEIL (va + 1) (2 ^ s)) = (unat va div 2 ^ s + 1) * 2 ^ s"
proof -
  have lt: "unat va < (unat va div 2 ^ s + 1) * 2 ^ s" using dividend_less_div_times [of "2 ^ s" "unat va"] by simp
  then have lt2: "unat va + 2 ^ s < 2 ^ 64" using assms(2) by simp
  moreover have "(1 :: nat) \<le> 2 ^ s" by simp
  ultimately have "unat va + 1 < 2 ^ 64" by linarith
  then have v1: "unat (va + 1) = unat va + 1" by (subst unat_add_64) simp_all
  have "unat (va + 1) + (2 ^ s - 1) = unat va + 2 ^ s" using v1 by simp
  then have "unat (RTE_ALIGN (va + 1) (2 ^ s)) = (unat va + 2 ^ s) div 2 ^ s * 2 ^ s"
    using RTE_ALIGN_unat [where k = s and v = "va + 1"] assms(1) lt2 by simp
  moreover have "(unat va + 2 ^ s) div 2 ^ s = unat va div 2 ^ s + 1" using div_add_self2 [of "2 ^ s" "unat va"] by simp
  ultimately show ?thesis by (simp only: RTE_ALIGN_def)
qed

definition call_iter :: "'c obj_iter option \<Rightarrow> 'c \<Rightarrow> u64 \<Rightarrow> u64 \<Rightarrow> u32 \<Rightarrow> 'c" where
  "call_iter f arg start stop i = (case f of None \<Rightarrow> arg | Some g \<Rightarrow> g arg start stop i)"

text \<open>The page numbers of one round, as the code computes them.\<close>

lemma obj_iter_words:
  fixes j :: u32 and va elt_sz :: u64
  assumes F: "s < 64" "0 < E" "buf_end s B N + E < 2 ^ 64" "N + E div 2 ^ s + 1 < 2 ^ 32"
    and va: "B \<le> unat va" "unat va \<le> buf_end s B N" and j: "unat j = page_of s B (unat va)"
    and E: "E = unat elt_sz" and N: "N = unat pgn"
  defines "pgf \<equiv> (ucast (drop_bit s (va + elt_sz) - drop_bit s va) :: u32)"
  defines "pgl \<equiv> (ucast (drop_bit s (va + elt_sz - 1) - drop_bit s va) :: u32) + j"
  shows "unat pgl = page_of s B (unat va + E - 1)" "unat (j + pgf) = page_of s B (unat va + E)"
    "pgl \<ge> pgn \<longleftrightarrow> buf_end s B N < unat va + E" "unat j \<le> unat pgl"
proof -
  have stop: "unat (va + elt_sz) = unat va + E"
    using va(2) F(3) by (subst unat_add_64) (simp_all add: E)
  have stop1: "unat (va + elt_sz - 1) = unat va + E - 1"
    using stop F(2) by (subst unat_sub_64) simp_all
  have dB: "B div 2 ^ s \<le> unat va div 2 ^ s" using va(1) by (rule div_le_mono)
  have top: "(unat va + E) div 2 ^ s \<le> B div 2 ^ s + N + E div 2 ^ s"
  proof -
    have "(unat va + E) div 2 ^ s \<le> ((B div 2 ^ s + N) * 2 ^ s + E) div 2 ^ s"
      using va(2) by (intro div_le_mono) (simp add: buf_end_def)
    then show ?thesis by simp
  qed
  have d1: "(unat va + E - 1) div 2 ^ s \<le> (unat va + E) div 2 ^ s" by (intro div_le_mono) simp
  have d0: "unat va div 2 ^ s \<le> (unat va + E - 1) div 2 ^ s" using F(2) by (intro div_le_mono) simp
  have pgf: "unat pgf = (unat va + E) div 2 ^ s - unat va div 2 ^ s"
    unfolding pgf_def using stop top dB F(4) by (subst unat_shift_diff) (simp_all add: word_le_nat_alt)
  show pgl: "unat pgl = page_of s B (unat va + E - 1)"
  proof -
    have "unat (ucast (drop_bit s (va + elt_sz - 1) - drop_bit s va) :: u32) = (unat va + E - 1) div 2 ^ s - unat va div 2 ^ s"
      using stop1 top dB d1 F by (subst unat_shift_diff) (simp_all add: word_le_nat_alt)
    then show ?thesis
      unfolding pgl_def using j top dB d0 d1 F(4) by (subst unat_add_exact) (simp_all add: page_of_def)
  qed
  show "unat (j + pgf) = page_of s B (unat va + E)"
    using j pgf top dB d0 d1 F(4) by (subst unat_add_exact) (simp_all add: page_of_def)
  show "pgl \<ge> pgn \<longleftrightarrow> buf_end s B N < unat va + E"
  proof -
    have "B \<le> unat va + E - 1" using va(1) F(2) by linarith
    then have "page_of s B (unat va + E - 1) < N \<longleftrightarrow> unat va + E - 1 < buf_end s B N" by (rule page_of_less)
    then show ?thesis using pgl F(2) by (simp add: word_le_nat_alt N) linarith
  qed
  show "unat j \<le> unat pgl" using j pgl d0 by (simp add: page_of_def diff_le_mono)
qed

text \<open>One round of the loop, with the alignment 1 of all callers.\<close>

lemma obj_iter_step:
  assumes fit: "fits (unat pgs) B (unat pgn) (unat elt_sz)" and pa: "unat pgn \<le> length pa"
    and va: "B \<le> unat va" "unat va \<le> buf_end (unat pgs) B (unat pgn)" and j: "unat j = page_of (unat pgs) B (unat va)"
    and i: "i \<noteq> elt_num"
  shows "buf_end (unat pgs) B (unat pgn) < unat va + unat elt_sz \<Longrightarrow>
      obj_iter_loop elt_num elt_sz 1 pa pgn pgs f va i j arg = Some (i, arg)"
    and "unat va + unat elt_sz \<le> buf_end (unat pgs) B (unat pgn) \<Longrightarrow>
      contig pa (unat pgs) B (unat va) (unat va + unat elt_sz) \<Longrightarrow>
      \<exists>j'. unat j' = page_of (unat pgs) B (unat va + unat elt_sz) \<and>
        (\<forall>f arg. obj_iter_loop elt_num elt_sz 1 pa pgn pgs f va i j arg =
          obj_iter_loop elt_num elt_sz 1 pa pgn pgs f (va + elt_sz) (i + 1) j' (call_iter f arg va (va + elt_sz) i))"
    and "unat va + unat elt_sz \<le> buf_end (unat pgs) B (unat pgn) \<Longrightarrow>
      \<not> contig pa (unat pgs) B (unat va) (unat va + unat elt_sz) \<Longrightarrow>
      \<exists>va'. unat va' = (B div 2 ^ unat pgs + unat j + 1) * 2 ^ unat pgs \<and> unat j + 1 < unat pgn \<and>
        (\<forall>f arg. obj_iter_loop elt_num elt_sz 1 pa pgn pgs f va i j arg =
          obj_iter_loop elt_num elt_sz 1 pa pgn pgs f va' i (j + 1) arg)"
proof -
  define s N E where sNE: "s = unat pgs" "N = unat pgn" "E = unat elt_sz"
  have F: "s < 64" "0 < E" "buf_end s B N + E < 2 ^ 64" "N + E div 2 ^ s + 1 < 2 ^ 32"
    using fit by (simp_all add: fits_def sNE)
  have va: "B \<le> unat va" "unat va \<le> buf_end s B N" using va by (simp_all add: sNE)
  have j: "unat j = page_of s B (unat va)" using j by (simp add: sNE)
  have dB: "B div 2 ^ s \<le> unat va div 2 ^ s" using va(1) by (rule div_le_mono)
  define pgf :: u32 where "pgf = ucast (drop_bit s (va + elt_sz) - drop_bit s va)"
  define pgl :: u32 where "pgl = ucast (drop_bit s (va + elt_sz - 1) - drop_bit s va) + j"
  note W = obj_iter_words [OF F va j sNE(3,2), folded pgf_def pgl_def]
  note pgl = W(1) and jf = W(2) and out = W(3) and le = W(4)
  have jN: "j \<noteq> pgn" if "unat va + E \<le> buf_end s B N"
  proof -
    have "unat va < buf_end s B N" using that F(2) by simp
    then show ?thesis using page_of_less [OF va(1), of s N] j by (auto simp: sNE(2))
  qed
  have loop: "obj_iter_loop elt_num elt_sz 1 pa pgn pgs f va i j arg =
     (if j = pgn \<or> pgl \<ge> pgn then Some (i, arg)
      else do {
        k \<leftarrow> phys_run pa (2 ^ s) pgl j;
        if k = pgl
        then obj_iter_loop elt_num elt_sz 1 pa pgn pgs f (va + elt_sz) (i + 1) (j + pgf) (call_iter f arg va (va + elt_sz) i)
        else obj_iter_loop elt_num elt_sz 1 pa pgn pgs f (RTE_ALIGN_CEIL (va + 1) (2 ^ s)) i (j + 1) arg })" for f arg
    using i unfolding pgf_def pgl_def sNE(1) call_iter_def
    by (subst obj_iter_loop.simps) (simp add: Let_def RTE_ALIGN_CEIL_1 push_bit_of_1 cong: if_cong)
  have in_buf: "unat pgl < N" "\<exists>k. phys_run pa (2 ^ s) pgl j = Some k \<and> (k = pgl \<longleftrightarrow> contig pa s B (unat va) (unat va + E))"
    if "unat va + E \<le> buf_end s B N"
  proof -
    show "unat pgl < N" using out that by (auto simp: word_le_nat_alt sNE(2))
    then show "\<exists>k. phys_run pa (2 ^ s) pgl j = Some k \<and> (k = pgl \<longleftrightarrow> contig pa s B (unat va) (unat va + E))"
      using phys_run_exact [OF le, of pa s] pa unat_u32_less [of pgl] by (simp add: contig_def j pgl sNE(2))
  qed
  show "buf_end (unat pgs) B (unat pgn) < unat va + unat elt_sz \<Longrightarrow>
      obj_iter_loop elt_num elt_sz 1 pa pgn pgs f va i j arg = Some (i, arg)"
    using out loop by (simp add: sNE)
  show "\<exists>j'. unat j' = page_of (unat pgs) B (unat va + unat elt_sz) \<and>
        (\<forall>f arg. obj_iter_loop elt_num elt_sz 1 pa pgn pgs f va i j arg =
          obj_iter_loop elt_num elt_sz 1 pa pgn pgs f (va + elt_sz) (i + 1) j' (call_iter f arg va (va + elt_sz) i))"
    if "unat va + unat elt_sz \<le> buf_end (unat pgs) B (unat pgn)" "contig pa (unat pgs) B (unat va) (unat va + unat elt_sz)"
    using that jf loop in_buf jN out by (intro exI [of _ "j + pgf"]) (auto simp: sNE)
  show "\<exists>va'. unat va' = (B div 2 ^ unat pgs + unat j + 1) * 2 ^ unat pgs \<and> unat j + 1 < unat pgn \<and>
        (\<forall>f arg. obj_iter_loop elt_num elt_sz 1 pa pgn pgs f va i j arg =
          obj_iter_loop elt_num elt_sz 1 pa pgn pgs f va' i (j + 1) arg)"
    if "unat va + unat elt_sz \<le> buf_end (unat pgs) B (unat pgn)" "\<not> contig pa (unat pgs) B (unat va) (unat va + unat elt_sz)"
  proof -
    have b: "unat va + E \<le> buf_end s B N" "\<not> contig pa s B (unat va) (unat va + E)" using that by (simp_all add: sNE)
    have "unat j \<noteq> unat pgl" using b(2) pgl j by (auto simp: contig_def)
    then have jn: "unat j + 1 < N" using in_buf(1) [OF b(1)] le by simp
    have va_j: "unat va div 2 ^ s = B div 2 ^ s + unat j" using j dB by (simp add: page_of_def)
    have "(unat va div 2 ^ s + 2) * 2 ^ s \<le> buf_end s B N"
      unfolding buf_end_def va_j using jn by (intro mult_le_mono1) simp
    then have "unat (RTE_ALIGN_CEIL (va + 1) (2 ^ s)) = (B div 2 ^ s + unat j + 1) * 2 ^ s"
      using next_page_unat [OF F(1), of va] F(3) va_j by simp
    then show ?thesis
      using b jn loop in_buf(2) [OF b(1)] jN [OF b(1)] out
      by (intro exI [of _ "RTE_ALIGN_CEIL (va + 1) (2 ^ s)"]) (auto simp: sNE)
  qed
qed

text \<open>The calls of the callback for objects at the given addresses.\<close>

fun call_all :: "'c obj_iter option \<Rightarrow> u64 \<Rightarrow> u32 \<Rightarrow> u64 list \<Rightarrow> 'c \<Rightarrow> 'c" where
  "call_all f elt_sz i [] arg = arg"
| "call_all f elt_sz i (st # sts) arg = call_all f elt_sz (i + 1) sts (call_iter f arg st (st + elt_sz) i)"

text \<open>Objects one after the other, from \<open>lo\<close> on, inside the buffer and none across a gap between pages.\<close>

fun placed :: "u64 list \<Rightarrow> nat \<Rightarrow> nat \<Rightarrow> nat \<Rightarrow> nat \<Rightarrow> nat \<Rightarrow> u64 list \<Rightarrow> bool" where
  "placed pa s B N E lo [] = True"
| "placed pa s B N E lo (st # sts) \<longleftrightarrow> lo \<le> unat st \<and> unat st + E \<le> buf_end s B N \<and>
     contig pa s B (unat st) (unat st + E) \<and> placed pa s B N E (unat st + E) sts"

definition all_join :: "u64 list \<Rightarrow> nat \<Rightarrow> nat \<Rightarrow> bool" where
  "all_join pa s N \<longleftrightarrow> (\<forall>q. q + 1 < N \<longrightarrow> pages_join pa s q)"

definition in_a_row :: "u64 \<Rightarrow> u64 \<Rightarrow> nat \<Rightarrow> u64 list" where
  "in_a_row va elt_sz n = map (\<lambda>k. va + of_nat k * elt_sz) [0..<n]"

lemma in_a_row_Suc: "in_a_row va elt_sz (Suc n) = va # in_a_row (va + elt_sz) elt_sz n"
  unfolding in_a_row_def by (simp add: upt_conv_Cons map_Suc_upt [symmetric] algebra_simps del: upt_Suc)

lemma in_a_row_0 [simp]: "in_a_row va elt_sz 0 = []"
  by (simp add: in_a_row_def)

lemma placed_mono: "lo \<le> lo' \<Longrightarrow> placed pa s B N E lo' sts \<Longrightarrow> placed pa s B N E lo sts"
  by (cases sts) auto

lemma all_join_contig:
  assumes "all_join pa s N" "B \<le> a" "0 < E" "a + E \<le> buf_end s B N"
  shows "contig pa s B a (a + E)"
proof -
  have "B \<le> a + E - 1" "a + E - 1 < buf_end s B N" using assms by linarith+
  then have "page_of s B (a + E - 1) < N" using page_of_less [of B "a + E - 1" s N] by simp
  then show ?thesis using assms(1) by (auto simp: contig_def all_join_def)
qed

lemma obj_iter_run:
  assumes fit: "fits (unat pgs) B (unat pgn) (unat elt_sz)" and pa: "unat pgn \<le> length pa"
    and "B \<le> unat va" "unat va \<le> buf_end (unat pgs) B (unat pgn)" "unat j = page_of (unat pgs) B (unat va)"
    and "unat i \<le> unat elt_num"
  shows "\<exists>sts. (\<forall>(f :: 'c obj_iter option) arg. obj_iter_loop elt_num elt_sz 1 pa pgn pgs f va i j arg =
        Some (i + of_nat (length sts), call_all f elt_sz i sts arg)) \<and>
      length sts \<le> unat elt_num - unat i \<and> placed pa (unat pgs) B (unat pgn) (unat elt_sz) (unat va) sts \<and>
      (all_join pa (unat pgs) (unat pgn) \<longrightarrow>
        sts = in_a_row va elt_sz (min (unat elt_num - unat i) ((buf_end (unat pgs) B (unat pgn) - unat va) div unat elt_sz)))"
  using assms(3-6)
proof (induction "unat elt_num - unat i + (unat pgn - unat j)" arbitrary: va i j rule: less_induct)
  case less
  let ?s = "unat pgs" and ?N = "unat pgn" and ?E = "unat elt_sz" and ?P = "2 ^ unat pgs :: nat"
  let ?top = "buf_end ?s B ?N"
  have F: "0 < ?E" "?top + ?E < 2 ^ 64" using fit by (simp_all add: fits_def)
  show ?case
  proof (cases "i = elt_num")
    case True
    then show ?thesis by (intro exI [of _ "[]"]) (simp add: obj_iter_loop.simps)
  next
    case False
    then have i: "unat i < unat elt_num" using less.prems(4) unat_inj [of i elt_num] by linarith
    have i1: "unat (i + 1) = unat i + 1" using i unat_u32_less [of elt_num] by (subst unat_add_exact) simp_all
    note step = obj_iter_step [OF fit pa less.prems(1-3) False]
    consider (full) "?top < unat va + ?E"
      | (obj) "unat va + ?E \<le> ?top" "contig pa ?s B (unat va) (unat va + ?E)"
      | (gap) "unat va + ?E \<le> ?top" "\<not> contig pa ?s B (unat va) (unat va + ?E)" by linarith
    then show ?thesis
    proof cases
      case full
      then have "?top - unat va < ?E" using less.prems(2) by linarith
      then have "(?top - unat va) div ?E = 0" by (rule div_less)
      then show ?thesis by (intro exI [of _ "[]"]) (simp add: step(1) [OF full])
    next
      case obj
      obtain j' where j': "unat j' = page_of ?s B (unat va + ?E)"
        "\<And>(f :: 'c obj_iter option) arg. obj_iter_loop elt_num elt_sz 1 pa pgn pgs f va i j arg =
          obj_iter_loop elt_num elt_sz 1 pa pgn pgs f (va + elt_sz) (i + 1) j' (call_iter f arg va (va + elt_sz) i)"
        using step(2) [OF obj] by blast
      have u: "unat (va + elt_sz) = unat va + ?E" using obj(1) F(2) by (subst unat_add_64) simp_all
      have "unat j \<le> unat j'" unfolding j'(1) less.prems(3) page_of_def by (intro diff_le_mono div_le_mono) simp
      then have "unat elt_num - unat (i + 1) + (?N - unat j') < unat elt_num - unat i + (?N - unat j)"
        using i i1 by linarith
      moreover have "B \<le> unat (va + elt_sz)" "unat (va + elt_sz) \<le> ?top" "unat j' = page_of ?s B (unat (va + elt_sz))"
        "unat (i + 1) \<le> unat elt_num"
        using less.prems(1) obj(1) i i1 j'(1) u by simp_all
      ultimately obtain sts where sts:
        "\<And>(f :: 'c obj_iter option) arg. obj_iter_loop elt_num elt_sz 1 pa pgn pgs f (va + elt_sz) (i + 1) j' arg =
          Some (i + 1 + of_nat (length sts), call_all f elt_sz (i + 1) sts arg)"
        "length sts \<le> unat elt_num - unat (i + 1)" "placed pa ?s B ?N ?E (unat (va + elt_sz)) sts"
        "all_join pa ?s ?N \<longrightarrow> sts = in_a_row (va + elt_sz) elt_sz (min (unat elt_num - unat (i + 1)) ((?top - unat (va + elt_sz)) div ?E))"
        using less.hyps [of "i + 1" j' "va + elt_sz"] by blast
      have d: "(?top - unat va) div ?E = Suc ((?top - unat (va + elt_sz)) div ?E)"
      proof -
        have "?top - unat va = ?top - unat (va + elt_sz) + ?E" using obj(1) u by linarith
        then show ?thesis using F(1) div_add_self2 [of ?E "?top - unat (va + elt_sz)"] by simp
      qed
      have m: "min (unat elt_num - unat i) ((?top - unat va) div ?E) =
          Suc (min (unat elt_num - unat (i + 1)) ((?top - unat (va + elt_sz)) div ?E))"
        unfolding d using i i1 by simp
      show ?thesis
        using sts j'(2) obj i i1 u by (intro exI [of _ "va # sts"]) (auto simp: m in_a_row_Suc add.assoc)
    next
      case gap
      obtain va' where va': "unat va' = (B div ?P + unat j + 1) * ?P" "unat j + 1 < ?N"
        "\<And>(f :: 'c obj_iter option) arg. obj_iter_loop elt_num elt_sz 1 pa pgn pgs f va i j arg = obj_iter_loop elt_num elt_sz 1 pa pgn pgs f va' i (j + 1) arg"
        using step(3) [OF gap] by blast
      have j1: "unat (j + 1) = unat j + 1" using va'(2) unat_u32_less [of pgn] by (subst unat_add_exact) simp_all
      have lo: "unat va \<le> unat va'"
        using page_of_bounds(1) [OF less.prems(1), of ?s] va'(1) less.prems(3) by simp
      have hi: "unat va' \<le> ?top" unfolding va'(1) buf_end_def using va'(2) by (intro mult_le_mono1) simp
      have pg: "unat (j + 1) = page_of ?s B (unat va')" using j1 va'(1) by (simp add: page_of_def)
      have "unat elt_num - unat i + (?N - unat (j + 1)) < unat elt_num - unat i + (?N - unat j)"
        using va'(2) j1 by linarith
      from less.hyps [OF this _ hi pg less.prems(4)] obtain sts where sts:
        "\<And>(f :: 'c obj_iter option) arg. obj_iter_loop elt_num elt_sz 1 pa pgn pgs f va' i (j + 1) arg =
          Some (i + of_nat (length sts), call_all f elt_sz i sts arg)"
        "length sts \<le> unat elt_num - unat i" "placed pa ?s B ?N ?E (unat va') sts"
        using less.prems(1) lo by auto
      moreover have "\<not> all_join pa ?s ?N" using gap all_join_contig [OF _ less.prems(1) F(1) gap(1)] by blast
      ultimately show ?thesis
        using va'(3) placed_mono [OF lo] by (intro exI [of _ sts]) simp
    qed
  qed
qed

lemma obj_iter_all:
  assumes "fits (unat pgs) (unat vaddr) (unat pgn) (unat elt_sz)" "unat pgn \<le> length paddr" "0 < pgn"
  shows "\<exists>sts. (\<forall>(f :: 'c obj_iter option) arg.
        rte_mempool_obj_iter vaddr elt_num elt_sz 1 paddr pgn pgs f arg =
        Some (of_nat (length sts), call_all f elt_sz 0 sts arg)) \<and>
      length sts \<le> unat elt_num \<and>
      placed paddr (unat pgs) (unat vaddr) (unat pgn) (unat elt_sz) (unat vaddr) sts \<and>
      (all_join paddr (unat pgs) (unat pgn) \<longrightarrow> sts = in_a_row vaddr elt_sz
         (min (unat elt_num) ((buf_end (unat pgs) (unat vaddr) (unat pgn) - unat vaddr) div unat elt_sz)))"
proof -
  have "unat vaddr < (unat vaddr div 2 ^ unat pgs + 1) * 2 ^ unat pgs"
    using dividend_less_div_times [of "2 ^ unat pgs" "unat vaddr"] by simp
  also have "\<dots> \<le> buf_end (unat pgs) (unat vaddr) (unat pgn)"
    unfolding buf_end_def using assms(3) by (intro mult_le_mono1) (simp add: unat_gt_0 Suc_le_eq word_gt_0)
  finally have "unat vaddr \<le> buf_end (unat pgs) (unat vaddr) (unat pgn)" by simp
  from obj_iter_run [OF assms(1,2) order_refl this, of 0 0 elt_num]
  show ?thesis by (simp add: rte_mempool_obj_iter_def page_of_def)
qed

text \<open>C38: over a buffer of pages, with the alignment 1 that the pool creation asks for, objects are made one after the
  other, inside the buffer and never across two pages that are not physically adjacent; over adjacent pages they are
  made without a hole until the number asked for or the end of the buffer is reached.  With a larger alignment the
  pages skipped by it are not counted: a buffer of one page of 4096 bytes is given three objects of 4064 bytes.\<close>

theorem obj_iter_layout:
  assumes "fits (unat pgs) (unat vaddr) (unat pgn) (unat elt_sz)" "unat pgn \<le> length paddr" "0 < pgn"
  shows "(\<exists>sts. (\<forall>(f :: 'c obj_iter option) arg.
        rte_mempool_obj_iter vaddr elt_num elt_sz 1 paddr pgn pgs f arg =
        Some (of_nat (length sts), call_all f elt_sz 0 sts arg)) \<and>
      length sts \<le> unat elt_num \<and>
      placed paddr (unat pgs) (unat vaddr) (unat pgn) (unat elt_sz) (unat vaddr) sts \<and>
      (all_join paddr (unat pgs) (unat pgn) \<longrightarrow> sts = in_a_row vaddr elt_sz
         (min (unat elt_num) ((buf_end (unat pgs) (unat vaddr) (unat pgn) - unat vaddr) div unat elt_sz)))) \<and>
    rte_mempool_obj_iter 0 3 4064 64 [0] 1 12 (Some (\<lambda>l start stop i. l @ [(start, stop)])) [] =
      Some (3, [(0, 4064), (4096, 8160), (8192, 12256)])"
proof
  show "\<exists>sts. (\<forall>(f :: 'c obj_iter option) arg.
        rte_mempool_obj_iter vaddr elt_num elt_sz 1 paddr pgn pgs f arg =
        Some (of_nat (length sts), call_all f elt_sz 0 sts arg)) \<and>
      length sts \<le> unat elt_num \<and>
      placed paddr (unat pgs) (unat vaddr) (unat pgn) (unat elt_sz) (unat vaddr) sts \<and>
      (all_join paddr (unat pgs) (unat pgn) \<longrightarrow> sts = in_a_row vaddr elt_sz
         (min (unat elt_num) ((buf_end (unat pgs) (unat vaddr) (unat pgn) - unat vaddr) div unat elt_sz)))"
    using assms by (rule obj_iter_all)
next
  show "rte_mempool_obj_iter 0 3 4064 64 [0] 1 12 (Some (\<lambda>l start stop i. l @ [(start, stop)])) [] =
      Some (3, [(0, 4064), (4096, 8160), (8192, 12256)])"
    by (simp add: rte_mempool_obj_iter_def obj_iter_loop.simps phys_run.simps RTE_ALIGN_CEIL_def RTE_ALIGN_FLOOR_def)
qed

theorem obj_iter_layout_witness:
  "\<exists>sts. rte_mempool_obj_iter 4096 9 3000 1 [0, 4096, 8192] 3 12 (Some (\<lambda>l start stop i. l @ [start])) [] =
      Some (of_nat (length sts), call_all (Some (\<lambda>l start stop i. l @ [start])) 3000 0 sts []) \<and>
    sts = [4096, 7096, 10096, 13096]"
proof -
  have "fits (unat (12 :: u32)) (unat (4096 :: u64)) (unat (3 :: u32)) (unat (3000 :: u64))"
    by (simp add: fits_def buf_end_def)
  moreover have "all_join [0, 4096, 8192] (unat (12 :: u32)) (unat (3 :: u32))"
  proof -
    have "q = 0 \<or> q = 1" if "q + 1 < 3" for q :: nat using that by linarith
    then show ?thesis by (fastforce simp: all_join_def pages_join_def)
  qed
  moreover have "in_a_row 4096 3000 (min (unat (9 :: u32)) ((buf_end (unat (12 :: u32)) (unat (4096 :: u64)) (unat (3 :: u32)) -
      unat (4096 :: u64)) div unat (3000 :: u64))) = [4096, 7096, 10096, 13096]"
    by (simp add: in_a_row_def buf_end_def upt_conv_Cons)
  ultimately show ?thesis
    using obj_iter_layout [of 12 4096 3 3000 "[0, 4096, 8192]" 9] by auto
qed

end
