(* ===== verification/Mempool_Create.thy ===== *)
theory Mempool_Create
  imports Mempool_Correct Mempool_Layout
begin

text \<open>
  What \<open>rte_mempool_create\<close> gives: a pool full of objects that do not overlap, in
  the memory reserved for it, each with the pool's address in front of it.
\<close>

section \<open>Filling the ring\<close>

text \<open>A constructor writes to the data of its object only.\<close>

definition ctor_ok :: "u32 \<Rightarrow> obj_ctor option \<Rightarrow> bool" where
  "ctor_ok elt_sz obj_init \<longleftrightarrow> (\<forall>f mpa obj i m a. obj_init = Some f \<longrightarrow>
     unat a < unat obj \<or> unat obj + unat elt_sz \<le> unat a \<longrightarrow> f mpa obj i m a = m a)"

lemma add_elem_exact:
  assumes "ring_ok (mp_ring mp)" "length (ring_contents (mp_ring mp)) < ring_cap (mp_ring mp)"
    and "8 \<le> unat (mp_header_size mp)" "unat st + unat (mp_header_size mp) + unat (mp_elt_size mp) < 2 ^ 64"
    and "ctor_ok (mp_elt_size mp) obj_init"
  shows "\<exists>r m'. mempool_obj_populate mp_addr obj_init (mp, m) st stop i = (mp\<lparr>mp_ring := r, elt_va_end := stop\<rparr>, m') \<and>
    ring_ok r \<and> ring_cap r = ring_cap (mp_ring mp) \<and>
    ring_contents r = ring_contents (mp_ring mp) @ [st + ucast (mp_header_size mp)] \<and>
    rte_mempool_from_obj m' (st + ucast (mp_header_size mp)) = mp_addr \<and>
    (\<forall>a. unat a + 8 < unat st + unat (mp_header_size mp) \<longrightarrow> m' a = m a)"
proof -
  let ?h = "mp_header_size mp" and ?obj = "st + ucast (mp_header_size mp)"
  have obj: "unat ?obj = unat st + unat ?h" using assms(4) by (subst unat_add_64) (simp_all add: unsigned_ucast_eq take_bit_eq_mod)
  have hdr: "unat (?obj - sizeof_objhdr) = unat st + unat ?h - 8"
    using obj assms(3) by (subst unat_sub_64) (simp_all add: sizeof_objhdr_def)
  define m1 where "m1 = m(?obj - sizeof_objhdr := mp_addr)"
  define m' where "m' = (case obj_init of None \<Rightarrow> m1 | Some f \<Rightarrow> f mp_addr ?obj i m1)"
  have keep: "m' a = m1 a" if "unat a < unat ?obj" for a
    using assms(5) that by (auto simp: m'_def ctor_ok_def split: option.split)
  obtain ret r where r: "rte_ring_sp_enqueue_bulk (mp_ring mp) [?obj] 1 = (ret, r)" "ring_ok r"
    "ring_cap r = ring_cap (mp_ring mp)" "ring_contents r = ring_contents (mp_ring mp) @ [?obj]"
    using sp_ring.enq_fits [OF assms(1), of "[?obj]"] assms(2) by auto
  have "mempool_obj_populate mp_addr obj_init (mp, m) st stop i = (mp\<lparr>mp_ring := r, elt_va_end := stop\<rparr>, m')"
    using r(1) by (cases obj_init)
      (simp_all add: mempool_obj_populate_def mempool_add_elem_def rte_ring_sp_enqueue_def Let_def m1_def m'_def)
  moreover have "rte_mempool_from_obj m' ?obj = mp_addr"
    using keep [of "?obj - sizeof_objhdr"] hdr obj assms(3) by (simp add: rte_mempool_from_obj_def m1_def)
  moreover have "m' a = m a" if "unat a + 8 < unat st + unat ?h" for a
    using keep [of a] that hdr obj by (auto simp: m1_def)
  ultimately show ?thesis using r by blast
qed

text \<open>All objects: \<open>lo\<close> bounds the first address, nothing below its header is touched.\<close>

lemma populate_all:
  assumes "ring_ok (mp_ring mp)" "length (ring_contents (mp_ring mp)) + length sts \<le> ring_cap (mp_ring mp)"
    and "8 \<le> unat (mp_header_size mp)" "unat (mp_header_size mp) + unat (mp_elt_size mp) \<le> unat E"
    and "placed pa s B N (unat E) lo sts" "buf_end s B N < 2 ^ 64"
    and "ctor_ok (mp_elt_size mp) obj_init"
  shows "\<exists>r stop m'. call_all (Some (mempool_obj_populate mp_addr obj_init)) E i sts (mp, m) =
      (mp\<lparr>mp_ring := r, elt_va_end := stop\<rparr>, m') \<and>
    ring_ok r \<and> ring_cap r = ring_cap (mp_ring mp) \<and>
    ring_contents r = ring_contents (mp_ring mp) @ map (\<lambda>st. st + ucast (mp_header_size mp)) sts \<and>
    (\<forall>st \<in> set sts. rte_mempool_from_obj m' (st + ucast (mp_header_size mp)) = mp_addr) \<and>
    (\<forall>a. unat a + 8 < lo + unat (mp_header_size mp) \<longrightarrow> m' a = m a)"
  using assms
proof (induction sts arbitrary: lo i mp m)
  case Nil
  then show ?case by (intro exI [of _ "mp_ring mp"] exI [of _ "elt_va_end mp"] exI [of _ m]) simp
next
  case (Cons st sts)
  let ?h = "mp_header_size mp" and ?f = "mempool_obj_populate mp_addr obj_init"
  have st: "lo \<le> unat st" "unat st + unat E \<le> buf_end s B N" "placed pa s B N (unat E) (unat st + unat E) sts"
    using Cons.prems(5) by simp_all
  have b: "unat st + unat ?h + unat (mp_elt_size mp) < 2 ^ 64" using st(2) Cons.prems(4,6) by linarith
  obtain r m1 where 1: "?f (mp, m) st (st + E) i = (mp\<lparr>mp_ring := r, elt_va_end := st + E\<rparr>, m1)"
    "ring_ok r" "ring_cap r = ring_cap (mp_ring mp)"
    "ring_contents r = ring_contents (mp_ring mp) @ [st + ucast ?h]"
    "rte_mempool_from_obj m1 (st + ucast ?h) = mp_addr"
    "\<And>a. unat a + 8 < unat st + unat ?h \<Longrightarrow> m1 a = m a"
    using add_elem_exact [OF Cons.prems(1) _ Cons.prems(3) b Cons.prems(7), of mp_addr m "st + E" i] Cons.prems(2) by auto
  let ?mp = "mp\<lparr>mp_ring := r, elt_va_end := st + E\<rparr>"
  obtain r' stop m' where 2: "call_all (Some ?f) E (i + 1) sts (?mp, m1) = (?mp\<lparr>mp_ring := r', elt_va_end := stop\<rparr>, m')"
    "ring_ok r'" "ring_cap r' = ring_cap r" "ring_contents r' = ring_contents r @ map (\<lambda>st. st + ucast ?h) sts"
    "\<forall>st \<in> set sts. rte_mempool_from_obj m' (st + ucast ?h) = mp_addr"
    "\<And>a. unat a + 8 < unat st + unat E + unat ?h \<Longrightarrow> m' a = m1 a"
    using Cons.IH [of ?mp "unat st + unat E" "i + 1" m1] Cons.prems(2-4,6,7) 1(2-4) st(3) by auto
  have hdr: "unat (st + ucast ?h - sizeof_objhdr) = unat st + unat ?h - 8"
  proof -
    have "unat (st + ucast ?h) = unat st + unat ?h"
      using b by (subst unat_add_64) (simp_all add: unsigned_ucast_eq take_bit_eq_mod)
    then show ?thesis using Cons.prems(3) by (subst unat_sub_64) (simp_all add: sizeof_objhdr_def)
  qed
  have "0 < unat E" using Cons.prems(3,4) by linarith
  then have "rte_mempool_from_obj m' (st + ucast ?h) = mp_addr"
    using 1(5) 2(6) [of "st + ucast ?h - sizeof_objhdr"] hdr Cons.prems(3) by (simp add: rte_mempool_from_obj_def)
  moreover have "m' a = m a" if "unat a + 8 < lo + unat ?h" for a
    using 1(6) [of a] 2(6) [of a] that st(1) by simp
  moreover have "call_all (Some ?f) E i (st # sts) (mp, m) = (mp\<lparr>mp_ring := r', elt_va_end := stop\<rparr>, m')"
    using 1(1) 2(1) by (simp add: call_iter_def)
  ultimately show ?case using 1(3,4) 2(2-5) by (intro exI [of _ r'] exI [of _ stop] exI [of _ m']) simp
qed

lemma fresh_ring:
  assumes "rte_ring_create sr name (rte_align32pow2 (n + 1)) fl te mz rings = (Inr r, rings')" "unat n < 2 ^ 31"
    and zone: "\<And>sz z. mz sz = Some z \<Longrightarrow> length (slots z) = unat (rte_align32pow2 (n + 1))"
  shows "ring_ok r" "ring_contents r = []" "unat n \<le> ring_cap r"
proof -
  let ?c = "rte_align32pow2 (n + 1)"
  have n1: "unat (n + 1) = unat n + 1" using assms(2) by (subst unat_add_exact) simp_all
  then have nz: "n + 1 \<noteq> 0" by auto
  obtain k where k: "k \<le> 32" "?c = 2 ^ k" "\<forall>j. unat (n + 1) \<le> 2 ^ j \<longleftrightarrow> k \<le> j"
    using align32_next [OF nz] by blast
  have "unat (n + 1) \<le> 2 ^ 31" using n1 assms(2) by linarith
  then have k31: "k \<le> 31" using k(3) by blast
  have c: "unat ?c = 2 ^ k" unfolding k(2) using k31 by (simp add: unat_p2_word)
  obtain z where z: "mz (rte_ring_get_memsize sr ?c) = Some z" "r = rte_ring_init z name ?c fl"
    "\<not> rte_ring_get_memsize sr ?c < 0"
    using assms(1) by (auto simp: rte_ring_create_def Let_def split: if_splits option.splits)
  have "?c \<le> RTE_RING_SZ_MASK" using z(3) memsize_ok_iff [of sr ?c] by simp
  then have "(2 :: nat) ^ k < 2 ^ 28" using c by (simp add: word_le_nat_alt RTE_RING_SZ_MASK_def)
  then have k27: "k \<le> 27" using power_less_imp_less_exp [of "2 :: nat" k 28] by simp
  show "ring_ok r" "ring_contents r = []"
    using ring_init_ok [OF c k27 zone [OF z(1)]] z(2) by simp_all
  have "unat n + 1 \<le> 2 ^ k" using k(3) n1 by auto
  then show "unat n \<le> ring_cap r"
    using ring_init_ok(3) [OF c k27 zone [OF z(1)]] z(2) c by simp
qed

lemma in_a_row_nth:
  assumes "k < n" "unat va + n * unat E \<le> 2 ^ 63"
  shows "in_a_row va E n ! k = va + of_nat k * E" "unat (va + of_nat k * E) = unat va + k * unat E"
proof -
  show "in_a_row va E n ! k = va + of_nat k * E" using assms(1) by (simp add: in_a_row_def)
  have "k * unat E \<le> n * unat E" using assms(1) by simp
  then have le: "unat va + k * unat E \<le> 2 ^ 63" using assms(2) by linarith
  have "unat (of_nat k * E) = k * unat E"
  proof (cases "E = 0")
    case False
    then have "1 \<le> unat E" using unat_gt_0 [of E] by linarith
    then have "k * 1 \<le> k * unat E" by (rule mult_le_mono2)
    then have "k \<le> k * unat E" by (simp only: mult_1_right)
    also have "\<dots> \<le> 2 ^ 63" using le by linarith
    finally have "k \<le> 2 ^ 63" .
    then have "k < 2 ^ 64" by simp
    then have "unat (of_nat k :: u64) = k" by (simp add: unat_of_nat)
    then show ?thesis using le by (simp add: unat_word_ariths)
  qed simp
  then show "unat (va + of_nat k * E) = unat va + k * unat E" using le by (subst unat_add_64) simp_all
qed

lemma in_a_row_length [simp]: "length (in_a_row va E n) = n"
  by (simp add: in_a_row_def)

lemma populate_default:
  assumes ring: "ring_ok (mp_ring mp)" "ring_contents (mp_ring mp) = []" "unat n \<le> ring_cap (mp_ring mp)"
    and hdr: "8 \<le> unat (mp_header_size mp)" "0 < unat E"
      "unat (mp_header_size mp) + unat (mp_elt_size mp) \<le> unat E"
      "mp_elt_size mp + mp_header_size mp + mp_trailer_size mp = E"
    and pages: "mp_pg_num mp = 1" "mp_pg_shift mp = 63" "length (elt_pa mp) = 1"
    and space: "unat (elt_va_start mp) + unat n * unat E \<le> 2 ^ 63" "unat (elt_va_start mp) < 2 ^ 63"
    and ctor: "ctor_ok (mp_elt_size mp) obj_init"
  shows "\<exists>r stop m'. mempool_populate mp_addr (mp, m) n 1 obj_init =
      Some (mp\<lparr>mp_ring := r, elt_va_end := stop, mp_size := n\<rparr>, m') \<and>
    ring_ok r \<and> ring_cap r = ring_cap (mp_ring mp) \<and>
    ring_contents r = map (\<lambda>st. st + ucast (mp_header_size mp)) (in_a_row (elt_va_start mp) (ucast E) (unat n)) \<and>
    (\<forall>obj \<in> set (ring_contents r). rte_mempool_from_obj m' obj = mp_addr)"
proof -
  let ?va = "elt_va_start mp" and ?E = "ucast E :: u64"
  have E32: "unat E < 2 ^ 32" by (rule unat_u32_less)
  then have uE: "unat ?E = unat E" by (simp add: unsigned_ucast_eq take_bit_eq_mod)
  have be: "buf_end 63 (unat ?va) 1 = 2 ^ 63" using space(2) by (simp add: buf_end_def)
  have "unat E div 2 ^ 63 = 0" using E32 by simp
  then have fit: "fits (unat (63 :: u32)) (unat ?va) (unat (1 :: u32)) (unat ?E)"
    using be uE E32 hdr(2) by (simp add: fits_def)
  have q: "unat n \<le> (2 ^ 63 - unat ?va) div unat E"
    using space(1) hdr(2) by (simp add: less_eq_div_iff_mult_less_eq)
  obtain sts where sts:
    "\<And>(f :: (rte_mempool \<times> mem) obj_iter option) arg. rte_mempool_obj_iter ?va n ?E 1 (elt_pa mp) 1 63 f arg =
        Some (of_nat (length sts), call_all f ?E 0 sts arg)"
    "placed (elt_pa mp) 63 (unat ?va) 1 (unat E) (unat ?va) sts" "sts = in_a_row ?va ?E (unat n)"
    using obj_iter_all [OF fit, of "elt_pa mp" n, where 'c = "rte_mempool \<times> mem"] pages(3) be uE q
    by (auto simp: all_join_def min_absorb1)
  have pl: "placed (elt_pa mp) 63 (unat ?va) 1 (unat ?E) (unat ?va) sts" using sts(2) uE by simp
  have "length (ring_contents (mp_ring mp)) + length sts \<le> ring_cap (mp_ring mp)" using ring(2,3) sts(3) by simp
  from populate_all [OF ring(1) this hdr(1) _ pl _ ctor, of mp_addr 0 m] hdr(3) uE be
  obtain r stop m' where "call_all (Some (mempool_obj_populate mp_addr obj_init)) ?E 0 sts (mp, m) =
      (mp\<lparr>mp_ring := r, elt_va_end := stop\<rparr>, m')" "ring_ok r" "ring_cap r = ring_cap (mp_ring mp)"
    "ring_contents r = map (\<lambda>st. st + ucast (mp_header_size mp)) sts"
    "\<forall>st \<in> set sts. rte_mempool_from_obj m' (st + ucast (mp_header_size mp)) = mp_addr"
    using ring(2) by auto
  then show ?thesis
    using sts pages hdr(4) by (intro exI [of _ r] exI [of _ stop] exI [of _ m'])
      (simp add: mempool_populate_def Let_def)
qed

section \<open>The steps of the creation\<close>

definition pool_flags :: "u32 \<Rightarrow> u32" where
  "pool_flags flags = (if flags AND MEMPOOL_F_NO_CACHE_ALIGN \<noteq> 0 then flags OR MEMPOOL_F_NO_SPREAD else flags)"

lemma create_parts:
  assumes "rte_mempool_create e sr name n elt_sz csize psize mp_init obj_init flags (rings, pools, m) =
    Some (Inr (addr, mp), rings', pools', m')"
  obtains tot sz rname fl r a phys mp0 m0
  where "csize \<le> RTE_MEMPOOL_CACHE_MAX_SIZE" "CALC_CACHE_FLUSHTHRESH csize \<le> n"
    "rte_mempool_calc_obj_size e elt_sz (pool_flags flags) \<lparr>elt_size = 0, header_size = 0, trailer_size = 0, total_size = 0\<rparr> = Some (tot, sz)"
    "rte_ring_create sr rname (rte_align32pow2 (n + 1)) fl (ring_te_ok e) (ring_mz e) rings = (Inr r, rings')"
    "pool_mz e (mempool_zone_size e 1 (mempool_private_size e psize) (total_size sz) n False) = Some (a, phys)"
    "addr = mempool_start e a"
    "mempool_init_struct addr phys name r n (pool_flags flags) sz csize (mempool_private_size e psize) None [] 1 63 = Some mp0"
    "mempool_populate addr (mp0, m0) n 1 obj_init = Some (mp, m')" "pools' = pools @ [(addr, mp)]"
proof -
  have c: "csize \<le> RTE_MEMPOOL_CACHE_MAX_SIZE" "CALC_CACHE_FLUSHTHRESH csize \<le> n"
    using assms unfolding rte_mempool_create_def rte_mempool_xmem_create_def by (auto split: if_splits)
  have c2: "(csize > RTE_MEMPOOL_CACHE_MAX_SIZE \<or> CALC_CACHE_FLUSHTHRESH csize > n) = False" using c by auto
  have nn: "((None :: u64 option) \<noteq> None) = False" by simp
  note eq = assms [unfolded rte_mempool_create_def rte_mempool_xmem_create_def Let_def MEMPOOL_PG_NUM_DEFAULT_def
    MEMPOOL_PG_SHIFT_MAX_def prod.case pool_flags_def [symmetric], unfolded c2 nn if_False option.case(1)]
  obtain tot sz where sz: "rte_mempool_calc_obj_size e elt_sz (pool_flags flags)
      \<lparr>elt_size = 0, header_size = 0, trailer_size = 0, total_size = 0\<rparr> = Some (tot, sz)" "tot \<noteq> 0"
    using eq c by (auto split: if_splits bind_splits)
  note eq = eq [unfolded sz(1)]
  define rc where "rc = rte_ring_create sr (take (RTE_RING_NAMESIZE - 1) (''MP_'' @ name)) (rte_align32pow2 (n + 1))
    (if pool_flags flags AND MEMPOOL_F_SC_GET \<noteq> 0 then (if pool_flags flags AND MEMPOOL_F_SP_PUT \<noteq> 0 then RING_F_SP_ENQ else 0) OR RING_F_SC_DEQ
     else if pool_flags flags AND MEMPOOL_F_SP_PUT \<noteq> 0 then RING_F_SP_ENQ else 0) (ring_te_ok e) (ring_mz e) rings"
  note eq = eq [folded rc_def]
  obtain r rings1 where r: "rc = (Inr r, rings1)"
    using eq c sz(2) by (cases rc; cases "fst rc") auto
  note eq = eq [unfolded r]
  obtain a phys where z: "pool_mz e (mempool_zone_size e 1 (mempool_private_size e psize) (total_size sz) n False) = Some (a, phys)"
    using eq c sz(2) by (auto split: if_splits option.splits)
  note eq = eq [unfolded z]
  obtain mp0 where mp0: "mempool_init_struct (mempool_start e a) phys name r n (pool_flags flags) sz csize
      (mempool_private_size e psize) None [] 1 63 = Some mp0"
    using eq c sz(2) z by (auto split: if_splits bind_splits)
  note eq = eq [unfolded mp0]
  have f: "mempool_populate (mempool_start e a) (mp0, case mp_init of None \<Rightarrow> m | Some f \<Rightarrow> f (mempool_start e a) m) n 1 obj_init = Some (mp, m')"
    "addr = mempool_start e a" "rings1 = rings'" "pools' = pools @ [(addr, mp)]"
    using eq sz(2) z mp0 by (auto split: if_splits bind_splits)
  show ?thesis
    by (rule that [OF c sz(1) _ z f(2) _ _ f(4)]) (use r f mp0 in \<open>simp_all add: rc_def\<close>)
qed

lemma align_ceil_64: "unat x + 63 < 2 ^ 64 \<Longrightarrow> unat (RTE_ALIGN_CEIL x 64 :: u64) = (unat x + 63) div 64 * 64"
  using RTE_ALIGN_unat [where k = 6 and v = x] by (simp add: RTE_ALIGN_def)

lemma header_1: "MEMPOOL_HEADER_SIZE 1 = sizeof_rte_mempool"
  by (simp add: MEMPOOL_HEADER_SIZE_def RTE_ALIGN_CEIL_def RTE_ALIGN_FLOOR_def)

lemma unat_ucast_64: "unat (ucast (x :: u32) :: u64) = unat x"
  using unat_u32_less [of x] by (simp add: unsigned_ucast_eq take_bit_eq_mod)

lemma zone_unat:
  assumes "hugepages e" "unat n < 2 ^ 31" "unat tot < 2 ^ 31"
  shows "unat (mempool_zone_size e 1 priv tot n False) =
    (unat sizeof_rte_mempool + unat priv + 63) div 64 * 64 + unat tot * unat n"
proof -
  let ?x = "unat sizeof_rte_mempool + unat priv"
  have s: "unat sizeof_rte_mempool = 1581248" by (simp add: sizeof_rte_mempool_def)
  have p: "unat priv < 2 ^ 32" by (rule unat_u32_less)
  have x: "unat (sizeof_rte_mempool + ucast priv) = ?x" using p s by (subst unat_add_64) (simp_all add: unat_ucast_64)
  have c: "unat (RTE_ALIGN_CEIL (sizeof_rte_mempool + ucast priv) 64) = (?x + 63) div 64 * 64"
    using x p s by (subst align_ceil_64) simp_all
  have cb: "(?x + 63) div 64 * 64 \<le> ?x + 63" by simp
  have "unat tot * unat n \<le> 2 ^ 31 * 2 ^ 31" using assms(2,3) by (intro mult_mono) simp_all
  then have prod: "unat tot * unat n \<le> 2 ^ 62" by simp
  then have m: "unat (ucast tot * ucast n :: u64) = unat tot * unat n"
    by (subst unat_mult_lem [THEN iffD1]) (simp_all add: unat_ucast_64)
  have zone: "unat (mempool_zone_size e 1 priv tot n False) = (?x + 63) div 64 * 64 + unat tot * unat n"
    unfolding mempool_zone_size_def header_1 using assms(1) c cb prod m p s
    by (simp add: Let_def RTE_MEMPOOL_ALIGN_def) (subst unat_add_64, simp_all)
  show ?thesis by (rule zone)
qed

text \<open>The zone holds the structure, the private data and exactly the objects.\<close>

lemma zone_layout:
  fixes a :: u64
  assumes "hugepages e" "unat n < 2 ^ 31" "unat tot < 2 ^ 31" "unat a mod 64 = 0"
    and "unat a + unat (mempool_zone_size e 1 priv tot n False) < 2 ^ 63"
  defines "va \<equiv> RTE_ALIGN_CEIL (a + MEMPOOL_HEADER_SIZE 1 + ucast priv) (ucast RTE_MEMPOOL_ALIGN)"
  shows "unat va + unat n * unat tot = unat a + unat (mempool_zone_size e 1 priv tot n False)"
    "unat a + unat sizeof_rte_mempool \<le> unat va" "64 dvd unat va"
proof -
  let ?x = "unat sizeof_rte_mempool + unat priv"
  have s: "unat sizeof_rte_mempool = 1581248" by (simp add: sizeof_rte_mempool_def)
  have p: "unat priv < 2 ^ 32" by (rule unat_u32_less)
  have x: "unat (sizeof_rte_mempool + ucast priv) = ?x" using p s by (subst unat_add_64) (simp_all add: unat_ucast_64)
  have cb: "(?x + 63) div 64 * 64 \<le> ?x + 63" by simp
  note zone = zone_unat [OF assms(1-3), of priv]
  have ax: "unat (a + sizeof_rte_mempool + ucast priv) = unat a + ?x"
  proof -
    have "a + sizeof_rte_mempool + ucast priv = a + (sizeof_rte_mempool + ucast priv)" by simp
    moreover have "unat a + ?x < 2 ^ 64" using add_lessD1 [OF assms(5)] p s by simp
    ultimately show ?thesis using x by (metis unat_add_64)
  qed
  have "unat va = (unat a + ?x + 63) div 64 * 64"
    unfolding va_def header_1 using ax assms(5) p s
    by (simp add: RTE_MEMPOOL_ALIGN_def) (subst align_ceil_64, simp_all)
  also have "\<dots> = unat a + (?x + 63) div 64 * 64"
  proof -
    obtain q where q: "unat a = 64 * q" using assms(4) by (metis mod_0_imp_dvd dvdE)
    have "(64 * q + ?x + 63) div 64 = q + (?x + 63) div 64"
      using div_mult_self3 [of 64 q "?x + 63"] by (simp add: algebra_simps)
    then show ?thesis unfolding q by (simp add: algebra_simps)
  qed
  finally have va: "unat va = unat a + (?x + 63) div 64 * 64" .
  show "unat va + unat n * unat tot = unat a + unat (mempool_zone_size e 1 priv tot n False)"
    using va zone by (simp add: mult.commute)
  show "unat a + unat sizeof_rte_mempool \<le> unat va"
    using va round_up_bounds(1) [of 64 ?x] by simp
  show "64 dvd unat va" using va assms(4) by (simp add: dvd_eq_mod_eq_0 mod_add_left_eq)
qed

lemma mp_ok_fresh:
  assumes "ring_ok (mp_ring mp)" "csize \<le> RTE_MEMPOOL_CACHE_MAX_SIZE" "cache_size mp = csize"
    "cache_flushthresh mp = CALC_CACHE_FLUSHTHRESH csize"
    "local_cache mp = replicate RTE_MAX_LCORE \<lparr>cache_len = 0, cache_objs = replicate 1536 0\<rparr>"
  shows "mp_ok mp" "pool_objs mp = mset (ring_contents (mp_ring mp))"
proof -
  have c: "unat csize \<le> 512" using assms(2) by (simp add: RTE_MEMPOOL_CACHE_MAX_SIZE_def word_le_nat_alt)
  then have f: "unat (CALC_CACHE_FLUSHTHRESH csize) = unat csize * 3 div 2"
    by (simp add: CALC_CACHE_FLUSHTHRESH_def of_nat_u32)
  have "2 * (unat csize * 3 div 2) \<le> 3 * unat csize" "unat csize \<le> unat csize * 3 div 2" by simp_all
  then show "mp_ok mp"
    using assms f by (auto simp: mp_ok_def cache_ok_def word_le_nat_alt)
  have "concat (map cached (local_cache mp)) = []" by (simp add: assms(5) cached_def)
  then show "pool_objs mp = mset (ring_contents (mp_ring mp))" by (simp add: pool_objs_def)
qed

lemma no_spread_pool_flags:
  "pool_flags flags AND MEMPOOL_F_NO_CACHE_ALIGN = 0 \<longleftrightarrow> flags AND MEMPOOL_F_NO_CACHE_ALIGN = 0"
proof -
  have "(flags OR 1) AND 2 = flags AND (2 :: u32)" by (simp add: bit.conj_disj_distrib2)
  then show ?thesis by (simp add: pool_flags_def MEMPOOL_F_NO_CACHE_ALIGN_def MEMPOOL_F_NO_SPREAD_def)
qed

text \<open>Physical addresses in a pool with one page of \<open>2 ^ 63\<close> bytes.\<close>

lemma virt2phy_one_page:
  assumes "elt_pa mp = [phys + (elt_va_start mp - addr)]" "mp_pg_shift mp = 63" "mp_pg_mask mp = RTE_LEN2MASK 63"
    "unat (elt_va_start mp) \<le> unat a" "unat a < 2 ^ 63"
  shows "rte_mempool_virt2phy True v2p mp a = Some (phys + (a - addr))"
proof -
  let ?off = "a - elt_va_start mp"
  have off: "unat ?off < 2 ^ 63" using assms(4,5) by (subst unat_sub_64) simp_all
  then have "unat (drop_bit 63 ?off) = 0" using unat_drop_bit_eq [of 63 ?off] by (simp add: drop_bit_eq_div)
  moreover have "?off AND RTE_LEN2MASK 63 = ?off"
  proof -
    have "RTE_LEN2MASK 63 = Bit_Operations.mask 63" by (simp add: RTE_LEN2MASK_def mask_eq_exp_minus_1)
    then have "?off AND RTE_LEN2MASK 63 = take_bit 63 ?off" by (simp add: take_bit_eq_mask)
    moreover have "unat (take_bit 63 ?off) = unat ?off" using off by (simp add: unsigned_take_bit_eq take_bit_nat_eq_self)
    ultimately show ?thesis by (simp add: unat_inj)
  qed
  ultimately show ?thesis using assms(1-3) by (simp add: rte_mempool_virt2phy_def read_at_def)
qed

text \<open>Object \<open>k\<close> of \<open>n\<close>, \<open>E\<close> bytes apart from \<open>va\<close> on.\<close>

definition obj_at :: "rte_mempool \<Rightarrow> u64 \<Rightarrow> nat \<Rightarrow> u64" where
  "obj_at mp E k = elt_va_start mp + of_nat k * E + ucast (mp_header_size mp)"

definition full_pool :: "u32 \<Rightarrow> u32 \<Rightarrow> u32 \<Rightarrow> string \<Rightarrow> u64 \<Rightarrow> u64 \<Rightarrow> u64 \<Rightarrow> u64 \<Rightarrow> rte_mempool \<Rightarrow> mem \<Rightarrow> bool" where
  "full_pool n elt_sz flags name addr zone phys E mp m \<longleftrightarrow>
    mp_ok mp \<and> mp_size mp = n \<and>
    pool_objs mp = mset (ring_contents (mp_ring mp)) \<and>
    ring_contents (mp_ring mp) = map (obj_at mp E) [0..<unat n] \<and>
    unat (elt_va_start mp) + unat n * unat E = unat addr + unat zone \<and>
    unat addr + unat sizeof_rte_mempool \<le> unat (elt_va_start mp) \<and> 64 dvd unat (elt_va_start mp) \<and>
    unat E = unat (mp_header_size mp) + unat (mp_elt_size mp) + unat (mp_trailer_size mp) \<and>
    8 \<le> unat (mp_header_size mp) \<and>
    unat elt_sz \<le> unat (mp_elt_size mp) \<and>
    (flags AND MEMPOOL_F_NO_CACHE_ALIGN = 0 \<longrightarrow> 64 dvd unat E \<and> unat (mp_header_size mp) = 64) \<and>
    (\<forall>obj \<in> set (ring_contents (mp_ring mp)). rte_mempool_from_obj m obj = addr) \<and>
    elt_pa mp = [phys + (elt_va_start mp - addr)] \<and> mp_phys_addr mp = phys \<and>
    mp_pg_shift mp = 63 \<and> mp_pg_mask mp = RTE_LEN2MASK 63 \<and>
    unat addr + unat zone < 2 ^ 63 \<and> mp_name mp = take 31 name"

lemma calc_words:
  assumes "rte_mempool_calc_obj_size e elt_sz (pool_flags flags) s0 = Some (tot, sz)"
    and env: "hugepages e" "mem_banks e \<le> 2 ^ 20" and elt_sz: "unat elt_sz \<le> 2 ^ 30"
  shows "unat (total_size sz) = unat (header_size sz) + unat (elt_size sz) + unat (trailer_size sz)" "unat (total_size sz) < 2 ^ 31"
    "flags AND MEMPOOL_F_NO_CACHE_ALIGN = 0 \<longrightarrow> 64 dvd unat (total_size sz) \<and> unat (header_size sz) = 64"
    "8 \<le> unat (header_size sz)" "unat elt_sz \<le> unat (elt_size sz)" "RTE_ALIGN_CEIL elt_sz 8 = elt_size sz"
    "elt_size sz + header_size sz + trailer_size sz = total_size sz"
proof -
  note S = calc_obj_size_exact [OF env elt_sz, of "pool_flags flags" s0, unfolded assms(1) no_spread_pool_flags]
  show tot: "unat (total_size sz) = unat (header_size sz) + unat (elt_size sz) + unat (trailer_size sz)" "unat (total_size sz) < 2 ^ 31"
    and "flags AND MEMPOOL_F_NO_CACHE_ALIGN = 0 \<longrightarrow> 64 dvd unat (total_size sz) \<and> unat (header_size sz) = 64"
    and "8 \<le> unat (header_size sz)"
    using S by auto
  have elt: "unat (elt_size sz) = (unat elt_sz + 7) div 8 * 8" using S by auto
  then show "unat elt_sz \<le> unat (elt_size sz)" using round_up_bounds(1) [of 8 "unat elt_sz"] by simp
  have "unat (RTE_ALIGN_CEIL elt_sz 8) = (unat elt_sz + 7) div 8 * 8"
    using RTE_ALIGN_unat [of 3 elt_sz] elt_sz by (simp add: RTE_ALIGN_def)
  then show "RTE_ALIGN_CEIL elt_sz 8 = elt_size sz" using elt by (simp add: unat_inj [symmetric])
  have "unat (elt_size sz + header_size sz) = unat (elt_size sz) + unat (header_size sz)"
    using tot by (subst unat_add_exact) simp_all
  then have "unat (elt_size sz + header_size sz + trailer_size sz) = unat (total_size sz)"
    using tot by (subst unat_add_exact) simp_all
  then show "elt_size sz + header_size sz + trailer_size sz = total_size sz" by (simp only: unat_inj)
qed

lemma init_struct_fields:
  assumes "mempool_init_struct addr phys name r n flags sz csize priv None [] 1 63 = Some mp"
  shows "mp_ring mp = r" "mp_elt_size mp = elt_size sz" "mp_header_size mp = header_size sz" "mp_trailer_size mp = trailer_size sz"
    "cache_size mp = csize" "cache_flushthresh mp = CALC_CACHE_FLUSHTHRESH csize"
    "local_cache mp = replicate RTE_MAX_LCORE \<lparr>cache_len = 0, cache_objs = replicate 1536 0\<rparr>"
    "elt_va_start mp = RTE_ALIGN_CEIL (addr + MEMPOOL_HEADER_SIZE 1 + ucast priv) (ucast RTE_MEMPOOL_ALIGN)"
    "elt_pa mp = [phys + (elt_va_start mp - addr)]" "mp_phys_addr mp = phys" "mp_pg_num mp = 1" "mp_pg_shift mp = 63"
    "mp_pg_mask mp = RTE_LEN2MASK 63" "mp_name mp = take 31 name"
  using assms by (auto simp: mempool_init_struct_def Let_def RTE_MEMPOOL_NAMESIZE_def)

lemma created_pool:
  assumes c: "csize \<le> RTE_MEMPOOL_CACHE_MAX_SIZE"
    and calc: "rte_mempool_calc_obj_size e elt_sz (pool_flags flags) \<lparr>elt_size = 0, header_size = 0, trailer_size = 0, total_size = 0\<rparr> = Some (tot, sz)"
    and ring: "rte_ring_create sr rname (rte_align32pow2 (n + 1)) fl (ring_te_ok e) (ring_mz e) rings = (Inr r, rings')"
    and mz: "pool_mz e (mempool_zone_size e 1 (mempool_private_size e psize) (total_size sz) n False) = Some (addr, phys)"
    and init: "mempool_init_struct addr phys name r n (pool_flags flags) sz csize (mempool_private_size e psize) None [] 1 63 = Some mp0"
    and env: "hugepages e" "mem_banks e \<le> 2 ^ 20"
    and ring_zone: "\<forall>sz z. ring_mz e sz = Some z \<longrightarrow> length (slots z) = unat (rte_align32pow2 (n + 1))"
    and pool_zone: "\<forall>sz a p. pool_mz e sz = Some (a, p) \<longrightarrow> unat a mod 64 = 0 \<and> unat a + unat sz < 2 ^ 63"
    and sizes: "unat n < 2 ^ 31" "unat elt_sz \<le> 2 ^ 30"
    and ctor: "ctor_ok (RTE_ALIGN_CEIL elt_sz 8) obj_init"
  shows "\<exists>mp m' zone E. mempool_populate addr (mp0, m0) n 1 obj_init = Some (mp, m') \<and>
    pool_mz e zone = Some (addr, phys) \<and> full_pool n elt_sz flags name addr zone phys E mp m'"
proof -
  define zone where "zone = mempool_zone_size e 1 (mempool_private_size e psize) (total_size sz) n False"
  note tot = calc_words [OF calc env sizes(2)]
  have Z: "unat addr mod 64 = 0" "unat addr + unat zone < 2 ^ 63"
    using pool_zone [rule_format, OF mz] by (simp_all add: zone_def)
  note L = zone_layout [OF env(1) sizes(1) tot(2) Z(1) Z(2) [unfolded zone_def], folded zone_def]
  note mp0 = init_struct_fields [OF init]
  note L = L [folded mp0(8)]
  note R = fresh_ring [OF ring sizes(1) ring_zone [rule_format]]
  have "\<exists>r' stop m1. mempool_populate addr (mp0, m0) n 1 obj_init =
      Some (mp0\<lparr>mp_ring := r', elt_va_end := stop, mp_size := n\<rparr>, m1) \<and>
    ring_ok r' \<and> ring_cap r' = ring_cap (mp_ring mp0) \<and>
    ring_contents r' = map (\<lambda>st. st + ucast (mp_header_size mp0)) (in_a_row (elt_va_start mp0) (ucast (total_size sz)) (unat n)) \<and>
    (\<forall>obj \<in> set (ring_contents r'). rte_mempool_from_obj m1 obj = addr)"
  proof (rule populate_default)
    show "unat (elt_va_start mp0) + unat n * unat (total_size sz) \<le> 2 ^ 63" using L(1) Z(2) by linarith
    show "unat (elt_va_start mp0) < 2 ^ 63" using L(1) Z(2) by linarith
    show "0 < unat (total_size sz)" using tot(1,4) by simp
  qed (use R mp0 tot ctor in simp_all)
  then obtain r' stop m' where pop: "mempool_populate addr (mp0, m0) n 1 obj_init =
      Some (mp0\<lparr>mp_ring := r', elt_va_end := stop, mp_size := n\<rparr>, m')" and P': "ring_ok r'"
    "ring_contents r' = map (\<lambda>st. st + ucast (mp_header_size mp0)) (in_a_row (elt_va_start mp0) (ucast (total_size sz)) (unat n))"
    "\<forall>obj \<in> set (ring_contents r'). rte_mempool_from_obj m' obj = addr"
    by auto
  define mp where "mp = mp0\<lparr>mp_ring := r', elt_va_end := stop, mp_size := n\<rparr>"
  note P = mp_def P'
  have F: "mp_ok mp" "pool_objs mp = mset (ring_contents (mp_ring mp))"
    using mp_ok_fresh [OF _ c, of mp] P(1,2) mp0(5-7) by simp_all
  have objs: "ring_contents (mp_ring mp) = map (obj_at mp (ucast (total_size sz))) [0..<unat n]"
    using P(1,3) by (simp add: obj_at_def in_a_row_def)
  have fields: "mp_size mp = n" "elt_va_start mp = elt_va_start mp0" "mp_header_size mp = header_size sz"
    "mp_elt_size mp = elt_size sz" "mp_trailer_size mp = trailer_size sz" "elt_pa mp = [phys + (elt_va_start mp - addr)]"
    "mp_phys_addr mp = phys" "mp_pg_shift mp = 63" "mp_pg_mask mp = RTE_LEN2MASK 63" "mp_name mp = take 31 name"
    "\<forall>obj \<in> set (ring_contents (mp_ring mp)). rte_mempool_from_obj m' obj = addr"
    using P(1,4) mp0 by simp_all
  have mz: "pool_mz e zone = Some (addr, phys)" using mz by (simp add: zone_def)
  have E: "unat (ucast (total_size sz) :: u64) = unat (total_size sz)" by (rule unat_ucast_64)
  have "full_pool n elt_sz flags name addr zone phys (ucast (total_size sz)) mp m'"
    unfolding full_pool_def
    by (intro conjI; (rule F objs fields Z)?; (simp only: fields E)?; (rule L tot)?)
  then show ?thesis using mz pop by (auto simp: mp_def)
qed

lemma create_default:
  assumes create: "rte_mempool_create e sr name n elt_sz csize psize mp_init obj_init flags (rings, pools, m) =
      Some (Inr (addr, mp), rings', pools', m')"
    and env: "hugepages e" "mem_banks e \<le> 2 ^ 20"
    and ring_zone: "\<forall>sz z. ring_mz e sz = Some z \<longrightarrow> length (slots z) = unat (rte_align32pow2 (n + 1))"
    and pool_zone: "\<forall>sz a p. pool_mz e sz = Some (a, p) \<longrightarrow> unat a mod 64 = 0 \<and> unat a + unat sz < 2 ^ 63"
    and sizes: "unat n < 2 ^ 31" "unat elt_sz \<le> 2 ^ 30"
    and ctor: "ctor_ok (RTE_ALIGN_CEIL elt_sz 8) obj_init"
  shows "\<exists>zone phys E. pool_mz e zone = Some (addr, phys) \<and> full_pool n elt_sz flags name addr zone phys E mp m' \<and>
    pools' = pools @ [(addr, mp)]"
  using create
proof (rule create_parts)
  fix tot sz rname fl r a phys mp0 m0
  assume p: "csize \<le> RTE_MEMPOOL_CACHE_MAX_SIZE"
    "rte_mempool_calc_obj_size e elt_sz (pool_flags flags) \<lparr>elt_size = 0, header_size = 0, trailer_size = 0, total_size = 0\<rparr> = Some (tot, sz)"
    "rte_ring_create sr rname (rte_align32pow2 (n + 1)) fl (ring_te_ok e) (ring_mz e) rings = (Inr r, rings')"
    "pool_mz e (mempool_zone_size e 1 (mempool_private_size e psize) (total_size sz) n False) = Some (a, phys)"
    "addr = mempool_start e a"
    "mempool_init_struct addr phys name r n (pool_flags flags) sz csize (mempool_private_size e psize) None [] 1 63 = Some mp0"
    "mempool_populate addr (mp0, m0) n 1 obj_init = Some (mp, m')" "pools' = pools @ [(addr, mp)]"
  have a: "a = addr" using p(5) env(1) by (simp add: mempool_start_def)
  show ?thesis
    using created_pool [OF p(1-3) p(4) [unfolded a] p(6) env ring_zone pool_zone sizes ctor, of m0] p(7,8) by auto
qed

lemma zone_size_bound:
  assumes "hugepages e" "unat n < 2 ^ 31" "unat tot < 2 ^ 31"
  shows "unat (mempool_zone_size e 1 priv tot n False) \<le> 2 ^ 33 + unat n * 2 ^ 31"
proof -
  have "unat tot * unat n \<le> 2 ^ 31 * unat n" using assms(3) by (intro mult_le_mono1) simp
  moreover have "(unat sizeof_rte_mempool + unat priv + 63) div 64 * 64 \<le> 2 ^ 33"
    using unat_u32_less [of priv] by (simp add: sizeof_rte_mempool_def)
  ultimately show ?thesis unfolding zone_unat [OF assms, of priv]
    by (metis add_le_mono mult.commute)
qed

lemma ring_granted:
  assumes "unat n < 2 ^ 27" "te" "\<forall>sz. mz sz \<noteq> None"
  shows "\<exists>r rings'. rte_ring_create sr name (rte_align32pow2 (n + 1)) fl te mz rings = (Inr r, rings')"
proof -
  have n1: "unat (n + 1) = unat n + 1" using assms(1) by (subst unat_add_exact) simp_all
  then have nz: "n + 1 \<noteq> 0" by auto
  obtain k where k: "k \<le> 32" "rte_align32pow2 (n + 1) = 2 ^ k" "\<forall>j. unat (n + 1) \<le> 2 ^ j \<longleftrightarrow> k \<le> j"
    using align32_next [OF nz] by blast
  have "unat (n + 1) \<le> 2 ^ 27" using n1 assms(1) by linarith
  then have k27: "k \<le> 27" using k(3) by blast
  then have c: "unat (rte_align32pow2 (n + 1)) = 2 ^ k" by (simp add: k(2) unat_p2_word)
  have "(2 :: nat) ^ k \<le> 2 ^ 27" using k27 by (intro power_increasing) simp_all
  then have "rte_align32pow2 (n + 1) \<le> RTE_RING_SZ_MASK" using c by (simp add: word_le_nat_alt RTE_RING_SZ_MASK_def)
  moreover have "POWEROF2 (rte_align32pow2 (n + 1))"
    using c POWEROF2_iff [of "rte_align32pow2 (n + 1)"] by fastforce
  ultimately have "\<not> rte_ring_get_memsize sr (rte_align32pow2 (n + 1)) < 0"
    using memsize_ok_iff [of sr "rte_align32pow2 (n + 1)"] by simp
  then show ?thesis using assms(2,3) by (auto simp: rte_ring_create_def Let_def split: option.split)
qed

text \<open>The creation always returns; a failure leaves the pools and the memory alone.\<close>

lemma create_total:
  assumes env: "hugepages e" "mem_banks e \<le> 2 ^ 20"
    and ring_zone: "\<forall>sz z. ring_mz e sz = Some z \<longrightarrow> length (slots z) = unat (rte_align32pow2 (n + 1))"
    and pool_zone: "\<forall>sz a p. pool_mz e sz = Some (a, p) \<longrightarrow> unat a mod 64 = 0 \<and> unat a + unat sz < 2 ^ 63"
    and sizes: "unat n < 2 ^ 31" "unat elt_sz \<le> 2 ^ 30"
    and ctor: "ctor_ok (RTE_ALIGN_CEIL elt_sz 8) obj_init"
  shows "\<exists>res rings' pools' m'. rte_mempool_create e sr name n elt_sz csize psize mp_init obj_init flags (rings, pools, m) =
      Some (res, rings', pools', m') \<and>
    (csize > RTE_MEMPOOL_CACHE_MAX_SIZE \<or> CALC_CACHE_FLUSHTHRESH csize > n \<longrightarrow> res = Inl (Some EINVAL)) \<and>
    ((\<exists>err. res = Inl err) \<longrightarrow> pools' = pools \<and> m' = m \<and>
      (csize > RTE_MEMPOOL_CACHE_MAX_SIZE \<or> CALC_CACHE_FLUSHTHRESH csize > n \<or> unat n \<ge> 2 ^ 27 \<or>
       \<not> ring_te_ok e \<or> \<not> pool_te_ok e \<or> (\<exists>sz. ring_mz e sz = None) \<or>
       (\<exists>sz. unat sz \<le> 2 ^ 33 + unat n * 2 ^ 31 \<and> pool_mz e sz = None)))"
proof (cases "csize > RTE_MEMPOOL_CACHE_MAX_SIZE \<or> CALC_CACHE_FLUSHTHRESH csize > n")
  case True
  then have "rte_mempool_create e sr name n elt_sz csize psize mp_init obj_init flags (rings, pools, m) =
      Some (Inl (Some EINVAL), rings, pools, m)"
    by (simp add: rte_mempool_create_def rte_mempool_xmem_create_def)
  then show ?thesis using True by blast
next
  case False
  then have c: "csize \<le> RTE_MEMPOOL_CACHE_MAX_SIZE" by auto
  obtain tot sz where calc: "rte_mempool_calc_obj_size e elt_sz (pool_flags flags)
      \<lparr>elt_size = 0, header_size = 0, trailer_size = 0, total_size = 0\<rparr> = Some (tot, sz)"
    and tot: "tot = total_size sz" "unat tot < 2 ^ 31" "tot \<noteq> 0"
  proof -
    obtain sz where sz: "rte_mempool_calc_obj_size e elt_sz (pool_flags flags)
        \<lparr>elt_size = 0, header_size = 0, trailer_size = 0, total_size = 0\<rparr> = Some (total_size sz, sz)"
      "unat (total_size sz) = unat (header_size sz) + unat (elt_size sz) + unat (trailer_size sz)"
      "unat (total_size sz) < 2 ^ 31"
      "unat (header_size sz) = (if pool_flags flags AND MEMPOOL_F_NO_CACHE_ALIGN = 0 then 64 else 8)"
      using calc_obj_size_exact [OF env sizes(2), of "pool_flags flags"] by blast
    have "unat (total_size sz) \<noteq> 0" using sz(2,4) by (simp split: if_splits)
    then have "total_size sz \<noteq> 0" by (auto simp del: unat_eq_zero)
    then show ?thesis using that [OF sz(1)] sz(3) by simp
  qed
  let ?fl = "if pool_flags flags AND MEMPOOL_F_SC_GET \<noteq> 0 then (if pool_flags flags AND MEMPOOL_F_SP_PUT \<noteq> 0 then RING_F_SP_ENQ else 0) OR RING_F_SC_DEQ
     else if pool_flags flags AND MEMPOOL_F_SP_PUT \<noteq> 0 then RING_F_SP_ENQ else 0"
  let ?rname = "take (RTE_RING_NAMESIZE - 1) (''MP_'' @ name)"
  obtain rr rings1 where ring: "rte_ring_create sr ?rname (rte_align32pow2 (n + 1)) ?fl (ring_te_ok e) (ring_mz e) rings = (rr, rings1)"
    by fastforce
  let ?zone = "mempool_zone_size e 1 (mempool_private_size e psize) (total_size sz) n False"
  have run: "rte_mempool_create e sr name n elt_sz csize psize mp_init obj_init flags (rings, pools, m) =
    (if tot = 0 then Some (Inl (Some EINVAL), rings, pools, m)
     else case rr of
       Inl err \<Rightarrow> Some (Inl err, rings1, pools, m)
     | Inr r \<Rightarrow>
       if \<not> pool_te_ok e then Some (Inl None, rings1, pools, m)
       else case pool_mz e ?zone of
         None \<Rightarrow> Some (Inl None, rings1, pools, m)
       | Some (a, phys) \<Rightarrow> do {
           mp \<leftarrow> mempool_init_struct a phys name r n (pool_flags flags) sz csize (mempool_private_size e psize) None [] 1 63;
           (mp, m) \<leftarrow> mempool_populate a (mp, case mp_init of None \<Rightarrow> m | Some f \<Rightarrow> f a m) n 1 obj_init;
           Some (Inr (a, mp), rings1, pools @ [(a, mp)], m) })"
    using False env(1) calc ring
    unfolding rte_mempool_create_def rte_mempool_xmem_create_def Let_def pool_flags_def [symmetric]
    by (simp add: MEMPOOL_PG_NUM_DEFAULT_def MEMPOOL_PG_SHIFT_MAX_def mempool_start_def cong: if_cong option.case_cong sum.case_cong)
  show ?thesis
  proof (cases "tot \<noteq> 0 \<and> (\<exists>r. rr = Inr r) \<and> pool_te_ok e \<and> pool_mz e ?zone \<noteq> None")
    case True
    then obtain r a phys where t: "rr = Inr r" "pool_mz e ?zone = Some (a, phys)" by auto
    obtain mp0 where init: "mempool_init_struct a phys name r n (pool_flags flags) sz csize (mempool_private_size e psize) None [] 1 63 = Some mp0"
      by (simp add: mempool_init_struct_def Let_def)
    show ?thesis
      using run created_pool [OF c calc ring [unfolded t(1)] t(2) init env ring_zone pool_zone sizes ctor,
          of "case mp_init of None \<Rightarrow> m | Some f \<Rightarrow> f a m"] True False t init
      by auto
  next
    case False': False
    have why: "unat n \<ge> 2 ^ 27 \<or> \<not> ring_te_ok e \<or> \<not> pool_te_ok e \<or> (\<exists>sz. ring_mz e sz = None) \<or>
       (\<exists>sz. unat sz \<le> 2 ^ 33 + unat n * 2 ^ 31 \<and> pool_mz e sz = None)"
    proof (rule ccontr)
      assume N: "\<not> ?thesis"
      then have "\<exists>r rings'. rte_ring_create sr ?rname (rte_align32pow2 (n + 1)) ?fl (ring_te_ok e) (ring_mz e) rings = (Inr r, rings')"
        by (intro ring_granted) auto
      then have "\<exists>r. rr = Inr r" using ring by auto
      moreover have "pool_mz e ?zone \<noteq> None"
        using N zone_size_bound [OF env(1) sizes(1) tot(2), of "mempool_private_size e psize"] tot(1) by auto
      ultimately show False using False' N tot(3) by blast
    qed
    have "\<exists>err rings'. rte_mempool_create e sr name n elt_sz csize psize mp_init obj_init flags (rings, pools, m) =
        Some (Inl err, rings', pools, m)"
      using run False' by (auto split: sum.splits option.splits)
    then show ?thesis using why False by (elim exE) (intro exI conjI, assumption, auto)
  qed
qed

lemma obj_at_unat:
  assumes "unat (elt_va_start mp) + n * unat E < 2 ^ 63" "k < n"
    and "unat (mp_header_size mp) \<le> unat E"
  shows "unat (obj_at mp E k) = unat (elt_va_start mp) + k * unat E + unat (mp_header_size mp)"
proof -
  have u: "unat (elt_va_start mp + of_nat k * E) = unat (elt_va_start mp) + k * unat E"
    using in_a_row_nth(2) [OF assms(2), of "elt_va_start mp" E] assms(1) by simp
  have "Suc k * unat E \<le> n * unat E" using assms(2) by (intro mult_le_mono1) simp
  then have "unat (elt_va_start mp) + k * unat E + unat (mp_header_size mp) < 2 ^ 63"
    using assms(1,3) by simp
  then show ?thesis
    unfolding obj_at_def using u by (subst unat_add_64) (simp_all add: unat_ucast_64)
qed

lemma lookup_new_pool:
  assumes "length name \<le> 31" "mp_name mp = take 31 name"
    and "\<forall>(a, p) \<in> set pools. length (mp_name p) \<le> 31 \<and> mp_name p \<noteq> name"
  shows "rte_mempool_lookup name (pools @ [(addr, mp)]) = Inr (addr, mp)"
proof -
  have "List.find (\<lambda>(_, p). take RTE_MEMPOOL_NAMESIZE name = take RTE_MEMPOOL_NAMESIZE (mp_name p)) pools = None"
    using assms(1,3) by (fastforce simp: find_None_iff RTE_MEMPOOL_NAMESIZE_def)
  then have "List.find (\<lambda>(_, p). take RTE_MEMPOOL_NAMESIZE name = take RTE_MEMPOOL_NAMESIZE (mp_name p)) (pools @ [(addr, mp)]) = Some (addr, mp)"
    using assms(1,2) by (induction pools) (auto simp: RTE_MEMPOOL_NAMESIZE_def split: if_splits)
  then show ?thesis by (simp add: rte_mempool_lookup_def)
qed

text \<open>
  A pool of \<open>n\<close> free objects, each with room for \<open>elt_sz\<close> bytes behind a header that points to the pool, one after the
  other without overlap, behind the pool structure and inside the zone reserved for it, with the physical addresses
  of the zone.
\<close>

definition filled_pool :: "eal \<Rightarrow> u32 \<Rightarrow> u32 \<Rightarrow> u32 \<Rightarrow> u64 \<Rightarrow> rte_mempool \<Rightarrow> mem \<Rightarrow> bool" where
  "filled_pool e n elt_sz flags addr mp m \<longleftrightarrow>
    mp_ok mp \<and> pool_objs mp = mset (ring_contents (mp_ring mp)) \<and>
    length (ring_contents (mp_ring mp)) = unat n \<and> unat elt_sz \<le> unat (mp_elt_size mp) \<and>
    (\<exists>zone phys. pool_mz e zone = Some (addr, phys) \<and>
      (\<forall>k < unat n. \<forall>obj. obj = ring_contents (mp_ring mp) ! k \<longrightarrow>
        unat addr + unat sizeof_rte_mempool + unat (mp_header_size mp) \<le> unat obj \<and>
        unat obj + unat (mp_elt_size mp) + unat (mp_trailer_size mp) \<le> unat addr + unat zone \<and>
        (\<forall>j < k. unat (ring_contents (mp_ring mp) ! j) + unat (mp_elt_size mp) + unat (mp_trailer_size mp) +
           unat (mp_header_size mp) \<le> unat obj) \<and>
        (flags AND MEMPOOL_F_NO_CACHE_ALIGN = 0 \<longrightarrow> 64 dvd unat obj) \<and>
        rte_mempool_from_obj m obj = addr \<and>
        (\<forall>v2p. \<forall>d < unat (mp_elt_size mp). rte_mempool_virt2phy True v2p mp (obj + of_nat d) = Some (phys + (obj + of_nat d - addr)))))"

lemma create_full:
  assumes create: "rte_mempool_create e sr name n elt_sz csize psize mp_init obj_init flags (rings, pools, m) =
      Some (Inr (addr, mp), rings', pools', m')"
    and env: "hugepages e" "mem_banks e \<le> 2 ^ 20"
    and ring_zone: "\<forall>sz z. ring_mz e sz = Some z \<longrightarrow> length (slots z) = unat (rte_align32pow2 (n + 1))"
    and pool_zone: "\<forall>sz a p. pool_mz e sz = Some (a, p) \<longrightarrow> unat a mod 64 = 0 \<and> unat a + unat sz < 2 ^ 63"
    and sizes: "unat n < 2 ^ 31" "unat elt_sz \<le> 2 ^ 30"
    and ctor: "ctor_ok (RTE_ALIGN_CEIL elt_sz 8) obj_init"
    and names: "length name \<le> 31" "\<forall>(a, p) \<in> set pools. length (mp_name p) \<le> 31 \<and> mp_name p \<noteq> name"
  shows "filled_pool e n elt_sz flags addr mp m' \<and> rte_mempool_full mp \<and>
    rte_mempool_lookup name pools' = Inr (addr, mp) \<and> \<not> MEMPOOL_IS_CONTIG mp"
proof -
  obtain zone phys E where mz: "pool_mz e zone = Some (addr, phys)" and ok: "mp_ok mp" and size: "mp_size mp = n"
    and po: "pool_objs mp = mset (ring_contents (mp_ring mp))"
    and objs: "ring_contents (mp_ring mp) = map (obj_at mp E) [0..<unat n]"
    and span: "unat (elt_va_start mp) + unat n * unat E = unat addr + unat zone"
    and start: "unat addr + unat sizeof_rte_mempool \<le> unat (elt_va_start mp)" "64 dvd unat (elt_va_start mp)"
    and E: "unat E = unat (mp_header_size mp) + unat (mp_elt_size mp) + unat (mp_trailer_size mp)"
    and hdr: "8 \<le> unat (mp_header_size mp)" and esz: "unat elt_sz \<le> unat (mp_elt_size mp)"
    and al: "flags AND MEMPOOL_F_NO_CACHE_ALIGN = 0 \<longrightarrow> 64 dvd unat E \<and> unat (mp_header_size mp) = 64"
    and owner: "\<forall>obj \<in> set (ring_contents (mp_ring mp)). rte_mempool_from_obj m' obj = addr"
    and phys: "elt_pa mp = [phys + (elt_va_start mp - addr)]" "mp_phys_addr mp = phys" "mp_pg_shift mp = 63" "mp_pg_mask mp = RTE_LEN2MASK 63"
    and top: "unat addr + unat zone < 2 ^ 63" and pools': "pools' = pools @ [(addr, mp)]" and name: "mp_name mp = take 31 name"
    using create_default [OF create env ring_zone pool_zone sizes ctor] unfolding full_pool_def by blast
  have len: "length (ring_contents (mp_ring mp)) = unat n" by (simp add: objs)
  have full: "rte_mempool_full mp"
  proof -
    have "size (pool_objs mp) = unat (mp_size mp)" by (simp only: po len size size_mset)
    then show ?thesis using mempool_count_all [OF ok] by simp
  qed
  have space: "unat (elt_va_start mp) + unat n * unat E < 2 ^ 63" using span top by simp
  have at: "unat (ring_contents (mp_ring mp) ! k) = unat (elt_va_start mp) + k * unat E + unat (mp_header_size mp)" if "k < unat n" for k
    using obj_at_unat [OF space that] E that by (simp add: objs)
  have step: "j * unat E + unat E \<le> k * unat E" if "j < k" for j k :: nat
  proof -
    have "Suc j * unat E \<le> k * unat E" using that by (intro mult_le_mono1) simp
    then show ?thesis by simp
  qed
  have "elt_va_start mp \<noteq> addr" using start(1) by (auto simp: sizeof_rte_mempool_def)
  then have nc: "\<not> MEMPOOL_IS_CONTIG mp" by (simp add: MEMPOOL_IS_CONTIG_def phys(1,2))
  have obj: "unat addr + unat sizeof_rte_mempool + unat (mp_header_size mp) \<le> unat obj \<and>
        unat obj + unat (mp_elt_size mp) + unat (mp_trailer_size mp) \<le> unat addr + unat zone \<and>
        (\<forall>j < k. unat (ring_contents (mp_ring mp) ! j) + unat (mp_elt_size mp) + unat (mp_trailer_size mp) +
           unat (mp_header_size mp) \<le> unat obj) \<and>
        (flags AND MEMPOOL_F_NO_CACHE_ALIGN = 0 \<longrightarrow> 64 dvd unat obj) \<and>
        rte_mempool_from_obj m' obj = addr \<and>
        (\<forall>v2p. \<forall>d < unat (mp_elt_size mp). rte_mempool_virt2phy True v2p mp (obj + of_nat d) = Some (phys + (obj + of_nat d - addr)))"
    if k: "k < unat n" and o: "obj = ring_contents (mp_ring mp) ! k" for k obj
  proof (intro conjI allI impI)
    have u: "unat obj = unat (elt_va_start mp) + k * unat E + unat (mp_header_size mp)" using at [OF k] o by simp
    show "unat addr + unat sizeof_rte_mempool + unat (mp_header_size mp) \<le> unat obj" using u start(1) by simp
    show hi: "unat obj + unat (mp_elt_size mp) + unat (mp_trailer_size mp) \<le> unat addr + unat zone"
      using u span step [OF k] E by linarith
    show "unat (ring_contents (mp_ring mp) ! j) + unat (mp_elt_size mp) + unat (mp_trailer_size mp) + unat (mp_header_size mp) \<le> unat obj"
      if "j < k" for j
      using at [of j] that k u step [OF that] E by linarith
    show "64 dvd unat obj" if "flags AND MEMPOOL_F_NO_CACHE_ALIGN = 0"
      using al that start(2) unfolding u by simp
    show "rte_mempool_from_obj m' obj = addr" using owner k o len by simp
    show "rte_mempool_virt2phy True v2p mp (obj + of_nat d) = Some (phys + (obj + of_nat d - addr))" if d: "d < unat (mp_elt_size mp)" for v2p d
    proof (rule virt2phy_one_page [OF phys(1,3,4)])
      have "d < 2 ^ 32" using d unat_u32_less [of "mp_elt_size mp"] by linarith
      then have "unat (of_nat d :: u64) = d" by (simp add: unat_of_nat)
      moreover have "unat obj + d < 2 ^ 63" using hi d top by linarith
      ultimately have a: "unat (obj + of_nat d) = unat obj + d" by (subst unat_add_64) simp_all
      show "unat (elt_va_start mp) \<le> unat (obj + of_nat d)" using a u by simp
      show "unat (obj + of_nat d) < 2 ^ 63" using a hi d top by linarith
    qed
  qed
  have found: "rte_mempool_lookup name pools' = Inr (addr, mp)"
    unfolding pools' by (rule lookup_new_pool [OF names(1) name names(2)])
  have "filled_pool e n elt_sz flags addr mp m'"
    unfolding filled_pool_def
    by (intro conjI ok po len esz, intro exI conjI, rule mz, intro allI impI, rule obj)
  then show ?thesis using full found nc by blast
qed


definition sample_eal :: eal where
  "sample_eal = \<lparr>mem_nchannel = 4, mem_nrank = 2, hugepages = True, page_size = 4096, ring_te_ok = True,
     ring_mz = (\<lambda>_. Some \<lparr>ring_name = '''', ring_flags = 0,
       prod = \<lparr>watermark = 0, sp_enqueue = False, prod_size = 0, prod_mask = 0, prod_head = 0, prod_tail = 0\<rparr>,
       cons = \<lparr>sc_dequeue = False, cons_size = 0, cons_mask = 0, cons_head = 0, cons_tail = 0\<rparr>,
       slots = [0, 0, 0, 0]\<rparr>),
     pool_te_ok = True, pool_mz = (\<lambda>sz. if unat sz \<le> 2 ^ 40 then Some (2 ^ 20, 2 ^ 30) else None)\<rparr>"


end
