(* ===== verification/Token_Bucket.thy ===== *)
theory Token_Bucket
  imports Dpdk_Prelude
begin

text \<open>
  The contract of a token bucket, on which a traffic meter rests: every period a
  number of tokens is added, up to a limit; a packet that the bucket accepts takes
  as many tokens as it has bytes.  From one step to any sequence of packets: what
  was taken is bounded by the tokens at the start and those of the time passed.
\<close>

text \<open>A run of steps on a list of inputs, with the results.\<close>

fun run_steps :: "('i \<Rightarrow> 's \<Rightarrow> 'r \<times> 's) \<Rightarrow> 'i list \<Rightarrow> 's \<Rightarrow> 'r list \<times> 's" where
  "run_steps f [] s = ([], s)"
| "run_steps f (i # is) s = (let (r, s) = f i s; (rs, s) = run_steps f is s in (r # rs, s))"

text \<open>Times that do not go back, from \<open>lo\<close> to the horizon \<open>hi\<close>.\<close>

fun in_time :: "('i \<Rightarrow> nat) \<Rightarrow> nat \<Rightarrow> nat \<Rightarrow> 'i list \<Rightarrow> bool" where
  "in_time now lo hi [] = True"
| "in_time now lo hi (i # is) \<longleftrightarrow> lo \<le> now i \<and> now i \<le> hi \<and> in_time now (now i) hi is"

definition end_time :: "('i \<Rightarrow> nat) \<Rightarrow> nat \<Rightarrow> 'i list \<Rightarrow> nat" where
  "end_time now lo is = (if is = [] then lo else now (last is))"

definition taken_sum :: "('i \<Rightarrow> 'r \<Rightarrow> nat) \<Rightarrow> 'i list \<Rightarrow> 'r list \<Rightarrow> nat" where
  "taken_sum taken is rs = sum_list (map2 taken is rs)"

lemma end_time_Cons: "end_time now lo (i # is) = end_time now (now i) is"
  by (simp add: end_time_def)

lemma end_time_ge: "in_time now lo hi is \<Longrightarrow> lo \<le> end_time now lo is"
proof (induction "is" arbitrary: lo)
  case (Cons i "is")
  then show ?case using Cons.IH [of "now i"] by (auto simp: end_time_Cons intro: le_trans)
qed (simp add: end_time_def)

lemma in_time_mono: "in_time now lo hi is \<Longrightarrow> lo' \<le> lo \<Longrightarrow> in_time now lo' hi is"
  by (cases "is") auto

locale token_bucket =
  fixes ok :: "nat \<Rightarrow> 's \<Rightarrow> bool"
    and step :: "'i \<Rightarrow> 's \<Rightarrow> 'r \<times> 's"
    and now :: "'i \<Rightarrow> nat"
    and tokens :: "'s \<Rightarrow> nat" and limit :: "'s \<Rightarrow> nat" and clock :: "'s \<Rightarrow> nat"
    and period :: "'s \<Rightarrow> nat" and fill :: "'s \<Rightarrow> nat"
    and taken :: "'i \<Rightarrow> 'r \<Rightarrow> nat"
  assumes ok_tokens: "ok hi s \<Longrightarrow> tokens s \<le> limit s"
    and period_pos: "ok hi s \<Longrightarrow> 0 < period s"
    and step_ok: "ok hi s \<Longrightarrow> clock s \<le> now i \<Longrightarrow> now i \<le> hi \<Longrightarrow> step i s = (r, s') \<Longrightarrow>
      ok hi s' \<and> limit s' = limit s \<and> period s' = period s \<and> fill s' = fill s"
    and step_clock: "ok hi s \<Longrightarrow> clock s \<le> now i \<Longrightarrow> now i \<le> hi \<Longrightarrow> step i s = (r, s') \<Longrightarrow>
      clock s' = clock s + (now i - clock s) div period s * period s"
    and step_tokens: "ok hi s \<Longrightarrow> clock s \<le> now i \<Longrightarrow> now i \<le> hi \<Longrightarrow> step i s = (r, s') \<Longrightarrow>
      tokens s' + taken i r = min (limit s) (tokens s + (now i - clock s) div period s * fill s)"
begin

lemma clock_le_now:
  assumes "ok hi s" "clock s \<le> now i" "now i \<le> hi" "step i s = (r, s')"
  shows "clock s' \<le> now i"
proof -
  have "(now i - clock s) div period s * period s \<le> now i - clock s" by simp
  then show ?thesis using step_clock [OF assms] assms(2) by linarith
qed

lemma run_bounded:
  assumes "ok hi s" "clock s \<le> lo" "in_time now lo hi is" "run_steps step is s = (rs, s')"
  shows "ok hi s' \<and> tokens s' + taken_sum taken is rs \<le> tokens s + (end_time now lo is - clock s) div period s * fill s"
  using assms
proof (induction "is" arbitrary: s lo rs)
  case Nil
  then show ?case by (simp add: taken_sum_def)
next
  case (Cons i "is")
  obtain r s1 where 1: "step i s = (r, s1)" by fastforce
  obtain rs1 where 2: "run_steps step is s1 = (rs1, s')" "rs = r # rs1"
    using Cons.prems(4) 1 by (auto split: prod.splits)
  have t: "clock s \<le> now i" "now i \<le> hi" "in_time now (now i) hi is" using Cons.prems(2,3) by auto
  note st = step_ok [OF Cons.prems(1) t(1,2) 1] and cl = step_clock [OF Cons.prems(1) t(1,2) 1]
    and tk = step_tokens [OF Cons.prems(1) t(1,2) 1]
  let ?P = "period s" and ?e = "end_time now (now i) is" and ?n = "(now i - clock s) div period s"
  have IH: "ok hi s'" "tokens s' + taken_sum taken is rs1 \<le> tokens s1 + (?e - clock s1) div ?P * fill s"
    using Cons.IH [OF _ clock_le_now [OF Cons.prems(1) t(1,2) 1] t(3) 2(1)] st by auto
  have e: "now i \<le> ?e" using t(3) by (rule end_time_ge)
  have "?n \<le> (?e - clock s) div ?P" using e by (intro div_le_mono) simp
  moreover have "(?e - clock s1) div ?P = (?e - clock s) div ?P - ?n"
  proof -
    have "?n * ?P \<le> now i - clock s" by simp
    then have "?e - clock s = (?e - clock s1) + ?n * ?P" unfolding cl using e t(1) by linarith
    then have "(?e - clock s) div ?P = (?e - clock s1) div ?P + ?n"
      using div_mult_self1 [of ?P "?e - clock s1" ?n] period_pos [OF Cons.prems(1)] by simp
    then show ?thesis by simp
  qed
  ultimately have "?n * fill s + (?e - clock s1) div ?P * fill s = (?e - clock s) div ?P * fill s"
    by (simp flip: add_mult_distrib)
  then show ?case
    using IH tk 2(2) by (simp add: taken_sum_def end_time_Cons)
qed

end

end
