(* ===== verification/Rte_Meter.thy ===== *)
theory Rte_Meter
  imports Token_Bucket
begin

text \<open>
  lib/librte_meter: the single rate and the two rate three color markers, each
  with two token buckets.  Times are counts of CPU cycles.  The token parameters
  of a rate are computed in floating point (\<open>rte_meter_get_tb_params\<close>) and are an
  argument of the configuration here: a function from the frequency and the rate
  to the period and the bytes per period.  A period of 0 would be a division by
  zero; the theorems ask for positive ones.
\<close>

section \<open>Data\<close>

datatype rte_meter_color = e_RTE_METER_GREEN | e_RTE_METER_YELLOW | e_RTE_METER_RED

record rte_meter_srtcm_params =
  srp_cir :: u64
  srp_cbs :: u64
  srp_ebs :: u64

record rte_meter_trtcm_params =
  trp_cir :: u64
  trp_pir :: u64
  trp_cbs :: u64
  trp_pbs :: u64

record rte_meter_srtcm =
  sr_time :: u64
  sr_tc :: u64
  sr_te :: u64
  sr_cbs :: u64
  sr_ebs :: u64
  sr_cir_period :: u64
  sr_cir_bytes_per_period :: u64

record rte_meter_trtcm =
  tr_time_tc :: u64
  tr_time_tp :: u64
  tr_tc :: u64
  tr_tp :: u64
  tr_cbs :: u64
  tr_pbs :: u64
  tr_cir_period :: u64
  tr_cir_bytes_per_period :: u64
  tr_pir_period :: u64
  tr_pir_bytes_per_period :: u64

section \<open>Configuration\<close>

text \<open>
  \<open>params\<close> is \<open>None\<close> for NULL; the meter itself is given.  \<open>hz\<close> and \<open>now\<close> are what
  \<open>rte_get_tsc_hz\<close> and \<open>rte_get_tsc_cycles\<close> return.
\<close>

type_synonym tb_params = "u64 \<Rightarrow> u64 \<Rightarrow> u64 \<times> u64"

definition rte_meter_srtcm_config ::
  "tb_params \<Rightarrow> u64 \<Rightarrow> u64 \<Rightarrow> rte_meter_srtcm \<Rightarrow> rte_meter_srtcm_params option \<Rightarrow> int \<times> rte_meter_srtcm" where
  "rte_meter_srtcm_config tb hz now m params =
    (case params of None \<Rightarrow> (- 1, m)
     | Some p \<Rightarrow>
       if srp_cir p = 0 \<or> srp_cbs p = 0 \<and> srp_ebs p = 0 then (- 2, m)
       else let (period, bytes) = tb hz (srp_cir p)
            in (0, m\<lparr>sr_time := now, sr_tc := srp_cbs p, sr_cbs := srp_cbs p, sr_te := srp_ebs p, sr_ebs := srp_ebs p,
                 sr_cir_period := period, sr_cir_bytes_per_period := bytes\<rparr>))"

definition rte_meter_trtcm_config ::
  "tb_params \<Rightarrow> u64 \<Rightarrow> u64 \<Rightarrow> rte_meter_trtcm \<Rightarrow> rte_meter_trtcm_params option \<Rightarrow> int \<times> rte_meter_trtcm" where
  "rte_meter_trtcm_config tb hz now m params =
    (case params of None \<Rightarrow> (- 1, m)
     | Some p \<Rightarrow>
       if trp_cir p = 0 \<or> trp_pir p = 0 \<or> trp_pir p < trp_cir p \<or> trp_cbs p = 0 \<or> trp_pbs p = 0 then (- 2, m)
       else let (cperiod, cbytes) = tb hz (trp_cir p); (pperiod, pbytes) = tb hz (trp_pir p)
            in (0, m\<lparr>tr_time_tc := now, tr_time_tp := now, tr_tc := trp_cbs p, tr_cbs := trp_cbs p,
                 tr_tp := trp_pbs p, tr_pbs := trp_pbs p, tr_cir_period := cperiod, tr_cir_bytes_per_period := cbytes,
                 tr_pir_period := pperiod, tr_pir_bytes_per_period := pbytes\<rparr>))"

section \<open>Metering\<close>

text \<open>The lines that each function repeats for each of its buckets.\<close>

definition bucket_update :: "u64 \<Rightarrow> u64 \<Rightarrow> u64 \<Rightarrow> u64 \<Rightarrow> u64" where
  "bucket_update tokens n_periods bytes_per_period upper =
    (let t = tokens + n_periods * bytes_per_period in if t > upper then upper else t)"

definition rte_meter_srtcm_color_blind_check ::
  "rte_meter_srtcm \<Rightarrow> u64 \<Rightarrow> u32 \<Rightarrow> rte_meter_color \<times> rte_meter_srtcm" where
  "rte_meter_srtcm_color_blind_check m time pkt_len =
    (let time_diff = time - sr_time m;
         n_periods = time_diff div sr_cir_period m;
         m = m\<lparr>sr_time := sr_time m + n_periods * sr_cir_period m\<rparr>;
         tc = bucket_update (sr_tc m) n_periods (sr_cir_bytes_per_period m) (sr_cbs m);
         te = bucket_update (sr_te m) n_periods (sr_cir_bytes_per_period m) (sr_ebs m)
     in if tc \<ge> ucast pkt_len then (e_RTE_METER_GREEN, m\<lparr>sr_tc := tc - ucast pkt_len, sr_te := te\<rparr>)
        else if te \<ge> ucast pkt_len then (e_RTE_METER_YELLOW, m\<lparr>sr_tc := tc, sr_te := te - ucast pkt_len\<rparr>)
        else (e_RTE_METER_RED, m\<lparr>sr_tc := tc, sr_te := te\<rparr>))"

definition rte_meter_srtcm_color_aware_check ::
  "rte_meter_srtcm \<Rightarrow> u64 \<Rightarrow> u32 \<Rightarrow> rte_meter_color \<Rightarrow> rte_meter_color \<times> rte_meter_srtcm" where
  "rte_meter_srtcm_color_aware_check m time pkt_len pkt_color =
    (let time_diff = time - sr_time m;
         n_periods = time_diff div sr_cir_period m;
         m = m\<lparr>sr_time := sr_time m + n_periods * sr_cir_period m\<rparr>;
         tc = bucket_update (sr_tc m) n_periods (sr_cir_bytes_per_period m) (sr_cbs m);
         te = bucket_update (sr_te m) n_periods (sr_cir_bytes_per_period m) (sr_ebs m)
     in if pkt_color = e_RTE_METER_GREEN \<and> tc \<ge> ucast pkt_len
        then (e_RTE_METER_GREEN, m\<lparr>sr_tc := tc - ucast pkt_len, sr_te := te\<rparr>)
        else if pkt_color \<noteq> e_RTE_METER_RED \<and> te \<ge> ucast pkt_len
        then (e_RTE_METER_YELLOW, m\<lparr>sr_tc := tc, sr_te := te - ucast pkt_len\<rparr>)
        else (e_RTE_METER_RED, m\<lparr>sr_tc := tc, sr_te := te\<rparr>))"

definition rte_meter_trtcm_color_blind_check ::
  "rte_meter_trtcm \<Rightarrow> u64 \<Rightarrow> u32 \<Rightarrow> rte_meter_color \<times> rte_meter_trtcm" where
  "rte_meter_trtcm_color_blind_check m time pkt_len =
    (let time_diff_tc = time - tr_time_tc m;
         time_diff_tp = time - tr_time_tp m;
         n_periods_tc = time_diff_tc div tr_cir_period m;
         n_periods_tp = time_diff_tp div tr_pir_period m;
         m = m\<lparr>tr_time_tc := tr_time_tc m + n_periods_tc * tr_cir_period m,
               tr_time_tp := tr_time_tp m + n_periods_tp * tr_pir_period m\<rparr>;
         tc = bucket_update (tr_tc m) n_periods_tc (tr_cir_bytes_per_period m) (tr_cbs m);
         tp = bucket_update (tr_tp m) n_periods_tp (tr_pir_bytes_per_period m) (tr_pbs m)
     in if tp < ucast pkt_len then (e_RTE_METER_RED, m\<lparr>tr_tc := tc, tr_tp := tp\<rparr>)
        else if tc < ucast pkt_len then (e_RTE_METER_YELLOW, m\<lparr>tr_tc := tc, tr_tp := tp - ucast pkt_len\<rparr>)
        else (e_RTE_METER_GREEN, m\<lparr>tr_tc := tc - ucast pkt_len, tr_tp := tp - ucast pkt_len\<rparr>))"

definition rte_meter_trtcm_color_aware_check ::
  "rte_meter_trtcm \<Rightarrow> u64 \<Rightarrow> u32 \<Rightarrow> rte_meter_color \<Rightarrow> rte_meter_color \<times> rte_meter_trtcm" where
  "rte_meter_trtcm_color_aware_check m time pkt_len pkt_color =
    (let time_diff_tc = time - tr_time_tc m;
         time_diff_tp = time - tr_time_tp m;
         n_periods_tc = time_diff_tc div tr_cir_period m;
         n_periods_tp = time_diff_tp div tr_pir_period m;
         m = m\<lparr>tr_time_tc := tr_time_tc m + n_periods_tc * tr_cir_period m,
               tr_time_tp := tr_time_tp m + n_periods_tp * tr_pir_period m\<rparr>;
         tc = bucket_update (tr_tc m) n_periods_tc (tr_cir_bytes_per_period m) (tr_cbs m);
         tp = bucket_update (tr_tp m) n_periods_tp (tr_pir_bytes_per_period m) (tr_pbs m)
     in if pkt_color = e_RTE_METER_RED \<or> tp < ucast pkt_len then (e_RTE_METER_RED, m\<lparr>tr_tc := tc, tr_tp := tp\<rparr>)
        else if pkt_color = e_RTE_METER_YELLOW \<or> tc < ucast pkt_len
        then (e_RTE_METER_YELLOW, m\<lparr>tr_tc := tc, tr_tp := tp - ucast pkt_len\<rparr>)
        else (e_RTE_METER_GREEN, m\<lparr>tr_tc := tc - ucast pkt_len, tr_tp := tp - ucast pkt_len\<rparr>))"

lemma srtcm_blind_is_aware:
  "rte_meter_srtcm_color_blind_check m time pkt_len = rte_meter_srtcm_color_aware_check m time pkt_len e_RTE_METER_GREEN"
  by (simp add: rte_meter_srtcm_color_blind_check_def rte_meter_srtcm_color_aware_check_def Let_def)

lemma trtcm_blind_is_aware:
  "rte_meter_trtcm_color_blind_check m time pkt_len = rte_meter_trtcm_color_aware_check m time pkt_len e_RTE_METER_GREEN"
  by (simp add: rte_meter_trtcm_color_blind_check_def rte_meter_trtcm_color_aware_check_def Let_def)

section \<open>The buckets\<close>

type_synonym packet = "u64 \<times> u32 \<times> rte_meter_color"

definition pkt_time :: "packet \<Rightarrow> nat" where "pkt_time p = unat (fst p)"
definition pkt_bytes :: "packet \<Rightarrow> nat" where "pkt_bytes p = unat (fst (snd p))"

definition srtcm_step :: "packet \<Rightarrow> rte_meter_srtcm \<Rightarrow> rte_meter_color \<times> rte_meter_srtcm" where
  "srtcm_step p m = rte_meter_srtcm_color_aware_check m (fst p) (fst (snd p)) (snd (snd p))"

definition trtcm_step :: "packet \<Rightarrow> rte_meter_trtcm \<Rightarrow> rte_meter_color \<times> rte_meter_trtcm" where
  "trtcm_step p m = rte_meter_trtcm_color_aware_check m (fst p) (fst (snd p)) (snd (snd p))"

text \<open>The bytes of the packets marked with one of the given colors.\<close>

definition bytes_if :: "rte_meter_color set \<Rightarrow> packet \<Rightarrow> rte_meter_color \<Rightarrow> nat" where
  "bytes_if cs p c = (if c \<in> cs then pkt_bytes p else 0)"

text \<open>Up to time \<open>hi\<close> the bucket can be refilled without overflow.\<close>

definition bucket_ok :: "nat \<Rightarrow> u64 \<Rightarrow> u64 \<Rightarrow> u64 \<Rightarrow> u64 \<Rightarrow> bool" where
  "bucket_ok hi tokens upper period bytes \<longleftrightarrow> tokens \<le> upper \<and> 0 < unat period \<and>
     unat upper + hi div unat period * unat bytes < 2 ^ 64"

lemma bucket_update_exact:
  assumes "bucket_ok hi tokens upper period bytes" "clock \<le> time" "unat time \<le> hi"
  defines "n \<equiv> (time - clock) div period"
  shows "unat n = (unat time - unat clock) div unat period"
    "unat (clock + n * period) = unat clock + (unat time - unat clock) div unat period * unat period"
    "unat (bucket_update tokens n bytes upper) =
       min (unat upper) (unat tokens + (unat time - unat clock) div unat period * unat bytes)"
proof -
  have t: "unat (time - clock) = unat time - unat clock" using assms(2) by (simp add: unat_sub)
  show n: "unat n = (unat time - unat clock) div unat period" by (simp add: n_def unat_div t)
  have le: "unat n * unat period \<le> unat time - unat clock" unfolding n by simp
  have lt: "unat time < 2 ^ 64" using unsigned_less [of time] by simp
  have np: "unat (n * period) = unat n * unat period"
    using le lt by (subst unat_mult_lem [THEN iffD1]) simp_all
  have "unat (clock + n * period) = unat clock + unat n * unat period"
    using le lt np assms(2) by (subst unat_add_lem [THEN iffD1]) (simp_all add: word_le_nat_alt)
  then show "unat (clock + n * period) = unat clock + (unat time - unat clock) div unat period * unat period"
    by (simp add: n)
  have "unat n \<le> hi div unat period" unfolding n using assms(3) by (intro div_le_mono) simp
  then have "unat n * unat bytes \<le> hi div unat period * unat bytes" by (rule mult_le_mono1)
  moreover have "unat tokens \<le> unat upper" using assms(1) by (simp add: bucket_ok_def word_le_nat_alt)
  moreover have "unat upper + hi div unat period * unat bytes < 2 ^ 64" using assms(1) by (simp add: bucket_ok_def)
  ultimately have s: "unat tokens + unat n * unat bytes < 2 ^ 64" by linarith
  then have m: "unat (n * bytes) = unat n * unat bytes" by (subst unat_mult_lem [THEN iffD1]) simp_all
  then have "unat (tokens + n * bytes) = unat tokens + unat n * unat bytes"
    using s by (subst unat_add_lem [THEN iffD1]) simp_all
  then show "unat (bucket_update tokens n bytes upper) =
       min (unat upper) (unat tokens + (unat time - unat clock) div unat period * unat bytes)"
    by (auto simp: bucket_update_def Let_def word_less_nat_alt n)
qed

text \<open>What one call does to one bucket, from the new fields alone.\<close>

lemma bucket_step:
  assumes "bucket_ok hi tokens upper period bytes" "clock \<le> time" "unat time \<le> hi"
    and "clock' = clock + (time - clock) div period * period"
    and "tokens' = bucket_update tokens ((time - clock) div period) bytes upper - taken"
    and "taken \<le> bucket_update tokens ((time - clock) div period) bytes upper"
  shows "bucket_ok hi tokens' upper period bytes"
    "unat clock' = unat clock + (unat time - unat clock) div unat period * unat period"
    "unat tokens' + unat taken = min (unat upper) (unat tokens + (unat time - unat clock) div unat period * unat bytes)"
proof -
  note E = bucket_update_exact [OF assms(1-3)]
  have t: "unat tokens' + unat taken = unat (bucket_update tokens ((time - clock) div period) bytes upper)"
    using assms(5,6) by (simp add: unat_sub word_le_nat_alt)
  then show "unat tokens' + unat taken = min (unat upper) (unat tokens + (unat time - unat clock) div unat period * unat bytes)"
    using E(3) by simp
  then have "unat tokens' \<le> unat upper" by linarith
  then show "bucket_ok hi tokens' upper period bytes" using assms(1) by (simp add: bucket_ok_def word_le_nat_alt)
  show "unat clock' = unat clock + (unat time - unat clock) div unat period * unat period"
    unfolding assms(4) by (rule E(2))
qed

definition marked :: "rte_meter_color set \<Rightarrow> packet \<Rightarrow> rte_meter_color \<Rightarrow> u64" where
  "marked cs p c = (if c \<in> cs then ucast (fst (snd p)) else 0)"

lemma unat_marked: "unat (marked cs p c) = bytes_if cs p c"
  by (simp add: marked_def bytes_if_def pkt_bytes_def unsigned_ucast_eq take_bit_eq_mod) (use unat_u32_less [of "fst (snd p)"] in simp)

lemma srtcm_c_fields:
  assumes "srtcm_step p m = (c, m')"
  shows "sr_cbs m' = sr_cbs m \<and> sr_cir_period m' = sr_cir_period m \<and> sr_cir_bytes_per_period m' = sr_cir_bytes_per_period m \<and>
    sr_time m' = sr_time m + (fst p - sr_time m) div sr_cir_period m * sr_cir_period m \<and>
    sr_tc m' = bucket_update (sr_tc m) ((fst p - sr_time m) div sr_cir_period m) (sr_cir_bytes_per_period m) (sr_cbs m) - marked {e_RTE_METER_GREEN} p c \<and>
    marked {e_RTE_METER_GREEN} p c \<le> bucket_update (sr_tc m) ((fst p - sr_time m) div sr_cir_period m) (sr_cir_bytes_per_period m) (sr_cbs m)"
  using assms by (auto simp: srtcm_step_def rte_meter_srtcm_color_aware_check_def Let_def marked_def split: if_splits)

lemma srtcm_e_fields:
  assumes "srtcm_step p m = (c, m')"
  shows "sr_ebs m' = sr_ebs m \<and> sr_cir_period m' = sr_cir_period m \<and> sr_cir_bytes_per_period m' = sr_cir_bytes_per_period m \<and>
    sr_time m' = sr_time m + (fst p - sr_time m) div sr_cir_period m * sr_cir_period m \<and>
    sr_te m' = bucket_update (sr_te m) ((fst p - sr_time m) div sr_cir_period m) (sr_cir_bytes_per_period m) (sr_ebs m) - marked {e_RTE_METER_YELLOW} p c \<and>
    marked {e_RTE_METER_YELLOW} p c \<le> bucket_update (sr_te m) ((fst p - sr_time m) div sr_cir_period m) (sr_cir_bytes_per_period m) (sr_ebs m)"
  using assms by (auto simp: srtcm_step_def rte_meter_srtcm_color_aware_check_def Let_def marked_def split: if_splits)

lemma trtcm_c_fields:
  assumes "trtcm_step p m = (c, m')"
  shows "tr_cbs m' = tr_cbs m \<and> tr_cir_period m' = tr_cir_period m \<and> tr_cir_bytes_per_period m' = tr_cir_bytes_per_period m \<and>
    tr_time_tc m' = tr_time_tc m + (fst p - tr_time_tc m) div tr_cir_period m * tr_cir_period m \<and>
    tr_tc m' = bucket_update (tr_tc m) ((fst p - tr_time_tc m) div tr_cir_period m) (tr_cir_bytes_per_period m) (tr_cbs m) - marked {e_RTE_METER_GREEN} p c \<and>
    marked {e_RTE_METER_GREEN} p c \<le> bucket_update (tr_tc m) ((fst p - tr_time_tc m) div tr_cir_period m) (tr_cir_bytes_per_period m) (tr_cbs m)"
  using assms by (auto simp: trtcm_step_def rte_meter_trtcm_color_aware_check_def Let_def marked_def not_less split: if_splits)

lemma trtcm_p_fields:
  assumes "trtcm_step p m = (c, m')"
  shows "tr_pbs m' = tr_pbs m \<and> tr_pir_period m' = tr_pir_period m \<and> tr_pir_bytes_per_period m' = tr_pir_bytes_per_period m \<and>
    tr_time_tp m' = tr_time_tp m + (fst p - tr_time_tp m) div tr_pir_period m * tr_pir_period m \<and>
    tr_tp m' = bucket_update (tr_tp m) ((fst p - tr_time_tp m) div tr_pir_period m) (tr_pir_bytes_per_period m) (tr_pbs m) - marked {e_RTE_METER_GREEN, e_RTE_METER_YELLOW} p c \<and>
    marked {e_RTE_METER_GREEN, e_RTE_METER_YELLOW} p c \<le> bucket_update (tr_tp m) ((fst p - tr_time_tp m) div tr_pir_period m) (tr_pir_bytes_per_period m) (tr_pbs m)"
  using assms by (auto simp: trtcm_step_def rte_meter_trtcm_color_aware_check_def Let_def marked_def not_less split: if_splits)

definition srtcm_c_ok :: "nat \<Rightarrow> rte_meter_srtcm \<Rightarrow> bool" where
  "srtcm_c_ok hi m \<longleftrightarrow> bucket_ok hi (sr_tc m) (sr_cbs m) (sr_cir_period m) (sr_cir_bytes_per_period m)"

definition srtcm_e_ok :: "nat \<Rightarrow> rte_meter_srtcm \<Rightarrow> bool" where
  "srtcm_e_ok hi m \<longleftrightarrow> bucket_ok hi (sr_te m) (sr_ebs m) (sr_cir_period m) (sr_cir_bytes_per_period m)"

definition trtcm_c_ok :: "nat \<Rightarrow> rte_meter_trtcm \<Rightarrow> bool" where
  "trtcm_c_ok hi m \<longleftrightarrow> bucket_ok hi (tr_tc m) (tr_cbs m) (tr_cir_period m) (tr_cir_bytes_per_period m)"

definition trtcm_p_ok :: "nat \<Rightarrow> rte_meter_trtcm \<Rightarrow> bool" where
  "trtcm_p_ok hi m \<longleftrightarrow> bucket_ok hi (tr_tp m) (tr_pbs m) (tr_pir_period m) (tr_pir_bytes_per_period m)"

interpretation srtcm_c: token_bucket srtcm_c_ok srtcm_step pkt_time "\<lambda>m. unat (sr_tc m)" "\<lambda>m. unat (sr_cbs m)"
  "\<lambda>m. unat (sr_time m)" "\<lambda>m. unat (sr_cir_period m)" "\<lambda>m. unat (sr_cir_bytes_per_period m)" "bytes_if {e_RTE_METER_GREEN}"
proof (unfold_locales, goal_cases)
  case (3 hi m p c m')
  note F = srtcm_c_fields [OF 3(4)]
  show ?case using F bucket_step(1) [OF 3(1) [unfolded srtcm_c_ok_def] _ _ refl, where taken = "marked {e_RTE_METER_GREEN} p c"] 3(2,3)
    by (auto simp: srtcm_c_ok_def pkt_time_def word_le_nat_alt)
next
  case (4 hi m p c m')
  note F = srtcm_c_fields [OF 4(4)]
  show ?case using F bucket_step(2) [OF 4(1) [unfolded srtcm_c_ok_def] _ _ _ refl, where taken = 0 and clock' = "sr_time m'"] 4(2,3)
    by (simp add: pkt_time_def word_le_nat_alt)
next
  case (5 hi m p c m')
  note F = srtcm_c_fields [OF 5(4)]
  show ?case using F bucket_step(3) [OF 5(1) [unfolded srtcm_c_ok_def] _ _ refl, where taken = "marked {e_RTE_METER_GREEN} p c"] 5(2,3)
    by (simp add: pkt_time_def word_le_nat_alt unat_marked)
qed (auto simp: srtcm_c_ok_def bucket_ok_def word_le_nat_alt)

interpretation srtcm_e: token_bucket srtcm_e_ok srtcm_step pkt_time "\<lambda>m. unat (sr_te m)" "\<lambda>m. unat (sr_ebs m)"
  "\<lambda>m. unat (sr_time m)" "\<lambda>m. unat (sr_cir_period m)" "\<lambda>m. unat (sr_cir_bytes_per_period m)" "bytes_if {e_RTE_METER_YELLOW}"
proof (unfold_locales, goal_cases)
  case (3 hi m p c m')
  note F = srtcm_e_fields [OF 3(4)]
  show ?case using F bucket_step(1) [OF 3(1) [unfolded srtcm_e_ok_def] _ _ refl, where taken = "marked {e_RTE_METER_YELLOW} p c"] 3(2,3)
    by (auto simp: srtcm_e_ok_def pkt_time_def word_le_nat_alt)
next
  case (4 hi m p c m')
  note F = srtcm_e_fields [OF 4(4)]
  show ?case using F bucket_step(2) [OF 4(1) [unfolded srtcm_e_ok_def] _ _ _ refl, where taken = 0 and clock' = "sr_time m'"] 4(2,3)
    by (simp add: pkt_time_def word_le_nat_alt)
next
  case (5 hi m p c m')
  note F = srtcm_e_fields [OF 5(4)]
  show ?case using F bucket_step(3) [OF 5(1) [unfolded srtcm_e_ok_def] _ _ refl, where taken = "marked {e_RTE_METER_YELLOW} p c"] 5(2,3)
    by (simp add: pkt_time_def word_le_nat_alt unat_marked)
qed (auto simp: srtcm_e_ok_def bucket_ok_def word_le_nat_alt)

interpretation trtcm_c: token_bucket trtcm_c_ok trtcm_step pkt_time "\<lambda>m. unat (tr_tc m)" "\<lambda>m. unat (tr_cbs m)"
  "\<lambda>m. unat (tr_time_tc m)" "\<lambda>m. unat (tr_cir_period m)" "\<lambda>m. unat (tr_cir_bytes_per_period m)" "bytes_if {e_RTE_METER_GREEN}"
proof (unfold_locales, goal_cases)
  case (3 hi m p c m')
  note F = trtcm_c_fields [OF 3(4)]
  show ?case using F bucket_step(1) [OF 3(1) [unfolded trtcm_c_ok_def] _ _ refl, where taken = "marked {e_RTE_METER_GREEN} p c"] 3(2,3)
    by (auto simp: trtcm_c_ok_def pkt_time_def word_le_nat_alt)
next
  case (4 hi m p c m')
  note F = trtcm_c_fields [OF 4(4)]
  show ?case using F bucket_step(2) [OF 4(1) [unfolded trtcm_c_ok_def] _ _ _ refl, where taken = 0 and clock' = "tr_time_tc m'"] 4(2,3)
    by (simp add: pkt_time_def word_le_nat_alt)
next
  case (5 hi m p c m')
  note F = trtcm_c_fields [OF 5(4)]
  show ?case using F bucket_step(3) [OF 5(1) [unfolded trtcm_c_ok_def] _ _ refl, where taken = "marked {e_RTE_METER_GREEN} p c"] 5(2,3)
    by (simp add: pkt_time_def word_le_nat_alt unat_marked)
qed (auto simp: trtcm_c_ok_def bucket_ok_def word_le_nat_alt)

interpretation trtcm_p: token_bucket trtcm_p_ok trtcm_step pkt_time "\<lambda>m. unat (tr_tp m)" "\<lambda>m. unat (tr_pbs m)"
  "\<lambda>m. unat (tr_time_tp m)" "\<lambda>m. unat (tr_pir_period m)" "\<lambda>m. unat (tr_pir_bytes_per_period m)" "bytes_if {e_RTE_METER_GREEN, e_RTE_METER_YELLOW}"
proof (unfold_locales, goal_cases)
  case (3 hi m p c m')
  note F = trtcm_p_fields [OF 3(4)]
  show ?case using F bucket_step(1) [OF 3(1) [unfolded trtcm_p_ok_def] _ _ refl, where taken = "marked {e_RTE_METER_GREEN, e_RTE_METER_YELLOW} p c"] 3(2,3)
    by (auto simp: trtcm_p_ok_def pkt_time_def word_le_nat_alt)
next
  case (4 hi m p c m')
  note F = trtcm_p_fields [OF 4(4)]
  show ?case using F bucket_step(2) [OF 4(1) [unfolded trtcm_p_ok_def] _ _ _ refl, where taken = 0 and clock' = "tr_time_tp m'"] 4(2,3)
    by (simp add: pkt_time_def word_le_nat_alt)
next
  case (5 hi m p c m')
  note F = trtcm_p_fields [OF 5(4)]
  show ?case using F bucket_step(3) [OF 5(1) [unfolded trtcm_p_ok_def] _ _ refl, where taken = "marked {e_RTE_METER_GREEN, e_RTE_METER_YELLOW} p c"] 5(2,3)
    by (simp add: pkt_time_def word_le_nat_alt unat_marked)
qed (auto simp: trtcm_p_ok_def bucket_ok_def word_le_nat_alt)

section \<open>Conformance\<close>

definition both_empty :: rte_meter_srtcm where
  "both_empty = \<lparr>sr_time = 0, sr_tc = 0, sr_te = 0, sr_cbs = 500, sr_ebs = 500, sr_cir_period = 100, sr_cir_bytes_per_period = 10\<rparr>"

text \<open>C40: however the packets of a flow come, the bytes marked green are at most the tokens of the committed bucket at
  the start plus those of the whole periods passed since, and the buckets stay within their limits; the same holds for
  the yellow bytes and the excess bucket of the single rate meter, and for the green and yellow bytes together and the
  peak bucket of the two rate meter.  The color-blind checks are the color-aware ones on green packets.  The excess
  bucket is filled at the committed rate along with the committed one: with both empty, 200 bytes are marked green
  and yellow after ten periods of 10 bytes.\<close>

theorem meters_conform:
  assumes "srtcm_c_ok hi m" "srtcm_e_ok hi m" "trtcm_c_ok hi t" "trtcm_p_ok hi t"
    and "in_time pkt_time lo hi ps" "unat (sr_time m) \<le> lo" "unat (tr_time_tc t) \<le> lo" "unat (tr_time_tp t) \<le> lo"
    and "run_steps srtcm_step ps m = (cs, m')" "run_steps trtcm_step ps t = (ds, t')"
  shows "unat (sr_tc m') + taken_sum (bytes_if {e_RTE_METER_GREEN}) ps cs \<le> unat (sr_tc m) +
      (end_time pkt_time lo ps - unat (sr_time m)) div unat (sr_cir_period m) * unat (sr_cir_bytes_per_period m) \<and>
    unat (sr_te m') + taken_sum (bytes_if {e_RTE_METER_YELLOW}) ps cs \<le> unat (sr_te m) +
      (end_time pkt_time lo ps - unat (sr_time m)) div unat (sr_cir_period m) * unat (sr_cir_bytes_per_period m) \<and>
    unat (tr_tc t') + taken_sum (bytes_if {e_RTE_METER_GREEN}) ps ds \<le> unat (tr_tc t) +
      (end_time pkt_time lo ps - unat (tr_time_tc t)) div unat (tr_cir_period t) * unat (tr_cir_bytes_per_period t) \<and>
    unat (tr_tp t') + taken_sum (bytes_if {e_RTE_METER_GREEN, e_RTE_METER_YELLOW}) ps ds \<le> unat (tr_tp t) +
      (end_time pkt_time lo ps - unat (tr_time_tp t)) div unat (tr_pir_period t) * unat (tr_pir_bytes_per_period t) \<and>
    sr_tc m' \<le> sr_cbs m' \<and> sr_te m' \<le> sr_ebs m' \<and> tr_tc t' \<le> tr_cbs t' \<and> tr_tp t' \<le> tr_pbs t' \<and>
    (\<forall>m time len. rte_meter_srtcm_color_blind_check m time len = rte_meter_srtcm_color_aware_check m time len e_RTE_METER_GREEN) \<and>
    (\<forall>m time len. rte_meter_trtcm_color_blind_check m time len = rte_meter_trtcm_color_aware_check m time len e_RTE_METER_GREEN) \<and>
    fst (run_steps srtcm_step [(1000, 100, e_RTE_METER_GREEN), (1000, 100, e_RTE_METER_GREEN)] both_empty) =
      [e_RTE_METER_GREEN, e_RTE_METER_YELLOW]"
proof -
  have ex: "fst (run_steps srtcm_step [(1000, 100, e_RTE_METER_GREEN), (1000, 100, e_RTE_METER_GREEN)] both_empty) =
      [e_RTE_METER_GREEN, e_RTE_METER_YELLOW]"
    by (simp add: srtcm_step_def rte_meter_srtcm_color_aware_check_def both_empty_def bucket_update_def)
  note R = srtcm_c.run_bounded [OF assms(1,6,5,9)] srtcm_e.run_bounded [OF assms(2,6,5,9)]
    trtcm_c.run_bounded [OF assms(3,7,5,10)] trtcm_p.run_bounded [OF assms(4,8,5,10)]
  have lim: "sr_tc m' \<le> sr_cbs m'" "sr_te m' \<le> sr_ebs m'" "tr_tc t' \<le> tr_cbs t'" "tr_tp t' \<le> tr_pbs t'"
    using R by (simp_all add: srtcm_c_ok_def srtcm_e_ok_def trtcm_c_ok_def trtcm_p_ok_def bucket_ok_def)
  show ?thesis
    by (intro conjI allI lim ex srtcm_blind_is_aware trtcm_blind_is_aware R [THEN conjunct2])
qed

definition sample_two_rate :: rte_meter_trtcm where
  "sample_two_rate = \<lparr>tr_time_tc = 0, tr_time_tp = 0, tr_tc = 500, tr_tp = 800, tr_cbs = 500, tr_pbs = 800,
     tr_cir_period = 100, tr_cir_bytes_per_period = 10, tr_pir_period = 50, tr_pir_bytes_per_period = 10\<rparr>"

theorem meters_conform_witness:
  "taken_sum (bytes_if {e_RTE_METER_GREEN}) [(1000, 60, e_RTE_METER_GREEN), (1100, 60, e_RTE_METER_GREEN)]
     (fst (run_steps srtcm_step [(1000, 60, e_RTE_METER_GREEN), (1100, 60, e_RTE_METER_GREEN)] both_empty)) \<le> 110"
proof -
  let ?ps = "[(1000, 60, e_RTE_METER_GREEN), (1100, 60, e_RTE_METER_GREEN)]"
  obtain cs m' where a: "run_steps srtcm_step ?ps both_empty = (cs, m')" by fastforce
  obtain ds t' where b: "run_steps trtcm_step ?ps sample_two_rate = (ds, t')" by fastforce
  have ok: "srtcm_c_ok 2000 both_empty" "srtcm_e_ok 2000 both_empty" "trtcm_c_ok 2000 sample_two_rate" "trtcm_p_ok 2000 sample_two_rate"
    "in_time pkt_time 0 2000 ?ps" "unat (sr_time both_empty) \<le> 0" "unat (tr_time_tc sample_two_rate) \<le> 0" "unat (tr_time_tp sample_two_rate) \<le> 0"
    by (simp_all add: srtcm_c_ok_def srtcm_e_ok_def trtcm_c_ok_def trtcm_p_ok_def bucket_ok_def both_empty_def sample_two_rate_def pkt_time_def)
  show ?thesis
    using meters_conform [OF ok a b] unfolding a by (simp add: end_time_def pkt_time_def both_empty_def)
qed

end
