(* ===== verification/Spec2Isabelle.thy ===== *)
theory Spec2Isabelle
  imports Dpdk_Prelude Bulk_Queue Rte_Ring Rte_Ring_Fifo Rte_Lpm Lpm_Prefix Route_Table Rte_Lpm_Rules Rte_Lpm_Tables Rte_Lpm_Correct Rte_Common Rte_Table_Lpm Cmdline_Cirbuf Char_Stack Cirbuf_Correct Cmdline_Vt100 Cmdline_Rdline Rdline_Edit Rdline_Screen Rdline_History Rdline_Correct Rte_Mempool Mempool_Correct Rte_Mempool_Create Mempool_Layout Mempool_Create Token_Bucket Rte_Meter
begin

text \<open>
  A verification of the core packet-processing libraries of the DPDK copy that
  DPDK-Graph runs on.  All paths are under
  src/MLNX_DPDK-2.1_1.1/MLNX_DPDK-2.1_1.1/lib unless said otherwise.

  PROGRAM.  DPDK-Graph is a graph engine (C++, src/dpdk-graph) whose machines
  exchange messages over DPDK.  What decides whether packets and buffers are
  kept, lost or sent to the wrong place is the C code of the DPDK libraries:
  rings move pointers between cores; memory pools hand out buffers from a ring
  and a cache per core; the longest-prefix-match table gives the next hop of an
  address and the pipeline table counts the users of each next hop; the command
  line reads keys into two circular buffers and a history; meters color the packets
  of a flow.

  THEORIES, in the order of their imports.
  Dpdk_Prelude: names of the integer types and errno values, checked memory
    (\<open>read_at\<close>, \<open>write_at\<close>, \<open>memcpy\<close>, \<open>read_range\<close>, \<open>None\<close> for an access outside),
    generic lemmas, the collections of simplification rules.
  Rte_Common: librte_eal/common/include/rte_common.h and
    generic/rte_byteorder.h, alignment, powers of two, byte swaps.
  Bulk_Queue, Rte_Ring, Rte_Ring_Fifo: librte_ring/rte_ring.h and rte_ring.c.
    \<open>rte_ring\<close> has the two pairs of 32-bit indices and the slots; every enqueue
    and dequeue function is a definition of the same name.  \<open>bulk_queue\<close> is the
    contract of a bounded queue, interpreted for the multi and the single
    producer functions.
  Route_Table, Lpm_Prefix, Rte_Lpm, Rte_Lpm_Rules, Rte_Lpm_Tables,
    Rte_Lpm_Correct: librte_lpm/rte_lpm.h and rte_lpm.c.  \<open>rte_lpm\<close> has the rule
    table by depth, tbl24 and tbl8; the invariant \<open>lpm_ok\<close> ties every entry of the
    tables to the longest matching rule.  \<open>route_table\<close> is the contract for
    clients, interpreted on the table.
  Rte_Table_Lpm: librte_table/rte_table_lpm.c, a client of that contract.
  Cmdline_Cirbuf, Char_Stack, Cirbuf_Correct: librte_cmdline/cmdline_cirbuf.c.
    \<open>char_stack\<close> is the contract of one end of the buffer, interpreted for both
    ends; \<open>stack_pair\<close> moves characters between two buffers.
  Cmdline_Vt100: librte_cmdline/cmdline_vt100.c, the recogniser of keys.
  Cmdline_Rdline, Rdline_Edit, Rdline_Screen, Rdline_History, Rdline_Correct:
    librte_cmdline/cmdline_rdline.c, the line editor: one definition per key of
    \<open>rdline_char_in\<close>, on the buffers left and right of the caret.
  Rte_Mempool, Mempool_Correct: librte_mempool/rte_mempool.h and rte_mempool.c,
    a client of \<open>bulk_queue\<close>.
  Rte_Mempool_Create, Mempool_Layout, Mempool_Create: the size of an object, the
    layout of objects over pages (\<open>rte_mempool_obj_iter\<close>), the creation of a pool
    with its ring, its zone and its objects, lookup, and the way from an object to
    its pool and its physical address.  The answers of the environment are the
    record \<open>eal\<close>.
  Token_Bucket, Rte_Meter: librte_meter/rte_meter.h and rte_meter.c, the two
    color markers; \<open>token_bucket\<close> is the contract of a bucket, interpreted for the
    four buckets of the two meters.

  WHAT IS SHOWN.
  Ring: any session of bulk and burst calls answers and leaves what a list-based
    FIFO of capacity size - 1 does, from any position of the wrapping indices;
    counts, watermark, creation; exactly when a multi-producer call returns.
  LPM: in every reachable table the lookup, single, bulk or by four, is the
    longest match; what an addition and a deletion change, and when they fail;
    two runs in which a deletion of a short prefix damages other routes, with
    the condition (\<open>delete_safe\<close>) under which it does not.
  Pipeline table: next hops are shared and counted exactly; a second table gets
    the routes of the first.
  Command line: the circular buffer is a bounded list; the recogniser knows the
    26 sequences and stays in its buffer; the editor refines an editor on strings
    and the terminal shows its line; no input makes it leave its arrays or loop;
    the history is a bounded list of lines.
  Pool: no object is lost, doubled or made up by any mixture of calls; exactly
    when a get fails; the count is exact on quiet pools.
  Creation of pools: it returns, fails only for stated reasons, and gives a pool
    full of objects that do not overlap, inside the memory reserved; objects over
    a buffer of pages never cross pages that are not physically adjacent.
  Meters: whatever packets come, the bytes marked with a color are bounded by the
    bucket and the periods passed; the blind checks are the aware ones on green.

  BOUNDS AND TERMINATION.  Integers keep their C width and wrap.  Loops whose end
  is not structural are partial functions into \<open>option\<close>: \<open>None\<close> is a call that
  never returns, or an access outside an array; theorems state that the result
  is \<open>Some\<close> where it is, and no fuel is used.  Sizes come from
  config/common_linuxapp and the headers: 128 cores, caches of at most 512 objects
  (arrays of 1536), 256 tbl8 groups, 256 next hops, lines of 256 bytes, a history
  of 8192 bytes, rings of at most 2 ^ 27 slots.

  PARAMETERS.  What the code asks of the environment is an argument: whether
  memory for a list entry is granted, the memory zone returned, the memory layout,
  the number of the calling core, the cycle counter, the floating-point token
  parameters of a meter, the constructor of pool objects (contract \<open>ctor_ok\<close>) and
  the callbacks of the line editor (contracts \<open>validate_ok\<close> and \<open>complete_ok\<close>).

  NOT MODELLED.  Concurrency beyond the points where a call can wait: a call runs
  alone, from a state that other cores may have left in the middle of theirs;
  barriers and prefetches are no-ops and the locks of the lists are left out.
  Logging, dumping, debug statistics and cookies (off by default).  The other
  DPDK libraries, the drivers and kernel modules, the environment abstraction
  layer, and the C++ engine with its vendored RPC libraries are I/O, hardware
  access, third-party code or further components listed in the manifest.
\<close>

end
